(* ===== verification/Prelude.thy ===== *)
theory Prelude
  imports Main "HOL-Library.Word"
begin

text \<open>
  The types, the result monad and the byte-memory operations every component shares.

  C integers are words of their width (\<open>u8\<close>, \<open>u32\<close>, \<open>u64\<close>); lengths and positions of type
  \<open>long long\<close>, which the code range-checks, are \<open>int\<close>. A C array is a list of bytes; an access
  outside it, which C leaves undefined, is the error value \<open>Oob\<close>, so that memory safety is a
  provable property. The \<open>bug_*\<close> macros of bug.h end the process: they are the other error
  values.
\<close>

unbundle bit_operations_syntax

type_synonym u8 = "8 word"
type_synonym u16 = "16 word"
type_synonym u32 = "32 word"
type_synonym u64 = "64 word"
type_synonym bytes = "u8 list"

text \<open>
  How a run of the code can end early: the errno the \<open>bug\<close> macros set before they end the
  process (\<open>Einval\<close>, \<open>Enomem\<close>, \<open>Eproto\<close>, \<open>Eauth\<close>), any other call of \<open>die_fatal\<close> (\<open>Fatal\<close>), and
  undefined behaviour (\<open>Oob\<close>). \<open>Blocked\<close> is a run that waits for input the modelled environment has not
  given it yet.
\<close>

datatype cerr = Einval | Enomem | Eproto | Eauth | Fatal | Oob | Blocked

type_synonym 'a res = "cerr + 'a"

definition bindr :: "'e + 'a \<Rightarrow> ('a \<Rightarrow> 'e + 'b) \<Rightarrow> 'e + 'b" where
  "bindr m f = (case m of Inl e \<Rightarrow> Inl e | Inr x \<Rightarrow> f x)"

named_theorems res_simps \<open>unfolding rules of the result monad and of the byte memory\<close>

lemma bindr_Inl [simp]: "bindr (Inl e) f = Inl e"
  by (simp add: bindr_def)

lemma bindr_Inr [simp]: "bindr (Inr x) f = f x"
  by (simp add: bindr_def)

lemma bindr_assoc: "bindr (bindr m f) g = bindr m (\<lambda>x. bindr (f x) g)"
  by (cases m) simp_all

lemma bindr_eq_Inr: "bindr m f = Inr y \<longleftrightarrow> (\<exists>x. m = Inr x \<and> f x = Inr y)"
  by (cases m) auto

lemma bindr_eq_Inl: "bindr m f = Inl e \<longleftrightarrow> m = Inl e \<or> (\<exists>x. m = Inr x \<and> f x = Inl e)"
  by (cases m) auto

lemma bindr_cong [fundef_cong]:
  "m = n \<Longrightarrow> (\<And>x. n = Inr x \<Longrightarrow> f x = g x) \<Longrightarrow> bindr m f = bindr n g"
  by (cases n) auto

lemma if_bindr: "bindr (if c then a else b) f = (if c then bindr a f else bindr b f)"
  by simp

section \<open>Byte memory\<close>

text \<open>
  \<open>rd m i n\<close> reads the \<open>n\<close> bytes of array \<open>m\<close> from offset \<open>i\<close>; \<open>wr m i xs\<close> writes \<open>xs\<close> there.
  They are the closed forms the copying loops of byte.c are proved equal to.
\<close>

definition rd :: "bytes \<Rightarrow> int \<Rightarrow> int \<Rightarrow> bytes res" where
  "rd m i n =
     (if n \<le> 0 then Inr []
      else if 0 \<le> i \<and> i + n \<le> int (length m) then Inr (take (nat n) (drop (nat i) m))
      else Inl Oob)"

definition wr :: "bytes \<Rightarrow> int \<Rightarrow> bytes \<Rightarrow> bytes res" where
  "wr m i xs =
     (if xs = [] then Inr m
      else if 0 \<le> i \<and> i + int (length xs) \<le> int (length m)
      then Inr (take (nat i) m @ xs @ drop (nat i + length xs) m)
      else Inl Oob)"

text \<open>One byte read or written: \<open>a[i]\<close> of the source.\<close>

definition rd1 :: "bytes \<Rightarrow> int \<Rightarrow> u8 res" where
  "rd1 m i = (if 0 \<le> i \<and> i < int (length m) then Inr (m ! nat i) else Inl Oob)"

definition wr1 :: "bytes \<Rightarrow> int \<Rightarrow> u8 \<Rightarrow> bytes res" where
  "wr1 m i x = (if 0 \<le> i \<and> i < int (length m) then Inr (m[nat i := x]) else Inl Oob)"

lemma rd_in [res_simps]:
  "0 \<le> i \<Longrightarrow> 0 \<le> n \<Longrightarrow> i + n \<le> int (length m) \<Longrightarrow> rd m i n = Inr (take (nat n) (drop (nat i) m))"
  by (simp add: rd_def)

lemma wr_in [res_simps]:
  "0 \<le> i \<Longrightarrow> i + int (length xs) \<le> int (length m) \<Longrightarrow>
   wr m i xs = Inr (take (nat i) m @ xs @ drop (nat i + length xs) m)"
  by (simp add: wr_def)

lemma rd1_in [res_simps]: "0 \<le> i \<Longrightarrow> i < int (length m) \<Longrightarrow> rd1 m i = Inr (m ! nat i)"
  by (simp add: rd1_def)

lemma wr1_in [res_simps]: "0 \<le> i \<Longrightarrow> i < int (length m) \<Longrightarrow> wr1 m i x = Inr (m[nat i := x])"
  by (simp add: wr1_def)

lemma rd_length: "rd m i n = Inr xs \<Longrightarrow> length xs = nat n"
  by (auto simp: rd_def split: if_splits)

lemma wr_length: "wr m i xs = Inr m' \<Longrightarrow> length m' = length m"
  by (auto simp: wr_def split: if_splits)

lemma wr1_length: "wr1 m i x = Inr m' \<Longrightarrow> length m' = length m"
  by (auto simp: wr1_def split: if_splits)

text \<open>Writing after a prefix of known length, the form every appending operation uses.\<close>

lemma wr_append:
  "length xs \<le> length r \<Longrightarrow>
   wr (p @ r) (int (length p)) xs = Inr (p @ xs @ drop (length xs) r)"
  by (simp add: wr_in)

lemma rd_append:
  "n \<le> length r \<Longrightarrow> rd (p @ r) (int (length p)) (int n) = Inr (take n r)"
  by (simp add: rd_in)

section \<open>Packing words into bytes\<close>

text \<open>
  The loops \<open>for (i = 0; i < n; ++i) { y[i] = x; x >>= 8; }\<close> (little endian) and
  \<open>y = (y << 8) | x[i]\<close> (big endian), at any word width.
\<close>

primrec pack_le :: "nat \<Rightarrow> 'a::len word \<Rightarrow> bytes" where
  "pack_le 0 x = []"
| "pack_le (Suc n) x = ucast x # pack_le n (drop_bit 8 x)"

definition pack_be :: "nat \<Rightarrow> 'a::len word \<Rightarrow> bytes" where
  "pack_be n x = rev (pack_le n x)"

primrec unpack_be_from :: "'a::len word \<Rightarrow> bytes \<Rightarrow> 'a word" where
  "unpack_be_from y [] = y"
| "unpack_be_from y (b # bs) = unpack_be_from (push_bit 8 y OR ucast b) bs"

definition unpack_be :: "bytes \<Rightarrow> 'a::len word" where
  "unpack_be bs = unpack_be_from 0 bs"

definition unpack_le :: "bytes \<Rightarrow> 'a::len word" where
  "unpack_le bs = unpack_be_from 0 (rev bs)"

lemma length_pack_le [simp]: "length (pack_le n x) = n"
  by (induction n arbitrary: x) simp_all

lemma length_pack_be [simp]: "length (pack_be n x) = n"
  by (simp add: pack_be_def)

lemma pack_le_nth: "i < n \<Longrightarrow> pack_le n x ! i = ucast (drop_bit (8 * i) x)"
proof (induction n arbitrary: x i)
  case 0
  then show ?case by simp
next
  case (Suc n)
  then show ?case
    by (cases i) (simp_all add: drop_bit_drop_bit ac_simps)
qed

lemma unpack_be_from_append:
  "unpack_be_from y (xs @ zs) = unpack_be_from (unpack_be_from y xs) zs"
  by (induction xs arbitrary: y) simp_all

lemma unpack_le_Nil [simp]: "unpack_le [] = 0"
  by (simp add: unpack_le_def)

lemma unpack_le_Cons [simp]:
  "unpack_le (b # bs) = (push_bit 8 (unpack_le bs) OR ucast b :: 'a::len word)"
  by (simp add: unpack_le_def unpack_be_from_append)

lemma unpack_be_rev: "unpack_be bs = unpack_le (rev bs)"
  by (simp add: unpack_be_def unpack_le_def)

lemma bit_unpack_le:
  "bit (unpack_le bs :: 'a::len word) i \<longleftrightarrow>
     i < LENGTH('a) \<and> i div 8 < length bs \<and> bit (bs ! (i div 8)) (i mod 8)"
proof (induction bs arbitrary: i)
  case Nil
  then show ?case by simp
next
  case (Cons b bs)
  show ?case
  proof (cases "i < 8")
    case True
    then show ?thesis by (auto simp: bit_simps)
  next
    case False
    then have "i div 8 = Suc ((i - 8) div 8)" and "i mod 8 = (i - 8) mod 8"
      by (simp_all add: le_div_geq le_mod_geq)
    with False show ?thesis
      by (auto simp: bit_simps Cons.IH dest: bit_imp_le_length)
  qed
qed

lemma unpack_le_pack_le:
  "LENGTH('a) \<le> 8 * n \<Longrightarrow> unpack_le (pack_le n x) = (x :: 'a::len word)"
  by (rule bit_word_eqI) (auto simp: bit_unpack_le pack_le_nth bit_simps)

lemma unpack_be_pack_be:
  "LENGTH('a) \<le> 8 * n \<Longrightarrow> unpack_be (pack_be n x) = (x :: 'a::len word)"
  by (simp add: unpack_be_rev pack_be_def unpack_le_pack_le)

lemma pack_le_unpack_le:
  assumes "8 * length bs \<le> LENGTH('a)"
  shows "pack_le (length bs) (unpack_le bs :: 'a::len word) = bs"
proof (rule nth_equalityI)
  fix i
  assume "i < length (pack_le (length bs) (unpack_le bs :: 'a word))"
  then have i: "i < length bs" by simp
  show "pack_le (length bs) (unpack_le bs :: 'a word) ! i = bs ! i"
  proof (rule bit_word_eqI)
    fix n
    assume "n < LENGTH(8)"
    then have n: "n < 8" by simp
    have "8 * i + n < LENGTH('a)" using i n assms by linarith
    moreover have "(8 * i + n) div 8 = i" "(8 * i + n) mod 8 = n" using n by auto
    ultimately show "bit (pack_le (length bs) (unpack_le bs :: 'a word) ! i) n = bit (bs ! i) n"
      using i n by (simp add: pack_le_nth bit_simps bit_unpack_le)
  qed
qed simp

lemma pack_be_unpack_be:
  "8 * length bs \<le> LENGTH('a) \<Longrightarrow> pack_be (length bs) (unpack_be bs :: 'a::len word) = bs"
  using pack_le_unpack_le [of "rev bs", where 'a = 'a]
  by (simp add: pack_be_def unpack_be_rev)

lemma pack_le_xor: "pack_le n (a XOR b) = map2 (XOR) (pack_le n a) (pack_le n b)"
  by (rule nth_equalityI) (auto simp: pack_le_nth intro!: bit_word_eqI simp: bit_simps)

lemma unpack_le_4:
  "unpack_le [b0, b1, b2, b3] =
     (ucast b0 OR push_bit 8 (ucast b1) OR push_bit 16 (ucast b2) OR push_bit 24 (ucast b3) :: 'a::len word)"
  by (simp add: push_bit_or ac_simps)

section \<open>Conversions between widths\<close>

lemma uint_ucast_up: "LENGTH('a) \<le> LENGTH('b) \<Longrightarrow> uint (ucast (x :: 'a::len word) :: 'b::len word) = uint x"
  by (rule bit_eqI) (auto simp: bit_simps dest: bit_imp_le_length)

lemma unat_ucast_up: "LENGTH('a) \<le> LENGTH('b) \<Longrightarrow> unat (ucast (x :: 'a::len word) :: 'b::len word) = unat x"
  by (rule bit_eqI) (auto simp: bit_simps dest: bit_imp_le_length)

lemma unat_small_drop_bit: "unat w < 2 ^ n \<Longrightarrow> drop_bit n w = (0 :: 'a::len word)"
proof -
  assume "unat w < 2 ^ n"
  then have "drop_bit n (unat w) = 0" by (simp add: drop_bit_eq_div)
  then have "unat (drop_bit n w) = 0" by (metis drop_bit_take_bit take_bit_of_0 unsigned_drop_bit_eq)
  then show ?thesis by (simp add: unat_eq_0)
qed

section \<open>Words without wrap-around\<close>

named_theorems unat_nowrap \<open>unat of an operation whose result fits the word\<close>

lemma unat_add_fits [unat_nowrap]:
  "unat a + unat b < 2 ^ LENGTH('a) \<Longrightarrow> unat (a + b :: 'a::len word) = unat a + unat b"
  by (simp add: unat_word_ariths)

lemma unat_mult_fits [unat_nowrap]:
  "unat a * unat b < 2 ^ LENGTH('a) \<Longrightarrow> unat (a * b :: 'a::len word) = unat a * unat b"
  by (simp add: unat_word_ariths)

lemma unat_ucast_fits [unat_nowrap]:
  "unat a < 2 ^ LENGTH('b) \<Longrightarrow> unat (ucast (a :: 'a::len word) :: 'b::len word) = unat a"
  by (simp add: unsigned_ucast_eq take_bit_word_eq_self take_bit_nat_eq_self)

lemma unat_drop_bit: "unat (drop_bit n a) = unat (a :: 'a::len word) div 2 ^ n"
proof -
  have "unat (drop_bit n a) = drop_bit n (unat a)"
    by (rule bit_eqI) (auto simp: bit_simps dest: bit_imp_le_length)
  then show ?thesis by (simp add: drop_bit_eq_div)
qed

lemma unat_and_mask: "unat (a AND mask n) = unat (a :: 'a::len word) mod 2 ^ n"
proof -
  have "unat (a AND mask n) = take_bit n (unat a)"
    by (rule bit_eqI) (auto simp: bit_simps dest: bit_imp_le_length)
  then show ?thesis by (simp add: take_bit_eq_mod)
qed

section \<open>Numbers as bytes\<close>

text \<open>The number a list of bytes stands for, least significant byte first, and back.\<close>

primrec le_nat :: "bytes \<Rightarrow> nat" where
  "le_nat [] = 0"
| "le_nat (b # bs) = unat b + 256 * le_nat bs"

primrec le_bytes :: "nat \<Rightarrow> nat \<Rightarrow> bytes" where
  "le_bytes 0 x = []"
| "le_bytes (Suc n) x = word_of_nat (x mod 256) # le_bytes n (x div 256)"

lemma length_le_bytes [simp]: "length (le_bytes n x) = n"
  by (induction n arbitrary: x) simp_all

lemma le_nat_lt: "le_nat bs < 2 ^ (8 * length bs)"
proof (induction bs)
  case (Cons b bs)
  have "unat b < 256" using unsigned_less [of b] by simp
  moreover have "(2 :: nat) ^ (8 * length (b # bs)) = 256 * 2 ^ (8 * length bs)"
    by (simp add: power_add)
  ultimately show ?case using Cons.IH by simp
qed simp

lemma le_nat_append: "le_nat (xs @ ys) = le_nat xs + 2 ^ (8 * length xs) * le_nat ys"
  by (induction xs) (simp_all add: power_add algebra_simps)

lemma le_nat_replicate_0 [simp]: "le_nat (replicate n 0) = 0"
  by (induction n) simp_all

lemma le_nat_le_bytes: "le_nat (le_bytes n x) = x mod 2 ^ (8 * n)"
proof (induction n arbitrary: x)
  case (Suc n)
  have "unat (word_of_nat (x mod 256) :: u8) = x mod 256"
    by (simp add: unsigned_of_nat take_bit_eq_mod)
  moreover have "(2 :: nat) ^ (8 * Suc n) = 256 * 2 ^ (8 * n)" by (simp add: power_add)
  ultimately show ?case
    using Suc.IH [of "x div 256"] by (simp add: mod_mult2_eq)
qed simp

lemma le_bytes_le_nat: "le_bytes (length bs) (le_nat bs) = bs"
proof (induction bs)
  case (Cons b bs)
  have "unat b < 256" using unsigned_less [of b] by simp
  then have "(unat b + 256 * le_nat bs) mod 256 = unat b" "(unat b + 256 * le_nat bs) div 256 = le_nat bs"
    by simp_all
  then show ?case using Cons.IH by simp
qed simp

lemma le_nat_inject: "length a = length b \<Longrightarrow> le_nat a = le_nat b \<longleftrightarrow> a = b"
  using le_bytes_le_nat [of a] le_bytes_le_nat [of b] by metis

lemma le_nat_take_drop:
  assumes "i + k \<le> length bs"
  shows "le_nat (take k (drop i bs)) = le_nat bs div 2 ^ (8 * i) mod 2 ^ (8 * k)"
proof -
  have "bs = take i bs @ take k (drop i bs) @ drop (i + k) bs"
    using assms by (metis append_take_drop_id add.commute drop_drop)
  then have "le_nat bs = le_nat (take i bs) +
      2 ^ (8 * i) * (le_nat (take k (drop i bs)) + 2 ^ (8 * k) * le_nat (drop (i + k) bs))"
    using assms by (metis (no_types, lifting) le_nat_append length_take length_drop add_le_imp_le_diff
        min.absorb2 add.commute add_leD1)
  moreover have "le_nat (take i bs) < 2 ^ (8 * i)"
    using le_nat_lt [of "take i bs"] assms by (simp add: min_absorb2)
  moreover have "le_nat (take k (drop i bs)) < 2 ^ (8 * k)"
    using le_nat_lt [of "take k (drop i bs)"] assms by (simp add: min_absorb2)
  ultimately show ?thesis by simp
qed

lemma unat_unpack_le:
  "8 * length bs \<le> LENGTH('a) \<Longrightarrow> unat (unpack_le bs :: 'a::len word) = le_nat bs"
proof (induction bs)
  case (Cons b bs)
  let ?w = "unpack_le bs :: 'a word"
  have lt: "unat ?w < 2 ^ (8 * length bs)" using Cons le_nat_lt [of bs] by simp
  have "unat (push_bit 8 ?w OR ucast b) = push_bit 8 (unat ?w) OR unat b"
  proof (rule bit_eqI)
    fix i
    have "bit (unat ?w) (i - 8) \<Longrightarrow> i < LENGTH('a)" if "8 \<le> i"
    proof -
      assume "bit (unat ?w) (i - 8)"
      with lt have "i - 8 < 8 * length bs"
        by (metis bit_take_bit_iff take_bit_nat_eq_self)
      with Cons.prems that show ?thesis by simp
    qed
    then show "bit (unat (push_bit 8 ?w OR ucast b)) i = bit (push_bit 8 (unat ?w) OR unat b) i"
      using Cons.prems by (auto simp: bit_simps dest: bit_imp_le_length)
  qed
  also have "\<dots> = push_bit 8 (unat ?w) + unat b"
    by (rule disjunctive_add [symmetric]) (auto simp: bit_simps dest: bit_imp_le_length)
  finally show ?case using Cons by (simp add: push_bit_eq_mult)
qed simp

lemma le_nat_pack_le: "LENGTH('a) \<le> 8 * n \<Longrightarrow> le_nat (pack_le n (x :: 'a::len word)) = unat x"
proof -
  have "le_nat (pack_le n x) = unat x mod 2 ^ (8 * n)"
  proof (induction n arbitrary: x)
    case (Suc n)
    have "unat (ucast x :: u8) = unat x mod 256"
      by (simp add: unsigned_ucast_eq unsigned_take_bit_eq take_bit_eq_mod)
    moreover have "(2 :: nat) ^ (8 * Suc n) = 256 * 2 ^ (8 * n)" by (simp add: power_add)
    ultimately show ?case
      using Suc.IH [of "drop_bit 8 x"] by (simp add: mod_mult2_eq unat_drop_bit)
  qed simp
  moreover assume "LENGTH('a) \<le> 8 * n"
  then have "unat x < 2 ^ (8 * n)"
    using unsigned_less [of x] by (meson less_le_trans one_le_numeral power_increasing)
  ultimately show ?thesis by simp
qed

section \<open>C strings\<close>

text \<open>
  A string literal of the source as the bytes it stands for; \<open>cstr\<close> adds the terminating zero
  byte.
\<close>

definition lit :: "string \<Rightarrow> bytes" where
  "lit s = map of_char s"

definition cstr :: "string \<Rightarrow> bytes" where
  "cstr s = lit s @ [0]"

lemma length_lit [simp]: "length (lit s) = length s"
  by (simp add: lit_def)

lemma lit_Nil [simp]: "lit [] = []"
  by (simp add: lit_def)

lemma lit_Cons [simp]: "lit (c # s) = of_char c # lit s"
  by (simp add: lit_def)

section \<open>Lists\<close>

lemma take_nat_drop: "take n (drop m xs) @ drop (m + n) xs = drop m xs"
  by (metis add.commute append_take_drop_id drop_drop)

lemma take_update_same [simp]: "take n (xs[n := x]) = take n xs"
  by (simp add: take_update_swap list_update_beyond)

lemma list_update_split:
  "i < length xs \<Longrightarrow> xs[i := x] = take i xs @ x # drop (Suc i) xs"
  by (simp add: upd_conv_take_nth_drop)

lemma map_nth_8: "length z = 8 \<Longrightarrow> map (\<lambda>i. z ! i) [0..<8] = z"
  by (metis map_nth)

end
