(* ===== verification/Bytes.thy ===== *)
theory Bytes
  imports Prelude
begin

text \<open>
  The byte and string helpers: byte.c, str.c, cleanup.c, verify.c, crypto_verify_16.c,
  crypto_verify_32.c and the four uint32_pack / uint32_unpack files. The loops are translated as
  loops and proved equal to the closed forms of the prelude.
\<close>

section \<open>byte.c and cleanup.c\<close>

text \<open>
  \<open>while (ylen > 0) { *y++ = *x++; --ylen; }\<close> runs \<open>nat ylen\<close> times. \<open>byte_copy\<close> is the call with
  two distinct arrays, \<open>byte_move\<close> the call whose source and destination lie in one array (the
  loop then reads what it has already written).
\<close>

primrec byte_copy_loop :: "bytes \<Rightarrow> nat \<Rightarrow> bytes \<Rightarrow> nat \<Rightarrow> nat \<Rightarrow> bytes res" where
  "byte_copy_loop y yo x xo 0 = Inr y"
| "byte_copy_loop y yo x xo (Suc k) =
     (if yo < length y \<and> xo < length x
      then byte_copy_loop (y[yo := x ! xo]) (Suc yo) x (Suc xo) k else Inl Oob)"

definition byte_copy :: "bytes \<Rightarrow> int \<Rightarrow> int \<Rightarrow> bytes \<Rightarrow> int \<Rightarrow> bytes res" where
  "byte_copy y yo ylen x xo =
     (if ylen \<le> 0 then Inr y
      else if yo < 0 \<or> xo < 0 then Inl Oob
      else byte_copy_loop y (nat yo) x (nat xo) (nat ylen))"

primrec byte_move_loop :: "bytes \<Rightarrow> nat \<Rightarrow> nat \<Rightarrow> nat \<Rightarrow> bytes res" where
  "byte_move_loop y yo xo 0 = Inr y"
| "byte_move_loop y yo xo (Suc k) =
     (if yo < length y \<and> xo < length y
      then byte_move_loop (y[yo := y ! xo]) (Suc yo) (Suc xo) k else Inl Oob)"

definition byte_move :: "bytes \<Rightarrow> int \<Rightarrow> int \<Rightarrow> int \<Rightarrow> bytes res" where
  "byte_move y yo ylen xo =
     (if ylen \<le> 0 then Inr y
      else if yo < 0 \<or> xo < 0 then Inl Oob
      else byte_move_loop y (nat yo) (nat xo) (nat ylen))"

primrec byte_zero_loop :: "bytes \<Rightarrow> nat \<Rightarrow> nat \<Rightarrow> bytes res" where
  "byte_zero_loop y yo 0 = Inr y"
| "byte_zero_loop y yo (Suc k) =
     (if yo < length y then byte_zero_loop (y[yo := 0]) (Suc yo) k else Inl Oob)"

definition byte_zero :: "bytes \<Rightarrow> int \<Rightarrow> int \<Rightarrow> bytes res" where
  "byte_zero y yo ylen =
     (if ylen \<le> 0 then Inr y
      else if yo < 0 then Inl Oob else byte_zero_loop y (nat yo) (nat ylen))"

text \<open>\<open>purge\<close> of purge.h is \<open>cleanup_\<close>: the same loop over volatile memory.\<close>

definition purge :: "bytes \<Rightarrow> int \<Rightarrow> int \<Rightarrow> bytes res" where
  "purge y yo ylen =
     (if ylen \<le> 0 then Inr y
      else if yo < 0 then Inl Oob else byte_zero_loop y (nat yo) (nat ylen))"

lemma byte_copy_loop_eq:
  "yo + k \<le> length y \<Longrightarrow> xo + k \<le> length x \<Longrightarrow>
   byte_copy_loop y yo x xo k = Inr (take yo y @ take k (drop xo x) @ drop (yo + k) y)"
proof (induction k arbitrary: y yo xo)
  case 0
  then show ?case by simp
next
  case (Suc k)
  have "take (Suc yo) (y[yo := x ! xo]) = take yo y @ [x ! xo]"
    using Suc.prems by (simp add: take_Suc_conv_app_nth)
  moreover have "drop (Suc yo + k) (y[yo := x ! xo]) = drop (yo + Suc k) y"
    by simp
  moreover have "take (Suc k) (drop xo x) = x ! xo # take k (drop (Suc xo) x)"
    using Suc.prems by (simp add: Cons_nth_drop_Suc [symmetric])
  ultimately show ?case
    using Suc.prems Suc.IH [of "Suc yo" "y[yo := x ! xo]" "Suc xo"] by simp
qed

lemma byte_copy_loop_Inr:
  "byte_copy_loop y yo x xo k = Inr y' \<Longrightarrow> k > 0 \<Longrightarrow> yo + k \<le> length y \<and> xo + k \<le> length x"
proof (induction k arbitrary: y yo xo)
  case 0
  then show ?case by simp
next
  case (Suc k)
  then show ?case
    by (cases "k = 0") (fastforce split: if_splits)+
qed

lemma byte_copy_eq:
  "0 \<le> yo \<Longrightarrow> 0 \<le> xo \<Longrightarrow> 0 \<le> n \<Longrightarrow> yo + n \<le> int (length y) \<Longrightarrow> xo + n \<le> int (length x) \<Longrightarrow>
   byte_copy y yo n x xo =
     Inr (take (nat yo) y @ take (nat n) (drop (nat xo) x) @ drop (nat yo + nat n) y)"
  by (auto simp: byte_copy_def intro!: byte_copy_loop_eq)

lemma byte_move_loop_eq:
  "yo \<le> xo \<Longrightarrow> xo + k \<le> length y \<Longrightarrow>
   byte_move_loop y yo xo k = Inr (take yo y @ take k (drop xo y) @ drop (yo + k) y)"
proof (induction k arbitrary: y yo xo)
  case 0
  then show ?case by simp
next
  case (Suc k)
  have "take (Suc yo) (y[yo := y ! xo]) = take yo y @ [y ! xo]"
    using Suc.prems by (simp add: take_Suc_conv_app_nth)
  moreover have "drop (Suc yo + k) (y[yo := y ! xo]) = drop (yo + Suc k) y"
    by simp
  moreover have "drop (Suc xo) (y[yo := y ! xo]) = drop (Suc xo) y"
    using Suc.prems by simp
  moreover have "take (Suc k) (drop xo y) = y ! xo # take k (drop (Suc xo) y)"
    using Suc.prems by (simp add: Cons_nth_drop_Suc [symmetric])
  ultimately show ?case
    using Suc.prems Suc.IH [of "Suc yo" "Suc xo" "y[yo := y ! xo]"] by simp
qed

lemma byte_move_eq:
  "0 \<le> yo \<Longrightarrow> yo \<le> xo \<Longrightarrow> 0 \<le> n \<Longrightarrow> xo + n \<le> int (length y) \<Longrightarrow>
   byte_move y yo n xo =
     Inr (take (nat yo) y @ take (nat n) (drop (nat xo) y) @ drop (nat yo + nat n) y)"
  by (auto simp: byte_move_def intro!: byte_move_loop_eq)

lemma byte_zero_loop_eq:
  "yo + k \<le> length y \<Longrightarrow>
   byte_zero_loop y yo k = Inr (take yo y @ replicate k 0 @ drop (yo + k) y)"
proof (induction k arbitrary: y yo)
  case 0
  then show ?case by simp
next
  case (Suc k)
  have "take (Suc yo) (y[yo := 0]) = take yo y @ [0]"
    using Suc.prems by (simp add: take_Suc_conv_app_nth)
  then show ?case
    using Suc.prems Suc.IH [of "Suc yo" "y[yo := 0]"] by simp
qed

lemma byte_zero_eq:
  "0 \<le> yo \<Longrightarrow> 0 \<le> n \<Longrightarrow> yo + n \<le> int (length y) \<Longrightarrow>
   byte_zero y yo n = Inr (take (nat yo) y @ replicate (nat n) 0 @ drop (nat yo + nat n) y)"
  by (auto simp: byte_zero_def intro!: byte_zero_loop_eq)

lemma purge_byte_zero: "purge y yo n = byte_zero y yo n"
  by (simp add: purge_def byte_zero_def)

lemmas purge_eq = byte_zero_eq [folded purge_byte_zero]

lemma byte_copy_length: "byte_copy y yo n x xo = Inr y' \<Longrightarrow> length y' = length y"
proof -
  have "byte_copy_loop y i x j k = Inr y' \<Longrightarrow> length y' = length y" for y i j k
    by (induction k arbitrary: y i j) (fastforce split: if_splits)+
  then show "byte_copy y yo n x xo = Inr y' \<Longrightarrow> length y' = length y"
    by (auto simp: byte_copy_def split: if_splits)
qed

lemma byte_zero_length: "byte_zero y yo n = Inr y' \<Longrightarrow> length y' = length y"
proof -
  have "byte_zero_loop y i k = Inr y' \<Longrightarrow> length y' = length y" for y i k
    by (induction k arbitrary: y i) (fastforce split: if_splits)+
  then show "byte_zero y yo n = Inr y' \<Longrightarrow> length y' = length y"
    by (auto simp: byte_zero_def split: if_splits)
qed

text \<open>
  \<open>byte_isequal\<close> ORs the differences of the bytes into one byte and returns
  \<open>(256 - (unsigned int) diff) >> 8\<close>: 1 if they are equal, 0 otherwise.
\<close>

primrec byte_diff :: "u8 \<Rightarrow> (u8 \<times> u8) list \<Rightarrow> u8" where
  "byte_diff d [] = d"
| "byte_diff d (p # ps) = byte_diff (d OR (fst p XOR snd p)) ps"

definition byte_isequal :: "bytes \<Rightarrow> int \<Rightarrow> int \<Rightarrow> bytes \<Rightarrow> int \<Rightarrow> u32 res" where
  "byte_isequal y yo ylen x xo =
     bindr (rd y yo ylen) (\<lambda>ys.
     bindr (rd x xo ylen) (\<lambda>xs.
       Inr (drop_bit 8 (256 - ucast (byte_diff 0 (zip ys xs))))))"

lemma xor_zero_iff: "a XOR b = 0 \<longleftrightarrow> a = (b :: 'a::len word)"
  by (metis xor.assoc xor.left_neutral xor.right_neutral xor_self_eq)

lemma byte_diff_0: "byte_diff d ps = 0 \<longleftrightarrow> d = 0 \<and> (\<forall>p \<in> set ps. fst p = snd p)"
  by (induction ps arbitrary: d) (auto simp: or_eq_0_iff xor_zero_iff)

lemma zip_all_eq: "length xs = length ys \<Longrightarrow> (\<forall>p \<in> set (zip xs ys). fst p = snd p) \<longleftrightarrow> xs = ys"
  by (induction xs ys rule: list_induct2) auto

lemma isequal_flag: "drop_bit 8 (256 - ucast (d :: u8) :: u32) = (if d = 0 then 1 else 0)"
proof (cases "d = 0")
  case False
  have d: "unat d < 256" "0 < unat d"
    using unsigned_less [of d] False by (simp_all add: unat_gt_0)
  have "unat (256 - ucast d :: u32) = 256 - unat d"
    using d by (subst unat_sub) (simp_all add: word_le_nat_alt unat_ucast_up)
  then have "drop_bit 8 (256 - ucast d :: u32) = 0"
    using d by (intro unat_small_drop_bit) simp
  then show ?thesis using False by simp
qed simp

lemma byte_isequal_eq:
  "0 \<le> yo \<Longrightarrow> 0 \<le> xo \<Longrightarrow> 0 \<le> n \<Longrightarrow> yo + n \<le> int (length y) \<Longrightarrow> xo + n \<le> int (length x) \<Longrightarrow>
   byte_isequal y yo n x xo =
     Inr (if take (nat n) (drop (nat yo) y) = take (nat n) (drop (nat xo) x) then 1 else 0)"
  by (simp add: byte_isequal_def rd_in isequal_flag byte_diff_0
      zip_all_eq [of "take (nat n) (drop (nat yo) y)" "take (nat n) (drop (nat xo) x)"])

section \<open>verify.c\<close>

text \<open>
  \<open>unsigned int d = 0; for (...) d |= x[i] ^ y[i]; return (1 & ((d - 1) >> 8)) - 1;\<close>, the
  comparison whose running time does not depend on the bytes. The result is an \<open>int\<close>.
\<close>

primrec verify_diff :: "u32 \<Rightarrow> (u8 \<times> u8) list \<Rightarrow> u32" where
  "verify_diff d [] = d"
| "verify_diff d (p # ps) = verify_diff (d OR (ucast (fst p) XOR ucast (snd p))) ps"

definition verify :: "bytes \<Rightarrow> bytes \<Rightarrow> int \<Rightarrow> int res" where
  "verify x y n =
     bindr (rd x 0 n) (\<lambda>xs.
     bindr (rd y 0 n) (\<lambda>ys.
       let d = verify_diff 0 (zip xs ys)
       in Inr (uint (1 AND drop_bit 8 (d - 1) :: u32) - 1)))"

definition crypto_verify_16 :: "bytes \<Rightarrow> bytes \<Rightarrow> int res" where
  "crypto_verify_16 x y = verify x y 16"

definition crypto_verify_32 :: "bytes \<Rightarrow> bytes \<Rightarrow> int res" where
  "crypto_verify_32 x y = verify x y 32"

lemma verify_diff_ucast: "verify_diff (ucast d) ps = ucast (byte_diff d ps)"
proof (induction ps arbitrary: d)
  case (Cons p ps)
  have "ucast d OR (ucast (fst p) XOR ucast (snd p)) = (ucast (d OR (fst p XOR snd p)) :: u32)"
    by (rule bit_word_eqI) (auto simp: bit_simps)
  then show ?case using Cons.IH [of "d OR (fst p XOR snd p)"] by simp
qed simp

lemma verify_flag:
  "uint (1 AND drop_bit 8 (ucast (d :: u8) - 1) :: u32) - 1 = (if d = 0 then 0 else -1)"
proof (cases "d = 0")
  case False
  have d: "unat d < 256" "0 < unat d"
    using unsigned_less [of d] False by (simp_all add: unat_gt_0)
  have "unat (ucast d - 1 :: u32) = unat d - 1"
    using d by (subst unat_sub) (simp_all add: word_le_nat_alt unat_ucast_up)
  then have "drop_bit 8 (ucast d - 1 :: u32) = 0"
    using d by (intro unat_small_drop_bit) simp
  then show ?thesis using False by simp
next
  case True
  have "(1 :: u32) AND drop_bit 8 (- 1) = 1"
    by (rule bit_word_eqI) (auto simp: bit_simps)
  with True show ?thesis by simp
qed

lemma verify_eq:
  "0 \<le> n \<Longrightarrow> n \<le> int (length x) \<Longrightarrow> n \<le> int (length y) \<Longrightarrow>
   verify x y n = Inr (if take (nat n) x = take (nat n) y then 0 else -1)"
  using verify_diff_ucast [of 0 "zip (take (nat n) x) (take (nat n) y)"]
    verify_flag [of "byte_diff 0 (zip (take (nat n) x) (take (nat n) y))"]
    zip_all_eq [of "take (nat n) x" "take (nat n) y"]
  by (simp add: verify_def rd_in byte_diff_0)

section \<open>uint32_pack.c, uint32_pack_big.c, uint32_unpack.c, uint32_unpack_big.c\<close>

definition uint32_pack :: "u32 \<Rightarrow> bytes" where
  "uint32_pack x = pack_le 4 x"

definition uint32_pack_big :: "u32 \<Rightarrow> bytes" where
  "uint32_pack_big x = pack_be 4 x"

definition uint32_unpack :: "bytes \<Rightarrow> int \<Rightarrow> u32 res" where
  "uint32_unpack x xo = bindr (rd x xo 4) (\<lambda>bs. Inr (unpack_le bs))"

definition uint32_unpack_big :: "bytes \<Rightarrow> int \<Rightarrow> u32 res" where
  "uint32_unpack_big x xo = bindr (rd x xo 4) (\<lambda>bs. Inr (unpack_be bs))"

lemma length_uint32_pack [simp]: "length (uint32_pack x) = 4"
  by (simp add: uint32_pack_def)

lemma length_uint32_pack_big [simp]: "length (uint32_pack_big x) = 4"
  by (simp add: uint32_pack_big_def)

lemma unpack_uint32_pack [simp]: "unpack_le (uint32_pack x) = x"
  by (simp add: uint32_pack_def unpack_le_pack_le)

lemma unpack_uint32_pack_big [simp]: "unpack_be (uint32_pack_big x) = x"
  by (simp add: uint32_pack_big_def unpack_be_pack_be)

lemma uint32_pack_big_unpack: "length bs = 4 \<Longrightarrow> uint32_pack_big (unpack_be bs) = bs"
  using pack_be_unpack_be [of bs, where 'a = 32] by (simp add: uint32_pack_big_def)

lemma uint32_unpack_big_pack:
  "uint32_unpack_big (p @ uint32_pack_big x @ r) (int (length p)) = Inr x"
  by (simp add: uint32_unpack_big_def rd_in)

section \<open>str.c\<close>

text \<open>
  A string is the bytes from its start to the end of the array that holds it; running past the
  array is \<open>Oob\<close>.
\<close>

primrec str_len_from :: "int \<Rightarrow> bytes \<Rightarrow> int res" where
  "str_len_from i [] = Inl Oob"
| "str_len_from i (c # s) = (if c = 0 then Inr i else str_len_from (i + 1) s)"

definition str_len :: "bytes \<Rightarrow> int res" where
  "str_len s = str_len_from 0 s"

fun str_start :: "bytes \<Rightarrow> bytes \<Rightarrow> int res" where
  "str_start s [] = Inl Oob"
| "str_start s (x # t) =
     (if x = 0 then Inr 1
      else (case s of [] \<Rightarrow> Inl Oob
            | c # s' \<Rightarrow> if x \<noteq> c then Inr 0 else str_start s' t))"

primrec str_equal_loop :: "bytes \<Rightarrow> bytes \<Rightarrow> nat \<Rightarrow> nat \<Rightarrow> int res" where
  "str_equal_loop y x i 0 = Inr 1"
| "str_equal_loop y x i (Suc k) =
     (if i < length y \<and> i < length x
      then if y ! i \<noteq> x ! i then Inr 0 else str_equal_loop y x (Suc i) k
      else Inl Oob)"

definition str_equaln :: "bytes \<Rightarrow> int \<Rightarrow> bytes \<Rightarrow> int res" where
  "str_equaln y ylen x =
     bindr (str_len x) (\<lambda>n. if n \<noteq> ylen then Inr 0 else str_equal_loop y x 0 (nat ylen))"

text \<open>\<open>str_copyn\<close> returns its result and the new contents of \<open>y\<close>.\<close>

definition str_copyn :: "bytes \<Rightarrow> int \<Rightarrow> bytes \<Rightarrow> (int \<times> bytes) res" where
  "str_copyn y ylen x =
     bindr (str_len x) (\<lambda>n.
       if ylen \<le> 0 then Inr (0, y)
       else let (len, ret) = (if ylen - 1 < n then (ylen - 1, 0) else (n, 1)) in
            bindr (wr1 y len 0) (\<lambda>y.
            bindr (byte_copy y 0 len x 0) (\<lambda>y. Inr (ret, y))))"

lemma str_len_from_eq: "0 \<notin> set s \<Longrightarrow> str_len_from i (s @ 0 # r) = Inr (i + int (length s))"
  by (induction s arbitrary: i) auto

lemma str_len_eq: "0 \<notin> set s \<Longrightarrow> str_len (s @ 0 # r) = Inr (int (length s))"
  by (simp add: str_len_def str_len_from_eq)

lemma str_start_eq:
  "0 \<notin> set s \<Longrightarrow> 0 \<notin> set t \<Longrightarrow>
   str_start (s @ 0 # r) (t @ 0 # q) = Inr (if take (length t) s = t then 1 else 0)"
proof (induction t arbitrary: s)
  case (Cons c t)
  then show ?case by (cases s) auto
qed simp

lemma str_equal_loop_eq:
  "i + k \<le> length y \<Longrightarrow> i + k \<le> length x \<Longrightarrow>
   str_equal_loop y x i k = Inr (if take k (drop i y) = take k (drop i x) then 1 else 0)"
proof (induction k arbitrary: i)
  case (Suc k)
  have "take (Suc k) (drop i z) = z ! i # take k (drop (Suc i) z)" if "i < length z" for z :: bytes
    using that by (simp add: Cons_nth_drop_Suc [symmetric])
  then show ?case using Suc by simp
qed simp

lemma str_equaln_eq:
  assumes "0 \<notin> set s" and "0 \<le> n" and "n \<le> int (length y)"
  shows "str_equaln y n (s @ 0 # r) = Inr (if take (nat n) y = s then 1 else 0)"
proof (cases "int (length s) = n")
  case True
  with assms show ?thesis
    by (simp add: str_equaln_def str_len_eq str_equal_loop_eq)
next
  case False
  have "take (nat n) y \<noteq> s"
  proof
    assume "take (nat n) y = s"
    then have "length s = nat n" using assms by force
    with False assms show False by simp
  qed
  with False assms show ?thesis by (simp add: str_equaln_def str_len_eq)
qed

lemma str_copyn_eq:
  assumes "0 \<notin> set s" and "0 < n" and "n \<le> int (length y)"
  shows "\<exists>y'. str_copyn y n (s @ 0 # r) = Inr (if int (length s) < n then 1 else 0, y') \<and>
    length y' = length y \<and>
    (let m = min (nat n - 1) (length s) in
       take m y' = take m s \<and> y' ! m = 0 \<and> drop (Suc m) y' = drop (Suc m) y)"
proof -
  let ?m = "min (nat n - 1) (length s)"
  let ?y = "y[?m := 0]"
  have m: "?m < length y" using assms by auto
  have sel: "(if n - 1 < int (length s) then (n - 1, 0) else (int (length s), 1))
      = (int ?m, if int (length s) < n then 1 else (0 :: int))"
    using assms by auto
  have bc: "byte_copy ?y 0 (int ?m) (s @ 0 # r) 0 = Inr (take ?m s @ drop ?m ?y)"
    using m by (subst byte_copy_eq) auto
  have "str_copyn y n (s @ 0 # r) =
      Inr (if int (length s) < n then 1 else 0, take ?m s @ drop ?m ?y)"
    using assms m bc by (simp only: str_copyn_def str_len_eq [OF assms(1)] bindr_Inr sel) (simp add: wr1_in)
  moreover have "drop (Suc ?m) (take ?m s @ drop ?m ?y) = drop (Suc ?m) y"
    by (simp add: drop_eq_Nil)
  moreover have "(take ?m s @ drop ?m ?y) ! ?m = 0"
    using m by (simp add: nth_append)
  ultimately show ?thesis
    using m by (intro exI [of _ "take ?m s @ drop ?m ?y"]) (simp add: Let_def)
qed

end
