(* ===== verification/Buf.thy ===== *)
theory Buf
  imports Bytes
begin

text \<open>
  buf.c: the bounded output buffer every packet is built in. The record holds the array
  \<open>b->buf\<close> points to (the empty list is the null pointer), \<open>b->len\<close> and \<open>b->alloc\<close>. Each
  \<open>buf_put\<close> function returns the new buffer; the C functions return 1 whenever they return.
  The abstraction is \<open>bdata\<close>, the bytes put so far: every operation appends the bytes its
  encoding stands for, or ends the process with ENOMEM, and never touches memory outside
  \<open>alloc\<close>.
\<close>

record buf =
  bmem :: bytes
  blen :: int
  balloc :: int

definition buf_bad :: "buf \<Rightarrow> bool" where
  "buf_bad b \<longleftrightarrow> blen b < 0 \<or> blen b > 1073741824 \<or> balloc b \<le> 0 \<or> balloc b > 1073741824 \<or> bmem b = []"

definition buf_init :: "buf \<Rightarrow> bytes \<Rightarrow> int \<Rightarrow> buf res" where
  "buf_init b m alloc =
     (if m = [] \<or> alloc \<le> 0 \<or> alloc > 1073741824 then Inl Einval
      else let b = b\<lparr>bmem := m, blen := 0, balloc := alloc\<rparr> in
           bindr (purge (bmem b) 0 (balloc b)) (\<lambda>m. Inr (b\<lparr>bmem := m\<rparr>)))"

definition buf_purge :: "buf \<Rightarrow> buf res" where
  "buf_purge b =
     (if buf_bad b then Inl Einval
      else bindr (purge (bmem b) 0 (blen b)) (\<lambda>m. Inr (b\<lparr>bmem := m, blen := 0\<rparr>)))"

definition buf_ready :: "buf \<Rightarrow> int \<Rightarrow> bool res" where
  "buf_ready b len =
     (if buf_bad b \<or> len < 0 \<or> len > 1073741824 then Inl Einval
      else Inr (blen b + len < balloc b))"

definition buf_put :: "buf \<Rightarrow> bytes \<Rightarrow> int \<Rightarrow> buf res" where
  "buf_put b x len =
     (if buf_bad b \<or> len < 0 \<or> len > 1073741824 then Inl Einval
      else if blen b + len \<ge> balloc b then Inl Enomem
      else bindr (byte_copy (bmem b) (blen b) len x 0) (\<lambda>m.
             Inr (b\<lparr>bmem := m, blen := blen b + len\<rparr>)))"

definition buf_puts :: "buf \<Rightarrow> bytes \<Rightarrow> buf res" where
  "buf_puts b x = bindr (str_len x) (\<lambda>n. buf_put b x n)"

definition buf_putzerobytes :: "buf \<Rightarrow> int \<Rightarrow> buf res" where
  "buf_putzerobytes b len =
     (if buf_bad b \<or> len < 0 \<or> len > 1073741824 then Inl Einval
      else if blen b + len \<ge> balloc b then Inl Enomem
      else bindr (byte_zero (bmem b) (blen b) len) (\<lambda>m.
             Inr (b\<lparr>bmem := m, blen := blen b + len\<rparr>)))"

text \<open>The bytes \<open>randombytes\<close> writes are the argument \<open>rnd\<close>.\<close>

definition buf_putrandombytes :: "(int \<Rightarrow> bytes) \<Rightarrow> buf \<Rightarrow> int \<Rightarrow> buf res" where
  "buf_putrandombytes rnd b len =
     (if buf_bad b \<or> len < 0 \<or> len > 1073741824 then Inl Einval
      else if blen b + len \<ge> balloc b then Inl Enomem
      else bindr (wr (bmem b) (blen b) (rnd len)) (\<lambda>m.
             Inr (b\<lparr>bmem := m, blen := blen b + len\<rparr>)))"

definition buf_putpadding :: "buf \<Rightarrow> int \<Rightarrow> buf res" where
  "buf_putpadding b len =
     (if buf_bad b \<or> len < 0 \<or> len > 1073741824 then Inl Einval
      else if blen b + len \<ge> balloc b then Inl Enomem
      else bindr (purge (bmem b) (blen b) len) (\<lambda>m.
             Inr (b\<lparr>bmem := m, blen := blen b + len\<rparr>)))"

definition buf_putnum32 :: "buf \<Rightarrow> u32 \<Rightarrow> buf res" where
  "buf_putnum32 b x = buf_put b (uint32_pack_big x) 4"

definition buf_putnum8 :: "buf \<Rightarrow> u8 \<Rightarrow> buf res" where
  "buf_putnum8 b u = buf_put b [u] 1"

definition buf_putstringlen :: "buf \<Rightarrow> bytes \<Rightarrow> int \<Rightarrow> buf res" where
  "buf_putstringlen b x len = bindr (buf_putnum32 b (word_of_int len)) (\<lambda>b. buf_put b x len)"

definition buf_putstring :: "buf \<Rightarrow> bytes \<Rightarrow> buf res" where
  "buf_putstring b x = bindr (str_len x) (\<lambda>n. buf_putstringlen b x n)"

text \<open>\<open>for (pos = 0; pos < len; ++pos) if (x[pos]) break;\<close>\<close>

primrec first_nonzero :: "bytes \<Rightarrow> nat \<Rightarrow> nat \<Rightarrow> nat res" where
  "first_nonzero x pos 0 = Inr pos"
| "first_nonzero x pos (Suc k) =
     bindr (rd1 x (int pos)) (\<lambda>c. if c \<noteq> 0 then Inr pos else first_nonzero x (Suc pos) k)"

definition buf_putsharedsecret :: "buf \<Rightarrow> bytes \<Rightarrow> int \<Rightarrow> buf res" where
  "buf_putsharedsecret b x len =
     (if len < 0 \<or> len > 1073741824 then Inl Einval
      else
        bindr (first_nonzero x 0 (nat len)) (\<lambda>pos.
        bindr (rd1 x (int pos)) (\<lambda>c.
        bindr (if c AND 0x80 \<noteq> 0
               then bindr (buf_putnum32 b (word_of_int (len - int pos + 1))) (\<lambda>b. buf_putnum8 b 0)
               else buf_putnum32 b (word_of_int (len - int pos + 0))) (\<lambda>b.
        buf_put b (drop pos x) (len - int pos)))))"

section \<open>The abstraction\<close>

definition wf_buf :: "buf \<Rightarrow> bool" where
  "wf_buf b \<longleftrightarrow> 0 \<le> blen b \<and> blen b < balloc b \<and> balloc b \<le> 1073741824 \<and> balloc b \<le> int (length (bmem b))"

definition bdata :: "buf \<Rightarrow> bytes" where
  "bdata b = take (nat (blen b)) (bmem b)"

text \<open>\<open>bapp b xs\<close>: the buffer after \<open>xs\<close> has been written behind its contents.\<close>

definition bapp :: "buf \<Rightarrow> bytes \<Rightarrow> buf" where
  "bapp b xs = b\<lparr>bmem := take (nat (blen b)) (bmem b) @ xs @ drop (nat (blen b) + length xs) (bmem b),
                 blen := blen b + int (length xs)\<rparr>"

definition bput :: "buf \<Rightarrow> bytes \<Rightarrow> buf res" where
  "bput b xs = (if blen b + int (length xs) < balloc b then Inr (bapp b xs) else Inl Enomem)"

lemma wf_bufD:
  assumes "wf_buf b"
  shows "0 \<le> blen b" "blen b < balloc b" "balloc b \<le> 1073741824" "balloc b \<le> int (length (bmem b))"
    "bmem b \<noteq> []" "\<not> buf_bad b"
  using assms by (auto simp: wf_buf_def buf_bad_def)

lemma bdata_length: "wf_buf b \<Longrightarrow> int (length (bdata b)) = blen b"
  by (auto simp: bdata_def wf_buf_def)

lemma bapp_simps [simp]:
  "blen (bapp b xs) = blen b + int (length xs)"
  "balloc (bapp b xs) = balloc b"
  by (simp_all add: bapp_def)

lemma bapp_bmem_length:
  "wf_buf b \<Longrightarrow> blen b + int (length xs) < balloc b \<Longrightarrow> length (bmem (bapp b xs)) = length (bmem b)"
  by (auto simp: bapp_def wf_buf_def)

lemma wf_bapp: "wf_buf b \<Longrightarrow> blen b + int (length xs) < balloc b \<Longrightarrow> wf_buf (bapp b xs)"
  using bapp_bmem_length [of b xs] by (simp add: wf_buf_def)

lemma bdata_bapp: "wf_buf b \<Longrightarrow> blen b + int (length xs) < balloc b \<Longrightarrow> bdata (bapp b xs) = bdata b @ xs"
  by (auto simp: bdata_def bapp_def wf_buf_def nat_add_distrib)

lemma bapp_bapp:
  "wf_buf b \<Longrightarrow> blen b + int (length xs) < balloc b \<Longrightarrow> bapp (bapp b xs) ys = bapp b (xs @ ys)"
  by (auto simp: bapp_def wf_buf_def nat_add_distrib drop_append ac_simps)

lemma bapp_Nil [simp]: "bapp b [] = b"
  by (simp add: bapp_def)

lemma bput_bput: "wf_buf b \<Longrightarrow> bindr (bput b xs) (\<lambda>b. bput b ys) = bput b (xs @ ys)"
  by (auto simp: bput_def bapp_bapp add.assoc)

lemma wf_bput: "wf_buf b \<Longrightarrow> bput b xs = Inr b' \<Longrightarrow> wf_buf b'"
  by (auto simp: bput_def wf_bapp split: if_splits)

lemma bput_safe: "bput b xs \<noteq> Inl Oob"
  by (simp add: bput_def)

named_theorems buf_simps \<open>each buffer operation as one \<open>bput\<close>\<close>

lemma buf_put_eq [buf_simps]:
  assumes "wf_buf b" and "0 \<le> n" and "n \<le> int (length x)" and "n \<le> 1073741824"
  shows "buf_put b x n = bput b (take (nat n) x)"
proof -
  have "byte_copy (bmem b) (blen b) n x 0 =
      Inr (take (nat (blen b)) (bmem b) @ take (nat n) x @ drop (nat (blen b) + nat n) (bmem b))"
    if "blen b + n < balloc b"
    using that assms wf_bufD [OF assms(1)] by (subst byte_copy_eq) auto
  then show ?thesis
    using assms wf_bufD [OF assms(1)] by (auto simp: buf_put_def bput_def bapp_def)
qed

lemma buf_puts_eq [buf_simps]:
  "wf_buf b \<Longrightarrow> 0 \<notin> set s \<Longrightarrow> length s \<le> 1073741824 \<Longrightarrow> buf_puts b (s @ 0 # r) = bput b s"
  by (simp add: buf_puts_def str_len_eq buf_put_eq)

lemma buf_putzerobytes_eq [buf_simps]:
  assumes "wf_buf b" and "0 \<le> n" and "n \<le> 1073741824"
  shows "buf_putzerobytes b n = bput b (replicate (nat n) 0)"
  using assms wf_bufD [OF assms(1)]
  by (auto simp: buf_putzerobytes_def bput_def bapp_def byte_zero_eq)

lemma buf_putpadding_eq [buf_simps]:
  assumes "wf_buf b" and "0 \<le> n" and "n \<le> 1073741824"
  shows "buf_putpadding b n = bput b (replicate (nat n) 0)"
  using assms wf_bufD [OF assms(1)]
  by (auto simp: buf_putpadding_def bput_def bapp_def purge_eq)

lemma buf_putrandombytes_eq [buf_simps]:
  assumes "wf_buf b" and "0 \<le> n" and "n \<le> 1073741824" and "length (rnd n) = nat n"
  shows "buf_putrandombytes rnd b n = bput b (rnd n)"
  using assms wf_bufD [OF assms(1)]
  by (auto simp: buf_putrandombytes_def bput_def bapp_def wr_in)

lemma buf_putnum32_eq [buf_simps]: "wf_buf b \<Longrightarrow> buf_putnum32 b x = bput b (uint32_pack_big x)"
  by (simp add: buf_putnum32_def buf_put_eq)

lemma buf_putnum8_eq [buf_simps]: "wf_buf b \<Longrightarrow> buf_putnum8 b u = bput b [u]"
  by (simp add: buf_putnum8_def buf_put_eq)

text \<open>An SSH string (RFC 4251, section 5): its length in four bytes, then its bytes.\<close>

definition ssh_string :: "bytes \<Rightarrow> bytes" where
  "ssh_string s = uint32_pack_big (of_nat (length s)) @ s"

lemma bput_then:
  "wf_buf b \<Longrightarrow> (\<And>b'. wf_buf b' \<Longrightarrow> f b' = bput b' ys) \<Longrightarrow> bindr (bput b xs) f = bput b (xs @ ys)"
  using bput_bput [of b xs ys] wf_bput [of b xs]
  by (cases "bput b xs") (auto dest: sym)

lemma buf_putstringlen_eq [buf_simps]:
  assumes "wf_buf b" and "0 \<le> n" and "n \<le> int (length x)" and "n \<le> 1073741824"
  shows "buf_putstringlen b x n = bput b (ssh_string (take (nat n) x))"
proof -
  have "(word_of_int n :: u32) = of_nat (length (take (nat n) x))"
    using assms by (simp add: min_absorb2 nat_le_iff)
  then show ?thesis
    using assms
    by (simp add: buf_putstringlen_def buf_putnum32_eq ssh_string_def del: length_take)
       (rule bput_then, auto simp: buf_put_eq)
qed

lemma buf_putstring_eq [buf_simps]:
  "wf_buf b \<Longrightarrow> 0 \<notin> set s \<Longrightarrow> length s \<le> 1073741824 \<Longrightarrow>
   buf_putstring b (s @ 0 # r) = bput b (ssh_string s)"
  by (simp add: buf_putstring_def str_len_eq buf_putstringlen_eq)

section \<open>buf_putsharedsecret\<close>

text \<open>
  The contract of \<open>buf_putsharedsecret\<close> is the mpint of RFC 4251: no leading zero byte, and one
  zero byte in front if the top bit is set.
\<close>

definition strip_zeros :: "bytes \<Rightarrow> bytes" where
  "strip_zeros x = dropWhile (\<lambda>c. c = 0) x"

definition ssh_mpint :: "bytes \<Rightarrow> bytes" where
  "ssh_mpint x =
     (let y = strip_zeros x in
      ssh_string (if y \<noteq> [] \<and> hd y AND 0x80 \<noteq> 0 then 0 # y else y))"

lemma first_nonzero_eq:
  "pos + k \<le> length x \<Longrightarrow>
   first_nonzero x pos k = Inr (pos + length (takeWhile (\<lambda>c. c = 0) (take k (drop pos x))))"
proof (induction k arbitrary: pos)
  case (Suc k)
  have "take (Suc k) (drop pos x) = x ! pos # take k (drop (Suc pos) x)"
    using Suc.prems by (simp add: Cons_nth_drop_Suc [symmetric])
  then show ?case using Suc by (simp add: rd1_in)
qed simp

lemma buf_putsharedsecret_eq [buf_simps]:
  assumes "wf_buf b" and "length x \<le> 1073741824" and "\<exists>c \<in> set x. c \<noteq> 0"
  shows "buf_putsharedsecret b x (int (length x)) = bput b (ssh_mpint x)"
proof -
  define p where "p = length (takeWhile (\<lambda>c. c = 0) x)"
  define y where "y = strip_zeros x"
  have split: "takeWhile (\<lambda>c. c = 0) x @ y = x"
    by (simp add: y_def strip_zeros_def)
  have ne: "y \<noteq> []" using assms(3) by (simp add: y_def strip_zeros_def dropWhile_eq_Nil_conv)
  have y: "drop p x = y" "x ! p = hd y"
    using ne by (subst split [symmetric], simp add: p_def nth_append hd_conv_nth)+
  have "length x = p + length y"
    using arg_cong [OF split, of length] by (simp add: p_def)
  moreover have "0 < length y" using ne by simp
  ultimately have p: "length x = p + length y" "p < length x" by linarith+
  have fn: "first_nonzero x 0 (length x) = Inr p"
    by (simp add: first_nonzero_eq p_def)
  have len: "int (length x) - int p = int (length y)" using p by simp
  show ?thesis
  proof (cases "hd y AND 0x80 = 0")
    case True
    then have "ssh_mpint x = uint32_pack_big (of_nat (length y)) @ y"
      by (simp add: ssh_mpint_def Let_def y_def ssh_string_def)
    then show ?thesis
      using True assms y p fn len
      by (simp add: buf_putsharedsecret_def rd1_in buf_putnum32_eq)
         (rule bput_then, auto simp: buf_put_eq)
  next
    case False
    define n :: u32 where "n = of_nat (length y) + 1"
    have n: "word_of_int (int (length y) + 1) = n" by (simp add: n_def)
    have m: "ssh_mpint x = (uint32_pack_big n @ [0]) @ y"
      using False ne by (simp add: ssh_mpint_def Let_def y_def ssh_string_def n_def add.commute)
    have put0: "bindr (bput b (uint32_pack_big n)) (\<lambda>b. buf_putnum8 b 0) = bput b (uint32_pack_big n @ [0])"
      by (rule bput_then) (auto simp: assms buf_putnum8_eq)
    have "bindr (bput b (uint32_pack_big n @ [0])) (\<lambda>b. buf_put b y (int (length y))) = bput b (ssh_mpint x)"
      unfolding m using assms(2) p by (intro bput_then) (auto simp: assms buf_put_eq)
    then show ?thesis
      using False assms p(2) y
      by (simp add: buf_putsharedsecret_def rd1_in buf_putnum32_eq fn n put0 len del: of_int_add of_int_diff)
  qed
qed

text \<open>
  When every byte is zero the loop ends with \<open>pos = len\<close>, and \<open>x[pos]\<close> is the byte behind the
  array.
\<close>

lemma buf_putsharedsecret_zero:
  assumes "length x \<le> 1073741824" and "\<forall>c \<in> set x. c = 0"
  shows "buf_putsharedsecret b x (int (length x)) = Inl Oob"
proof -
  have "takeWhile (\<lambda>c. c = 0) x = x"
    using assms(2) by (simp add: takeWhile_eq_all_conv)
  from arg_cong [OF this, of length]
  have "first_nonzero x 0 (length x) = Inr (length x)"
    unfolding first_nonzero_eq [of 0 "length x" x, simplified] by (simp only: add_0)
  then show ?thesis
    using assms(1) by (simp add: buf_putsharedsecret_def rd1_def)
qed

section \<open>buf_putbase64\<close>

text \<open>
  \<open>v\<close> and \<open>bits\<close> of the source: the bits not yet written are the low \<open>bits\<close> bits of \<open>v\<close>. \<open>bits\<close>
  is unsigned and never exceeds 14, so it is a \<open>nat\<close>.
\<close>

definition b64chars :: bytes where
  "b64chars = lit ''ABCDEFGHIJKLMNOPQRSTUVWXYZabcdefghijklmnopqrstuvwxyz0123456789+/''"

function b64_while :: "buf \<Rightarrow> u64 \<Rightarrow> nat \<Rightarrow> (buf \<times> nat) res" where
  "b64_while b v bits =
     (if bits > 6
      then bindr (buf_putnum8 b (b64chars ! unat (drop_bit (bits - 6) v AND 63)))
             (\<lambda>b. b64_while b v (bits - 6))
      else Inr (b, bits))"
  by pat_completeness auto
termination by (relation "measure (\<lambda>(b, v, bits). bits)") auto

primrec b64_loop :: "buf \<Rightarrow> u64 \<Rightarrow> nat \<Rightarrow> bytes \<Rightarrow> (buf \<times> u64 \<times> nat) res" where
  "b64_loop b v bits [] = Inr (b, v, bits)"
| "b64_loop b v bits (c # x) =
     (let v = push_bit 8 v + ucast c; bits = bits + 8 in
      bindr (b64_while b v bits) (\<lambda>(b, bits). b64_loop b v bits x))"

lemma buf_put_blen: "buf_put b x n = Inr b' \<Longrightarrow> blen b' = blen b + n"
  by (auto simp: buf_put_def bindr_eq_Inr split: if_splits)

lemma and_3_mod: "(n :: int) AND 3 = n mod 4"
  using take_bit_eq_mask [of 2 n] by (simp add: take_bit_eq_mod mask_eq_exp_minus_1)

text \<open>\<open>while (b->len & 3) buf_putnum8(b, '=')\<close>\<close>

function b64_pad :: "buf \<Rightarrow> buf res" where
  "b64_pad b = (if blen b AND 3 \<noteq> 0 then bindr (buf_putnum8 b 61) b64_pad else Inr b)"
  by pat_completeness auto
termination
proof (relation "measure (\<lambda>b. nat ((4 - blen b mod 4) mod 4))")
  fix b b'
  assume "blen b AND 3 \<noteq> 0" and "buf_putnum8 b 61 = Inr b'"
  then have "blen b mod 4 \<noteq> 0" and "blen b' = blen b + 1"
    by (auto simp: and_3_mod buf_putnum8_def dest: buf_put_blen)
  then show "(b', b) \<in> measure (\<lambda>b. nat ((4 - blen b mod 4) mod 4))"
    by (simp, presburger)
qed simp

definition buf_putbase64 :: "buf \<Rightarrow> bytes \<Rightarrow> int \<Rightarrow> buf res" where
  "buf_putbase64 b x len =
     (if len < 0 \<or> len > 1073741824 then Inl Einval
      else
        bindr (rd x 0 len) (\<lambda>xs.
        bindr (b64_loop b 0 0 xs) (\<lambda>(b, v, bits).
        bindr (if bits \<noteq> 0
               then buf_putnum8 b (b64chars ! unat (push_bit (6 - bits) v AND 63))
               else Inr b)
          b64_pad)))"

declare b64_while.simps [simp del] b64_pad.simps [simp del]

text \<open>
  The contract of \<open>buf_putbase64\<close> is the encoding of RFC 4648: the bits of the input, most
  significant first, in groups of six, the last one filled up with zero bits, one character for
  each, then \<open>=\<close> up to a multiple of four characters.
\<close>

definition bits_of :: "u8 \<Rightarrow> bool list" where
  "bits_of c = map (bit c) [7, 6, 5, 4, 3, 2, 1, 0]"

definition of_bits :: "bool list \<Rightarrow> nat" where
  "of_bits bs = foldl (\<lambda>n b. 2 * n + of_bool b) 0 bs"

fun sixes :: "bool list \<Rightarrow> bytes" where
  "sixes (b5 # b4 # b3 # b2 # b1 # b0 # bs) = b64chars ! of_bits [b5, b4, b3, b2, b1, b0] # sixes bs"
| "sixes [] = []"
| "sixes bs = [b64chars ! of_bits (take 6 (bs @ replicate 6 False))]"

definition base64 :: "bytes \<Rightarrow> bytes" where
  "base64 x =
     (let s = sixes (concat (map bits_of x))
      in s @ replicate ((4 - length s mod 4) mod 4) 61)"

text \<open>The bits of \<open>v\<close> still to be written, most significant first.\<close>

definition pending :: "u64 \<Rightarrow> nat \<Rightarrow> bool list" where
  "pending v n = map (bit v) (rev [0..<n])"

lemma length_pending [simp]: "length (pending v n) = n"
  by (simp add: pending_def)

lemma pending_split: "pending v (n + k) = map (bit v) (rev [n..<n + k]) @ pending v n"
  by (simp add: pending_def upt_add_eq_append [of 0 n k, simplified])

lemma sixes_append: "length bs = 6 \<Longrightarrow> sixes (bs @ cs) = b64chars ! of_bits bs # sixes cs"
  by (auto simp: length_Suc_conv eval_nat_numeral)

lemma of_bits_6:
  "of_bits (map (bit (v :: u64)) (rev [n..<n + 6])) = unat (drop_bit n v AND 63)"
proof -
  have "drop_bit n v AND 63 = take_bit 6 (drop_bit n v)"
    using take_bit_eq_mask [of 6 "drop_bit n v"] by (simp add: mask_eq_exp_minus_1)
  moreover have "unat (take_bit 6 w) = of_bits (map (bit w) [5, 4, 3, 2, 1, 0])" for w :: u64
  proof -
    have "take_bit 6 (unat w) = (\<Sum>i = 0..<6. of_bool (bit (unat w) i) * 2 ^ i)"
      by (rule take_bit_sum [THEN trans]) (simp add: push_bit_eq_mult)
    then show ?thesis
      by (simp add: of_bits_def eval_nat_numeral unsigned_take_bit_eq bit_unsigned_iff)
  qed
  moreover have "rev [n..<n + 6] = map (\<lambda>i. n + i) [5, 4, 3, 2, 1, 0]"
    by (simp add: eval_nat_numeral upt_rec)
  ultimately show ?thesis
    by (simp add: bit_drop_bit_eq ac_simps)
qed

function b64_emit :: "u64 \<Rightarrow> nat \<Rightarrow> bytes \<times> nat" where
  "b64_emit v bits =
     (if bits > 6
      then let (cs, n) = b64_emit v (bits - 6)
           in (b64chars ! unat (drop_bit (bits - 6) v AND 63) # cs, n)
      else ([], bits))"
  by pat_completeness auto
termination by (relation "measure snd") auto

declare b64_emit.simps [simp del]

lemma b64_while_eq:
  "wf_buf b \<Longrightarrow>
   b64_while b v bits = bindr (bput b (fst (b64_emit v bits))) (\<lambda>b. Inr (b, snd (b64_emit v bits)))"
proof (induction b v bits rule: b64_while.induct)
  case (1 b v bits)
  show ?case
  proof (cases "bits > 6")
    case True
    let ?c = "b64chars ! unat (drop_bit (bits - 6) v AND 63)"
    obtain cs n where e: "b64_emit v (bits - 6) = (cs, n)" by fastforce
    have "bindr (bput b [?c]) (\<lambda>b. b64_while b v (bits - 6)) =
        bindr (bput b [?c]) (\<lambda>b. bindr (bput b cs) (\<lambda>b. Inr (b, n)))"
      using 1 True e wf_bput [OF "1.prems"]
      by (intro bindr_cong refl) (auto simp: buf_putnum8_eq)
    also have "\<dots> = bindr (bput b (?c # cs)) (\<lambda>b. Inr (b, n))"
      using bput_bput [OF "1.prems", of "[?c]" cs] by (simp add: bindr_assoc [symmetric])
    finally show ?thesis
      using True 1 e by (simp add: b64_while.simps [of b] b64_emit.simps [of v bits] buf_putnum8_eq)
  qed (simp add: b64_while.simps b64_emit.simps bput_def "1.prems" wf_bufD)
qed

lemma b64_emit_sixes:
  "sixes (pending v bits @ cs) =
     fst (b64_emit v bits) @ sixes (pending v (snd (b64_emit v bits)) @ cs)"
proof (induction v bits rule: b64_emit.induct)
  case (1 v bits)
  show ?case
  proof (cases "bits > 6")
    case True
    obtain os n where e: "b64_emit v (bits - 6) = (os, n)" by fastforce
    have "pending v bits = map (bit v) (rev [bits - 6..<(bits - 6) + 6]) @ pending v (bits - 6)"
      using pending_split [of v "bits - 6" 6] True by simp
    then have "sixes (pending v bits @ cs) =
        b64chars ! unat (drop_bit (bits - 6) v AND 63) # sixes (pending v (bits - 6) @ cs)"
      by (simp add: sixes_append of_bits_6)
    then show ?thesis using 1 True e by (simp add: b64_emit.simps [of v bits])
  qed (simp add: b64_emit.simps)
qed

lemma b64_emit_le: "snd (b64_emit v bits) \<le> 6"
  by (induction v bits rule: b64_emit.induct) (subst b64_emit.simps, auto split: prod.splits)

lemma pending_push:
  assumes "n \<le> 6"
  shows "pending (push_bit 8 v + ucast (c :: u8)) (n + 8) = pending v n @ bits_of c"
proof -
  have disj: "push_bit 8 v + ucast c = push_bit 8 v OR ucast c"
    by (rule disjunctive_add) (auto simp: bit_simps dest: bit_imp_le_length)
  have hi: "rev [8..<n + 8] = map (\<lambda>i. i + 8) (rev [0..<n])"
    by (simp add: rev_map [symmetric] map_add_upt)
  have "pending (push_bit 8 v OR ucast c) (8 + n) =
      map (bit (push_bit 8 v OR ucast c)) (rev [8..<n + 8]) @ pending (push_bit 8 v OR ucast c) 8"
    using pending_split [of "push_bit 8 v OR ucast c" 8 n] by (simp add: ac_simps)
  moreover have "map (bit (push_bit 8 v OR ucast c)) (rev [8..<n + 8]) = pending v n"
    using assms unfolding hi by (auto simp: pending_def bit_simps dest: bit_imp_le_length)
  moreover have "pending (push_bit 8 v OR ucast c) 8 = bits_of c"
  proof -
    have "rev [0..<8] = [7, 6, 5, 4, 3, 2, 1, 0 :: nat]" by (simp add: upt_rec)
    then show ?thesis by (simp add: pending_def bits_of_def bit_simps)
  qed
  ultimately show ?thesis by (simp only: disj add.commute [of 8 n])
qed

lemma b64_loop_eq:
  assumes "wf_buf b" and "bits \<le> 6"
  shows "\<exists>out v' bits'. bits' \<le> 6 \<and>
     b64_loop b v bits x = bindr (bput b out) (\<lambda>b. Inr (b, v', bits')) \<and>
     sixes (pending v bits @ concat (map bits_of x)) = out @ sixes (pending v' bits')"
  using assms
proof (induction x arbitrary: b v bits)
  case Nil
  then have "bput b [] = Inr b" by (simp add: bput_def wf_bufD)
  then show ?case
    using Nil by (intro exI [of _ "[]"] exI [of _ v] exI [of _ bits]) simp
next
  case (Cons c x)
  define w where "w = push_bit 8 v + ucast c"
  define os where "os = fst (b64_emit w (bits + 8))"
  define n where "n = snd (b64_emit w (bits + 8))"
  have n: "n \<le> 6" by (simp add: n_def b64_emit_le)
  have "sixes (pending v bits @ concat (map bits_of (c # x))) = os @ sixes (pending w n @ concat (map bits_of x))"
    using pending_push [OF Cons.prems(2), of v c] b64_emit_sixes [of w "bits + 8" "concat (map bits_of x)"]
    by (simp add: w_def os_def n_def)
  moreover have step: "b64_loop b v bits (c # x) = bindr (bput b os) (\<lambda>b. b64_loop b w n x)"
    using b64_while_eq [OF Cons.prems(1), of w "bits + 8"]
    by (simp add: w_def [symmetric] os_def [symmetric] n_def [symmetric] bindr_assoc)
  moreover have "\<exists>out v' bits'. bits' \<le> 6 \<and>
      bindr (bput b os) (\<lambda>b. b64_loop b w n x) = bindr (bput b (os @ out)) (\<lambda>b. Inr (b, v', bits')) \<and>
      sixes (pending w n @ concat (map bits_of x)) = out @ sixes (pending v' bits')"
  proof (cases "bput b os")
    case (Inl e)
    obtain b0 :: buf where "wf_buf b0"
      using Cons.prems(1) by blast
    from Cons.IH [OF this n, of w] obtain out v' bits' where "bits' \<le> 6"
      "sixes (pending w n @ concat (map bits_of x)) = out @ sixes (pending v' bits')" by blast
    moreover have "bput b (os @ out) = Inl e"
      using Inl bput_bput [OF Cons.prems(1), of os out] by simp
    ultimately show ?thesis
      using Inl by (intro exI [of _ out] exI [of _ v'] exI [of _ bits']) simp
  next
    case (Inr b1)
    from Cons.IH [OF wf_bput [OF Cons.prems(1) Inr] n, of w] obtain out v' bits' where
      "bits' \<le> 6" "b64_loop b1 w n x = bindr (bput b1 out) (\<lambda>b. Inr (b, v', bits'))"
      "sixes (pending w n @ concat (map bits_of x)) = out @ sixes (pending v' bits')" by blast
    moreover have "bput b1 out = bput b (os @ out)"
      using Inr bput_bput [OF Cons.prems(1), of os out] by simp
    ultimately show ?thesis
      using Inr by (intro exI [of _ out] exI [of _ v'] exI [of _ bits']) simp
  qed
  ultimately show ?case by (metis append.assoc)
qed

lemma sixes_last:
  assumes "n \<le> 6"
  shows "sixes (pending v n) = (if n = 0 then [] else [b64chars ! unat (push_bit (6 - n) v AND 63)])"
proof -
  have "pending (push_bit (6 - n) v) 6 = pending v n @ replicate (6 - n) False"
    using assms by (intro nth_equalityI) (auto simp: pending_def nth_append rev_nth bit_simps)
  moreover have "pending (push_bit (6 - n) v) 6 = map (bit (push_bit (6 - n) v)) (rev [0..<0 + 6])"
    by (simp add: pending_def)
  ultimately have k: "of_bits (pending v n @ replicate (6 - n) False) = unat (push_bit (6 - n) v AND 63)"
    using of_bits_6 [of "push_bit (6 - n) v" 0] by simp
  consider "n = 0" | "n = 1" | "n = 2" | "n = 3" | "n = 4" | "n = 5" | "n = 6"
    using assms by linarith
  then show ?thesis
    by cases (use k in \<open>simp_all add: pending_def eval_nat_numeral\<close>)
qed

lemma pad_count_Suc:
  assumes "(n :: int) mod 4 \<noteq> 0"
  shows "Suc (nat ((4 - (n + 1) mod 4) mod 4)) = nat ((4 - n mod 4) mod 4)"
proof -
  have "(n + 1) mod 4 = (n mod 4 + 1) mod 4" by (simp add: mod_simps)
  moreover have "n mod 4 = 1 \<or> n mod 4 = 2 \<or> n mod 4 = 3" using assms by presburger
  ultimately show ?thesis by auto
qed

lemma pad_count_add:
  assumes "(n :: int) mod 4 = 0"
  shows "nat ((4 - (n + int k) mod 4) mod 4) = (4 - k mod 4) mod 4"
proof -
  have "(n + int k) mod 4 = int (k mod 4)"
    using assms by (metis add_0 mod_add_left_eq of_nat_mod of_nat_numeral)
  moreover have "4 - int (k mod 4) = int (4 - k mod 4)" by (simp add: of_nat_diff)
  ultimately have "nat ((4 - (n + int k) mod 4) mod 4) = nat (int (4 - k mod 4) mod int 4)" by simp
  then show ?thesis by (simp only: of_nat_mod [symmetric] nat_int)
qed

lemma b64_pad_eq:
  "wf_buf b \<Longrightarrow> b64_pad b = bput b (replicate (nat ((4 - blen b mod 4) mod 4)) 61)"
proof (induction b rule: b64_pad.induct)
  case (1 b)
  show ?case
  proof (cases "blen b mod 4 = 0")
    case True
    then show ?thesis
      using 1 by (simp add: b64_pad.simps [of b] and_3_mod bput_def wf_bufD)
  next
    case False
    have "bindr (bput b [61]) b64_pad =
        bindr (bput b [61]) (\<lambda>b'. bput b' (replicate (nat ((4 - (blen b + 1) mod 4) mod 4)) 61))"
    proof (intro bindr_cong refl)
      fix b'
      assume b': "bput b [61] = Inr b'"
      then have "blen b' = blen b + 1" by (auto simp: bput_def split: if_splits)
      then show "b64_pad b' = bput b' (replicate (nat ((4 - (blen b + 1) mod 4) mod 4)) 61)"
        using 1 False b' wf_bput [OF "1.prems" b']
        by (simp add: and_3_mod buf_putnum8_eq)
    qed
    also have "\<dots> = bput b (61 # replicate (nat ((4 - (blen b + 1) mod 4) mod 4)) 61)"
      using bput_bput [OF "1.prems", of "[61]"] by simp
    also have "61 # replicate (nat ((4 - (blen b + 1) mod 4) mod 4)) 61 =
        replicate (Suc (nat ((4 - (blen b + 1) mod 4) mod 4))) (61 :: u8)"
      by simp
    also have "Suc (nat ((4 - (blen b + 1) mod 4) mod 4)) = nat ((4 - blen b mod 4) mod 4)"
      by (rule pad_count_Suc) (fact False)
    finally show ?thesis
      using False 1 by (simp add: b64_pad.simps [of b] and_3_mod buf_putnum8_eq)
  qed
qed

lemma buf_putbase64_eq [buf_simps]:
  assumes "wf_buf b" and "length x \<le> 1073741824" and "blen b mod 4 = 0"
  shows "buf_putbase64 b x (int (length x)) = bput b (base64 x)"
proof -
  define s where "s = sixes (concat (map bits_of x))"
  obtain out v bits where bits: "bits \<le> 6"
    and loop: "b64_loop b 0 0 x = bindr (bput b out) (\<lambda>b. Inr (b, v, bits))"
    and six: "s = out @ sixes (pending v bits)"
    using b64_loop_eq [OF assms(1), of 0 0 x] by (auto simp: s_def pending_def)
  define last where "last = sixes (pending v bits)"
  have fin: "(if bits \<noteq> 0 then buf_putnum8 b' (b64chars ! unat (push_bit (6 - bits) v AND 63)) else Inr b')
      = bput b' last" if "wf_buf b'" for b'
    using that sixes_last [OF bits, of v] by (auto simp: last_def buf_putnum8_eq bput_def wf_bufD)
  have "bindr (bput b s) b64_pad = bput b (s @ replicate ((4 - length s mod 4) mod 4) 61)"
  proof (cases "bput b s")
    case (Inr b')
    then have l: "blen b' = blen b + int (length s)" by (auto simp: bput_def split: if_splits)
    have "nat ((4 - blen b' mod 4) mod 4) = (4 - length s mod 4) mod 4"
      unfolding l by (rule pad_count_add) (fact assms(3))
    then show ?thesis
      using b64_pad_eq [OF wf_bput [OF assms(1) Inr]]
        bput_bput [OF assms(1), of s "replicate ((4 - length s mod 4) mod 4) 61"]
      by (simp only: Inr bindr_Inr)
  next
    case (Inl e)
    then show ?thesis using bput_bput [OF assms(1), of s] by simp
  qed
  moreover have "bindr (bput b out) (\<lambda>b. bput b last) = bput b s"
    using bput_bput [OF assms(1)] by (simp add: six last_def)
  moreover have "buf_putbase64 b x (int (length x)) =
      bindr (bindr (bput b out) (\<lambda>b. bput b last)) b64_pad"
  proof -
    have "rd x 0 (int (length x)) = Inr x" by (simp add: rd_def)
    then have "buf_putbase64 b x (int (length x)) = bindr (bput b out) (\<lambda>b.
        bindr (if bits \<noteq> 0 then buf_putnum8 b (b64chars ! unat (push_bit (6 - bits) v AND 63)) else Inr b) b64_pad)"
      using assms(2) by (simp add: buf_putbase64_def loop bindr_assoc)
    also have "\<dots> = bindr (bput b out) (\<lambda>b. bindr (bput b last) b64_pad)"
      by (intro bindr_cong refl) (simp only: fin [OF wf_bput [OF assms(1)]])
    finally show ?thesis by (simp only: bindr_assoc)
  qed
  ultimately show ?thesis by (simp add: base64_def s_def Let_def)
qed

section \<open>Sequences of calls\<close>

lemma buf_init_eq:
  assumes "m \<noteq> []" and "0 < a" and "a \<le> 1073741824" and "a \<le> int (length m)"
  shows "buf_init b m a = Inr (b\<lparr>bmem := replicate (nat a) 0 @ drop (nat a) m, blen := 0, balloc := a\<rparr>)"
  using assms by (simp add: buf_init_def purge_eq Let_def)

lemma buf_init_wf:
  "m \<noteq> [] \<Longrightarrow> 0 < a \<Longrightarrow> a \<le> 1073741824 \<Longrightarrow> a \<le> int (length m) \<Longrightarrow>
   \<exists>b'. buf_init b m a = Inr b' \<and> wf_buf b' \<and> bdata b' = [] \<and> balloc b' = a"
  by (simp add: buf_init_eq wf_buf_def bdata_def)

lemma buf_purge_eq:
  assumes "wf_buf b"
  shows "buf_purge b = Inr (b\<lparr>bmem := replicate (nat (blen b)) 0 @ drop (nat (blen b)) (bmem b), blen := 0\<rparr>)"
  using wf_bufD [OF assms] by (simp add: buf_purge_def purge_eq)

lemma buf_purge_wf:
  assumes "wf_buf b" and "buf_purge b = Inr b'"
  shows "wf_buf b' \<and> bdata b' = [] \<and> balloc b' = balloc b"
  using assms wf_bufD [OF assms(1)] by (auto simp: buf_purge_eq wf_buf_def bdata_def)

text \<open>A call of one of the appending functions, and the bytes it stands for.\<close>

datatype putop =
    OpPut bytes
  | OpPuts bytes
  | OpZero nat
  | OpPad nat
  | OpNum32 u32
  | OpNum8 u8
  | OpStringlen bytes
  | OpString bytes
  | OpSecret bytes

primrec putop_call :: "buf \<Rightarrow> putop \<Rightarrow> buf res" where
  "putop_call b (OpPut x) = buf_put b x (int (length x))"
| "putop_call b (OpPuts s) = buf_puts b (s @ [0])"
| "putop_call b (OpZero n) = buf_putzerobytes b (int n)"
| "putop_call b (OpPad n) = buf_putpadding b (int n)"
| "putop_call b (OpNum32 x) = buf_putnum32 b x"
| "putop_call b (OpNum8 x) = buf_putnum8 b x"
| "putop_call b (OpStringlen x) = buf_putstringlen b x (int (length x))"
| "putop_call b (OpString s) = buf_putstring b (s @ [0])"
| "putop_call b (OpSecret x) = buf_putsharedsecret b x (int (length x))"

primrec putop_bytes :: "putop \<Rightarrow> bytes" where
  "putop_bytes (OpPut x) = x"
| "putop_bytes (OpPuts s) = s"
| "putop_bytes (OpZero n) = replicate n 0"
| "putop_bytes (OpPad n) = replicate n 0"
| "putop_bytes (OpNum32 x) = uint32_pack_big x"
| "putop_bytes (OpNum8 x) = [x]"
| "putop_bytes (OpStringlen x) = ssh_string x"
| "putop_bytes (OpString s) = ssh_string s"
| "putop_bytes (OpSecret x) = ssh_mpint x"

text \<open>What the callers keep: lengths in range, strings without a zero byte, a secret that is not zero.\<close>

primrec putop_ok :: "putop \<Rightarrow> bool" where
  "putop_ok (OpPut x) = (length x \<le> 1073741824)"
| "putop_ok (OpPuts s) = (length s \<le> 1073741824 \<and> 0 \<notin> set s)"
| "putop_ok (OpZero n) = (n \<le> 1073741824)"
| "putop_ok (OpPad n) = (n \<le> 1073741824)"
| "putop_ok (OpNum32 x) = True"
| "putop_ok (OpNum8 x) = True"
| "putop_ok (OpStringlen x) = (length x \<le> 1073741824)"
| "putop_ok (OpString s) = (length s \<le> 1073741824 \<and> 0 \<notin> set s)"
| "putop_ok (OpSecret x) = (length x \<le> 1073741824 \<and> list_ex (\<lambda>c. c \<noteq> 0) x)"

primrec putops :: "buf \<Rightarrow> putop list \<Rightarrow> buf res" where
  "putops b [] = Inr b"
| "putops b (p # ps) = bindr (putop_call b p) (\<lambda>b. putops b ps)"

lemma putop_call_eq: "wf_buf b \<Longrightarrow> putop_ok p \<Longrightarrow> putop_call b p = bput b (putop_bytes p)"
  by (cases p) (simp_all add: buf_simps list_ex_iff)

lemma putops_eq:
  "wf_buf b \<Longrightarrow> list_all putop_ok ps \<Longrightarrow> putops b ps = bput b (concat (map putop_bytes ps))"
proof (induction ps arbitrary: b)
  case Nil
  then show ?case by (simp add: bput_def wf_bufD)
next
  case (Cons p ps)
  then show ?case
    by (simp add: putop_call_eq) (rule bput_then, auto)
qed

section \<open>Properties\<close>

lemma bapp_rest:
  "wf_buf b \<Longrightarrow> drop (nat (blen (bapp b xs))) (bmem (bapp b xs)) = drop (nat (blen b) + length xs) (bmem b)"
  by (auto simp: bapp_def wf_buf_def nat_add_distrib)

text \<open>
  C37. A buffer keeps its contract over any sequence of \<open>buf_put\<close> calls: either the bytes the calls
  stand for fit below \<open>alloc\<close>, and then they are behind the old contents, in order, nothing else of
  the memory changes and the buffer stays well formed; or the process ends with ENOMEM before
  anything is written outside. The C functions are the refinement of appending to a byte string.
\<close>

theorem putops_refine:
  assumes "wf_buf b" and "list_all putop_ok ps"
  shows "let data = concat (map putop_bytes ps) in
    if blen b + int (length data) < balloc b
    then \<exists>b'. putops b ps = Inr b' \<and> wf_buf b' \<and> bdata b' = bdata b @ data \<and>
           balloc b' = balloc b \<and> length (bmem b') = length (bmem b) \<and>
           drop (nat (blen b')) (bmem b') = drop (nat (blen b) + length data) (bmem b)
    else putops b ps = Inl Enomem"
  using putops_eq [OF assms] wf_bapp [OF assms(1)] bdata_bapp [OF assms(1)]
    bapp_bmem_length [OF assms(1)] bapp_rest [OF assms(1)]
  by (simp add: Let_def bput_def)

theorem putops_refine_witness:
  "let b = \<lparr>bmem = replicate 32 7, blen = 1, balloc = 32\<rparr>;
       ps = [OpNum8 20, OpString (lit ''ssh''), OpSecret [0, 0x80, 1], OpPad 2]
   in wf_buf b \<and> list_all putop_ok ps \<and>
      (\<exists>b'. putops b ps = Inr b' \<and>
        bdata b' = [7, 20, 0, 0, 0, 3, 115, 115, 104, 0, 0, 0, 3, 0, 0x80, 1, 0, 0])"
proof -
  let ?b = "\<lparr>bmem = replicate 32 7, blen = 1, balloc = 32\<rparr>"
  let ?ps = "[OpNum8 20, OpString (lit ''ssh''), OpSecret [0, 0x80, 1], OpPad 2]"
  have ok: "wf_buf ?b" "list_all putop_ok ?ps" by (simp_all add: wf_buf_def)
  have data: "concat (map putop_bytes ?ps) =
      [20, 0, 0, 0, 3, 115, 115, 104, 0, 0, 0, 3, 0, 0x80, 1, 0, 0]"
    by code_simp
  have "bdata ?b = [7]" by (simp add: bdata_def eval_nat_numeral)
  then show ?thesis
    using putops_refine [OF ok] ok unfolding data by (auto simp: Let_def)
qed

text \<open>
  C39. \<open>buf_putbase64\<close>, which packs bits with shifts of a 64-bit accumulator, appends the base64
  encoding of RFC 4648 of every input to a buffer whose length is a multiple of four, or ends the
  process with ENOMEM when the encoding does not fit.
\<close>

theorem buf_putbase64_rfc4648:
  assumes "wf_buf b" and "length x \<le> 1073741824" and "blen b mod 4 = 0"
  shows "if blen b + int (length (base64 x)) < balloc b
    then \<exists>b'. buf_putbase64 b x (int (length x)) = Inr b' \<and> wf_buf b' \<and> bdata b' = bdata b @ base64 x
    else buf_putbase64 b x (int (length x)) = Inl Enomem"
  using buf_putbase64_eq [OF assms] wf_bapp [OF assms(1)] bdata_bapp [OF assms(1)]
  by (simp add: bput_def)

theorem buf_putbase64_witness:
  "let b = \<lparr>bmem = replicate 16 0, blen = 0, balloc = 16\<rparr>
   in wf_buf b \<and> (\<exists>b'. buf_putbase64 b (lit ''fooba'') 5 = Inr b' \<and> bdata b' = lit ''Zm9vYmE='')"
proof -
  let ?b = "\<lparr>bmem = replicate 16 0, blen = 0, balloc = 16\<rparr>"
  have ok: "wf_buf ?b" by (simp add: wf_buf_def)
  have "base64 (lit ''fooba'') = lit ''Zm9vYmE=''" by code_simp
  then show ?thesis
    using buf_putbase64_rfc4648 [OF ok, of "lit ''fooba''"] ok by (auto simp: Let_def bdata_def)
qed

text \<open>
  C40. \<open>buf_putsharedsecret\<close> writes a secret that is not all zero as the mpint of RFC 4251 (leading
  zero bytes removed, a zero byte in front of a set top bit), for every length and value; for an
  all-zero secret its test of \<open>x[pos]\<close> reads the byte behind the array.
\<close>

theorem buf_putsharedsecret_mpint:
  assumes "wf_buf b" and "length x \<le> 1073741824"
    and "blen b + int (length x) + 5 < balloc b"
  shows "if \<exists>c \<in> set x. c \<noteq> 0
    then \<exists>b'. buf_putsharedsecret b x (int (length x)) = Inr b' \<and> wf_buf b' \<and> bdata b' = bdata b @ ssh_mpint x
    else buf_putsharedsecret b x (int (length x)) = Inl Oob"
proof (cases "\<exists>c \<in> set x. c \<noteq> 0")
  case True
  have "length (strip_zeros x) \<le> length x" by (simp add: strip_zeros_def length_dropWhile_le)
  then have "int (length (ssh_mpint x)) \<le> int (length x) + 5"
    by (simp add: ssh_mpint_def Let_def ssh_string_def)
  then have "blen b + int (length (ssh_mpint x)) < balloc b" using assms(3) by linarith
  with True show ?thesis
    using buf_putsharedsecret_eq [OF assms(1,2) True] wf_bapp [OF assms(1)] bdata_bapp [OF assms(1)]
    by (auto simp: bput_def)
next
  case False
  then show ?thesis using buf_putsharedsecret_zero [OF assms(2), of b] by auto
qed

theorem buf_putsharedsecret_witness:
  "let b = \<lparr>bmem = replicate 16 0, blen = 0, balloc = 16\<rparr>
   in (\<exists>b'. buf_putsharedsecret b [0, 0x90, 2] 3 = Inr b' \<and> bdata b' = [0, 0, 0, 3, 0, 0x90, 2]) \<and>
      buf_putsharedsecret b [0, 0] 2 = Inl Oob"
proof -
  let ?b = "\<lparr>bmem = replicate 16 0, blen = 0, balloc = 16\<rparr>"
  have ok: "wf_buf ?b" by (simp add: wf_buf_def)
  have "ssh_mpint [0, 0x90, 2] = [0, 0, 0, 3, 0, 0x90, 2]" by code_simp
  then show ?thesis
    using buf_putsharedsecret_mpint [OF ok, of "[0, 0x90, 2]"]
      buf_putsharedsecret_mpint [OF ok, of "[0, 0]"]
    by (auto simp: Let_def bdata_def)
qed

end
