(* ===== verification/Parser.thy ===== *)
theory Parser
  imports Buf
begin

text \<open>
  packetparser.c and stringparser.c: the bounds-checked readers of a received packet. Each
  function takes the array, its length and a position and returns the position behind what it
  read, with the values C returns through pointers.
\<close>

section \<open>packetparser.c\<close>

definition parser_bad :: "bytes \<Rightarrow> int \<Rightarrow> int \<Rightarrow> bool" where
  "parser_bad m len pos \<longleftrightarrow> m = [] \<or> len < 0 \<or> len > 1073741824 \<or> pos < 0 \<or> pos > 1073741824"

definition packetparser_uint8 :: "bytes \<Rightarrow> int \<Rightarrow> int \<Rightarrow> (int \<times> u8) res" where
  "packetparser_uint8 m len pos =
     (if parser_bad m len pos then Inl Einval
      else if pos + 1 > len then Inl Eproto
      else bindr (rd1 m pos) (\<lambda>x. Inr (pos + 1, x)))"

definition packetparser_uint32 :: "bytes \<Rightarrow> int \<Rightarrow> int \<Rightarrow> (int \<times> u32) res" where
  "packetparser_uint32 m len pos =
     (if parser_bad m len pos then Inl Einval
      else if pos + 4 > len then Inl Eproto
      else bindr (uint32_unpack_big m pos) (\<lambda>x. Inr (pos + 4, x)))"

definition packetparser_copy :: "bytes \<Rightarrow> int \<Rightarrow> int \<Rightarrow> bytes \<Rightarrow> int \<Rightarrow> (int \<times> bytes) res" where
  "packetparser_copy m len pos out outlen =
     (if parser_bad m len pos \<or> outlen < 0 \<or> outlen > 1073741824 then Inl Einval
      else if pos + outlen > len then Inl Eproto
      else bindr (byte_copy out 0 outlen m pos) (\<lambda>out. Inr (pos + outlen, out)))"

definition packetparser_skip :: "bytes \<Rightarrow> int \<Rightarrow> int \<Rightarrow> int \<Rightarrow> int res" where
  "packetparser_skip m len pos skip =
     (if parser_bad m len pos \<or> skip < 0 \<or> skip > 1073741824 then Inl Einval
      else if pos + skip > len then Inl Eproto
      else Inr (pos + skip))"

definition packetparser_end :: "bytes \<Rightarrow> int \<Rightarrow> int \<Rightarrow> int res" where
  "packetparser_end m len pos =
     (if parser_bad m len pos then Inl Einval
      else if pos \<noteq> len then Inl Eproto
      else Inr pos)"

section \<open>stringparser.c\<close>

text \<open>\<open>for (i = pos; i < len; ++i) if (buf[i] == ',') break;\<close>\<close>

primrec comma_loop :: "bytes \<Rightarrow> int \<Rightarrow> nat \<Rightarrow> int res" where
  "comma_loop m i 0 = Inr i"
| "comma_loop m i (Suc k) =
     bindr (rd1 m i) (\<lambda>c. if c = 44 then Inr i else comma_loop m (i + 1) k)"

lemma comma_loop_ge: "comma_loop m i k = Inr j \<Longrightarrow> i \<le> j"
  by (induction k arbitrary: i) (force simp: bindr_eq_Inr split: if_splits)+

text \<open>
  The result is the return value of the C function with \<open>*x\<close> (as an offset into \<open>buf\<close>) and
  \<open>*xlen\<close>; 0 means the list is at its end.
\<close>

function stringparser_loop :: "bytes \<Rightarrow> int \<Rightarrow> int \<Rightarrow> int \<Rightarrow> int \<Rightarrow> (int \<times> int \<times> int) res" where
  "stringparser_loop m len pos x xlen =
     (if pos \<ge> len then Inr (0, x, xlen)
      else bindr (comma_loop m pos (nat (len - pos))) (\<lambda>i.
             if i - pos \<noteq> 0 then Inr (i + 1, pos, i - pos)
             else stringparser_loop m len (i + 1) pos (i - pos)))"
  by pat_completeness auto
termination
  by (relation "measure (\<lambda>(m, len, pos, x, xlen). nat (len - pos))") (auto dest: comma_loop_ge)

definition stringparser :: "bytes \<Rightarrow> int \<Rightarrow> int \<Rightarrow> int \<Rightarrow> int \<Rightarrow> (int \<times> int \<times> int) res" where
  "stringparser m len pos x xlen =
     (if parser_bad m len pos then Inl Einval else stringparser_loop m len pos x xlen)"

declare stringparser_loop.simps [simp del]

section \<open>Memory safety\<close>

text \<open>
  The only way to leave the array is a length argument larger than the array.
\<close>

lemma packetparser_uint8_eq:
  "len \<le> int (length m) \<Longrightarrow>
   packetparser_uint8 m len pos =
     (if parser_bad m len pos then Inl Einval else if pos + 1 > len then Inl Eproto
      else Inr (pos + 1, m ! nat pos))"
  by (auto simp: packetparser_uint8_def parser_bad_def rd1_in)

lemma packetparser_uint32_eq:
  "len \<le> int (length m) \<Longrightarrow>
   packetparser_uint32 m len pos =
     (if parser_bad m len pos then Inl Einval else if pos + 4 > len then Inl Eproto
      else Inr (pos + 4, unpack_be (take 4 (drop (nat pos) m))))"
  by (auto simp: packetparser_uint32_def parser_bad_def uint32_unpack_big_def rd_in)

lemma packetparser_copy_eq:
  "len \<le> int (length m) \<Longrightarrow> outlen \<le> int (length out) \<Longrightarrow>
   packetparser_copy m len pos out outlen =
     (if parser_bad m len pos \<or> outlen < 0 \<or> outlen > 1073741824 then Inl Einval
      else if pos + outlen > len then Inl Eproto
      else Inr (pos + outlen, take (nat outlen) (drop (nat pos) m) @ drop (nat outlen) out))"
  by (auto simp: packetparser_copy_def parser_bad_def byte_copy_eq)

lemma comma_loop_eq:
  "0 \<le> i \<Longrightarrow> i + int k \<le> int (length m) \<Longrightarrow>
   comma_loop m i k = Inr (i + int (length (takeWhile (\<lambda>c. c \<noteq> 44) (take k (drop (nat i) m)))))"
proof (induction k arbitrary: i)
  case (Suc k)
  have "take (Suc k) (drop (nat i) m) = m ! nat i # take k (drop (nat (i + 1)) m)"
    using Suc.prems by (simp add: nat_add_distrib Cons_nth_drop_Suc [symmetric])
  then show ?case using Suc by (simp add: rd1_in)
qed simp

section \<open>Reading what was written\<close>

text \<open>
  The fields an SSH packet is made of. \<open>put_field\<close> is the call that writes one, \<open>parse_field\<close> the
  calls that read one of that shape: a string is read as its length and then as that many bytes,
  as the packet handlers do it.
\<close>

datatype field = FU8 u8 | FU32 u32 | FStr bytes
datatype shape = SU8 | SU32 | SStr

primrec shape_of :: "field \<Rightarrow> shape" where
  "shape_of (FU8 x) = SU8"
| "shape_of (FU32 x) = SU32"
| "shape_of (FStr s) = SStr"

primrec put_field :: "buf \<Rightarrow> field \<Rightarrow> buf res" where
  "put_field b (FU8 x) = buf_putnum8 b x"
| "put_field b (FU32 x) = buf_putnum32 b x"
| "put_field b (FStr s) = buf_putstringlen b s (int (length s))"

primrec parse_field :: "bytes \<Rightarrow> int \<Rightarrow> int \<Rightarrow> shape \<Rightarrow> (int \<times> field) res" where
  "parse_field m len pos SU8 = bindr (packetparser_uint8 m len pos) (\<lambda>(pos, x). Inr (pos, FU8 x))"
| "parse_field m len pos SU32 = bindr (packetparser_uint32 m len pos) (\<lambda>(pos, x). Inr (pos, FU32 x))"
| "parse_field m len pos SStr =
     bindr (packetparser_uint32 m len pos) (\<lambda>(pos, n).
     bindr (packetparser_skip m len pos (uint n)) (\<lambda>pos'.
     bindr (rd m pos (uint n)) (\<lambda>s. Inr (pos', FStr s))))"

primrec put_fields :: "buf \<Rightarrow> field list \<Rightarrow> buf res" where
  "put_fields b [] = Inr b"
| "put_fields b (f # fs) = bindr (put_field b f) (\<lambda>b. put_fields b fs)"

primrec parse_fields :: "bytes \<Rightarrow> int \<Rightarrow> int \<Rightarrow> shape list \<Rightarrow> (int \<times> field list) res" where
  "parse_fields m len pos [] = Inr (pos, [])"
| "parse_fields m len pos (s # ss) =
     bindr (parse_field m len pos s) (\<lambda>(pos, f).
     bindr (parse_fields m len pos ss) (\<lambda>(pos, fs). Inr (pos, f # fs)))"

primrec field_op :: "field \<Rightarrow> putop" where
  "field_op (FU8 x) = OpNum8 x"
| "field_op (FU32 x) = OpNum32 x"
| "field_op (FStr s) = OpStringlen s"

definition field_bytes :: "field \<Rightarrow> bytes" where
  "field_bytes f = putop_bytes (field_op f)"

definition field_ok :: "field \<Rightarrow> bool" where
  "field_ok f = putop_ok (field_op f)"

lemma put_fields_eq:
  "wf_buf b \<Longrightarrow> list_all field_ok fs \<Longrightarrow> put_fields b fs = bput b (concat (map field_bytes fs))"
proof -
  have call: "put_field b f = putop_call b (field_op f)" for b f by (cases f) simp_all
  have "put_fields b fs = putops b (map field_op fs)" for b
    by (induction fs arbitrary: b) (simp_all add: call)
  then show "wf_buf b \<Longrightarrow> list_all field_ok fs \<Longrightarrow> ?thesis"
    using putops_eq [of b "map field_op fs"]
    by (simp add: field_bytes_def [abs_def] field_ok_def [abs_def] list.pred_map comp_def)
qed

lemma uint32_pack_big_ne [simp]: "uint32_pack_big x \<noteq> []"
  using length_uint32_pack_big [of x] by (metis list.size(3) zero_neq_numeral)

text \<open>\<open>pos\<close> splits the array: \<open>p\<close> has been read, \<open>q\<close> has not, \<open>r\<close> lies behind \<open>len\<close>.\<close>

lemma parse_field_eq:
  assumes "field_ok f" and "length p + length (field_bytes f) + length q \<le> 1073741824"
  shows "parse_field (p @ field_bytes f @ q @ r)
     (int (length p + length (field_bytes f) + length q)) (int (length p)) (shape_of f) =
     Inr (int (length p + length (field_bytes f)), f)"
proof (cases f)
  case (FU8 x)
  then show ?thesis
    using assms by (simp add: packetparser_uint8_eq parser_bad_def field_bytes_def nth_append)
next
  case (FU32 x)
  then show ?thesis
    using assms by (simp add: packetparser_uint32_eq parser_bad_def field_bytes_def)
next
  case (FStr s)
  have n: "uint (of_nat (length s) :: u32) = int (length s)"
    using assms FStr by (simp add: field_ok_def take_bit_int_eq_self unsigned_of_nat take_bit_nat_eq_self)
  show ?thesis
    using assms FStr
    by (simp add: packetparser_uint32_eq packetparser_skip_def parser_bad_def field_bytes_def
        ssh_string_def n rd_def add.assoc nat_add_distrib)
qed

lemma parse_fields_eq:
  assumes "list_all field_ok fs" and "length p + length (concat (map field_bytes fs)) \<le> 1073741824"
  shows "parse_fields (p @ concat (map field_bytes fs) @ r)
     (int (length p + length (concat (map field_bytes fs)))) (int (length p)) (map shape_of fs) =
     Inr (int (length p + length (concat (map field_bytes fs))), fs)"
  using assms
proof (induction fs arbitrary: p)
  case (Cons f fs)
  let ?q = "concat (map field_bytes fs)"
  have "parse_field (p @ field_bytes f @ ?q @ r)
      (int (length p + length (field_bytes f) + length ?q)) (int (length p)) (shape_of f) =
      Inr (int (length p + length (field_bytes f)), f)"
    using Cons.prems by (intro parse_field_eq) auto
  moreover have "parse_fields ((p @ field_bytes f) @ ?q @ r)
      (int (length (p @ field_bytes f) + length ?q)) (int (length (p @ field_bytes f))) (map shape_of fs) =
      Inr (int (length (p @ field_bytes f) + length ?q), fs)"
    using Cons.prems by (intro Cons.IH) auto
  ultimately show ?case by (simp add: add.assoc del: length_concat)
qed simp

lemma parse_field_safe: "len \<le> int (length m) \<Longrightarrow> parse_field m len pos s \<noteq> Inl Oob"
  by (cases s)
    (auto simp: packetparser_uint8_eq packetparser_uint32_eq packetparser_skip_def parser_bad_def rd_def
      split: if_splits)

lemma parse_fields_safe: "len \<le> int (length m) \<Longrightarrow> parse_fields m len pos ss \<noteq> Inl Oob"
  by (induction ss arbitrary: pos) (auto simp: bindr_eq_Inl parse_field_safe)

section \<open>The items of a comma-separated list\<close>

text \<open>
  The contract of \<open>stringparser\<close>: called again and again from the position it returned, it yields
  the non-empty items between the commas, in order.
\<close>

primrec split_commas :: "bytes \<Rightarrow> bytes list" where
  "split_commas [] = [[]]"
| "split_commas (c # s) =
     (if c = 44 then [] # split_commas s
      else (c # hd (split_commas s)) # tl (split_commas s))"

definition list_items :: "bytes \<Rightarrow> bytes list" where
  "list_items s = filter (\<lambda>x. x \<noteq> []) (split_commas s)"

lemma split_commas_ne [simp]: "split_commas s \<noteq> []"
  by (cases s) auto

lemma split_commas_item:
  "44 \<notin> set x \<Longrightarrow> split_commas (x @ 44 # s) = x # split_commas s"
  by (induction x) auto

lemma split_commas_last: "44 \<notin> set x \<Longrightarrow> split_commas x = [x]"
  by (induction x) auto

lemma list_items_span:
  "s \<noteq> [] \<Longrightarrow> list_items s =
     (let x = takeWhile (\<lambda>c. c \<noteq> 44) s; r = list_items (drop (Suc (length x)) s)
      in if x = [] then r else x # r)"
proof -
  let ?x = "takeWhile (\<lambda>c. c \<noteq> 44) s"
  have x: "44 \<notin> set ?x" by (auto dest: set_takeWhileD)
  show ?thesis
  proof (cases "dropWhile (\<lambda>c. c \<noteq> 44) s")
    case Nil
    then have "?x = s" by (metis append_Nil2 takeWhile_dropWhile_id)
    moreover have "list_items s = (if s = [] then [] else [s])"
      using split_commas_last [of s] x \<open>?x = s\<close> by (simp add: list_items_def)
    moreover have "list_items [] = []" by (simp add: list_items_def)
    ultimately show ?thesis unfolding \<open>?x = s\<close> Let_def by simp
  next
    case (Cons c r)
    then have "c = 44" using hd_dropWhile [of "\<lambda>c. c \<noteq> 44" s] by simp
    then have s: "s = ?x @ 44 # r" using Cons by (metis takeWhile_dropWhile_id)
    have "drop (Suc (length ?x)) s = r" by (subst (2) s) simp
    moreover have "list_items s = (if ?x = [] then list_items r else ?x # list_items r)"
      by (subst s) (simp add: list_items_def split_commas_item [OF x])
    ultimately show ?thesis by (simp only: Let_def)
  qed
qed

text \<open>
  \<open>for (;;) { pos = stringparser(buf, len, pos, &x, &xlen); if (!pos) break; ... }\<close>, the loop of
  every caller, collecting the items.
\<close>

lemma stringparser_loop_gt:
  "stringparser_loop m len pos x xlen = Inr (p, y, ylen) \<Longrightarrow> p \<noteq> 0 \<Longrightarrow> pos < p \<and> pos < len"
proof (induction m len pos x xlen rule: stringparser_loop.induct)
  case (1 m len pos x xlen)
  show ?case
  proof (cases "pos \<ge> len")
    case True
    with 1 show ?thesis by (simp add: stringparser_loop.simps [of m len pos])
  next
    case False
    with "1.prems" obtain i where i: "comma_loop m pos (nat (len - pos)) = Inr i"
      by (cases "comma_loop m pos (nat (len - pos))") (simp_all add: stringparser_loop.simps [of m len pos])
    from comma_loop_ge [OF i] i 1 False show ?thesis
      by (fastforce simp: stringparser_loop.simps [of m len pos] split: if_splits)
  qed
qed

function parse_items :: "bytes \<Rightarrow> int \<Rightarrow> int \<Rightarrow> bytes list res" where
  "parse_items m len pos =
     bindr (stringparser m len pos 0 0) (\<lambda>(pos', x, xlen).
       if pos' = 0 then Inr []
       else bindr (rd m x xlen) (\<lambda>item.
            bindr (parse_items m len pos') (\<lambda>items. Inr (item # items))))"
  by pat_completeness auto
termination
  by (relation "measure (\<lambda>(m, len, pos). nat (len - pos))")
    (auto simp: stringparser_def split: if_splits dest!: stringparser_loop_gt)

declare parse_items.simps [simp del]

lemma stringparser_loop_items:
  assumes "0 \<le> pos" and "len \<le> int (length m)"
  shows "case stringparser_loop m len pos x0 l0 of
      Inl e \<Rightarrow> False
    | Inr (p, x, l) \<Rightarrow>
        if p = 0 then list_items (take (nat (len - pos)) (drop (nat pos) m)) = []
        else 0 < p \<and> p \<le> len + 1 \<and> 0 \<le> x \<and> 0 < l \<and> x + l \<le> len \<and>
          list_items (take (nat (len - pos)) (drop (nat pos) m)) =
            take (nat l) (drop (nat x) m) # list_items (take (nat (len - p)) (drop (nat p) m))"
  using assms
proof (induction m len pos x0 l0 rule: stringparser_loop.induct)
  case (1 m len pos x0 l0)
  show ?case
  proof (cases "pos \<ge> len")
    case True
    then show ?thesis by (simp add: stringparser_loop.simps [of m len pos] list_items_def)
  next
    case False
    let ?s = "take (nat (len - pos)) (drop (nat pos) m)"
    let ?x = "takeWhile (\<lambda>c. c \<noteq> 44) ?s"
    have i: "comma_loop m pos (nat (len - pos)) = Inr (pos + int (length ?x))"
      using 1 False by (subst comma_loop_eq) auto
    have le: "int (length ?x) \<le> len - pos"
      using False "1.prems" length_takeWhile_le [of "\<lambda>c. c \<noteq> 44" ?s] by auto
    have xeq: "take (length ?x) (drop (nat pos) m) = ?x"
    proof -
      have "min (length ?x) (nat (len - pos)) = length ?x" using le by linarith
      then show ?thesis using takeWhile_eq_take [of "\<lambda>c. c \<noteq> 44" ?s] by (simp only: take_take)
    qed
    have ne: "?s \<noteq> []" using False "1.prems" by auto
    have rest: "drop (Suc (length ?x)) ?s =
        take (nat (len - (pos + int (length ?x) + 1))) (drop (nat (pos + int (length ?x) + 1)) m)"
      using "1.prems" le by (simp add: drop_take nat_add_distrib nat_diff_distrib' algebra_simps)
    show ?thesis
    proof (cases "?x = []")
      case True
      then have "list_items ?s = list_items (take (nat (len - (pos + 1))) (drop (nat (pos + 1)) m))"
        using list_items_span [OF ne] rest by (simp add: Let_def)
      then show ?thesis
        using 1 False True i by (simp add: stringparser_loop.simps [of m len pos] split: sum.splits prod.splits)
    next
      case xne: False
      then have "list_items ?s = ?x # list_items (take (nat (len - (pos + int (length ?x) + 1)))
          (drop (nat (pos + int (length ?x) + 1)) m))"
        using list_items_span [OF ne] rest by (simp add: Let_def)
      then show ?thesis
        using 1 False xne i le xeq by (simp add: stringparser_loop.simps [of m len pos])
    qed
  qed
qed

lemma parse_items_eq:
  assumes "m \<noteq> []" and "0 \<le> len" and "len \<le> int (length m)" and "len \<le> 1073741823"
    and "0 \<le> pos" and "pos \<le> 1073741824"
  shows "parse_items m len pos = Inr (list_items (take (nat (len - pos)) (drop (nat pos) m)))"
  using assms
proof (induction m len pos rule: parse_items.induct)
  case (1 m len pos)
  have ok: "\<not> parser_bad m len pos" using "1.prems" by (simp add: parser_bad_def)
  then have sp: "stringparser m len pos 0 0 = stringparser_loop m len pos 0 0"
    by (simp add: stringparser_def)
  obtain p x l where spl: "stringparser_loop m len pos 0 0 = Inr (p, x, l)"
    using stringparser_loop_items [of pos len m 0 0] "1.prems"
    by (cases "stringparser_loop m len pos 0 0") auto
  show ?case
    using stringparser_loop_items [of pos len m 0 0] 1 sp spl
    by (subst parse_items.simps) (auto simp: rd_in split: if_splits)
qed

section \<open>Properties\<close>

text \<open>
  C38. What the \<open>buf_put\<close> functions write, the \<open>packetparser\<close> functions read back: any sequence of
  bytes, 32-bit numbers and SSH strings put into a buffer is parsed from the position where it
  was put into the same values, and the parser then stands exactly at the end of the packet.
\<close>

theorem fields_roundtrip:
  assumes "wf_buf b" and "list_all field_ok fs" and "put_fields b fs = Inr b'"
  shows "parse_fields (bmem b') (blen b') (blen b) (map shape_of fs) = Inr (blen b', fs) \<and>
    packetparser_end (bmem b') (blen b') (blen b') = Inr (blen b')"
proof -
  let ?d = "concat (map field_bytes fs)"
  have b': "b' = bapp b ?d" "blen b + int (length ?d) < balloc b"
    using assms put_fields_eq [OF assms(1,2)] by (auto simp: bput_def split: if_splits)
  note wf = wf_bufD [OF assms(1)]
  note wf' = wf_bufD [OF wf_bput [OF assms(1), of ?d b']]
  have l: "length (take (nat (blen b)) (bmem b)) = nat (blen b)" using wf by simp
  have "int (nat (blen b) + length ?d) \<le> 1073741824" using b'(2) wf by linarith
  then have "nat (blen b) + length ?d \<le> 1073741824" by linarith
  then have "parse_fields (bmem b') (blen b') (blen b) (map shape_of fs) = Inr (blen b', fs)"
    using parse_fields_eq [OF assms(2), of "take (nat (blen b)) (bmem b)" "drop (nat (blen b) + length ?d) (bmem b)"] wf
    unfolding l by (simp add: b'(1) bapp_def del: length_concat)
  moreover have "packetparser_end (bmem b') (blen b') (blen b') = Inr (blen b')"
    using wf' b' by (simp add: packetparser_end_def parser_bad_def bput_def)
  ultimately show ?thesis by blast
qed

theorem fields_roundtrip_witness:
  "let b = \<lparr>bmem = replicate 32 0, blen = 0, balloc = 32\<rparr>;
       fs = [FU8 98, FU32 0x01020304, FStr (lit ''exec''), FU8 1]
   in wf_buf b \<and> list_all field_ok fs \<and>
      (\<exists>b'. put_fields b fs = Inr b' \<and> blen b' = 14 \<and>
         parse_fields (bmem b') 14 0 [SU8, SU32, SStr, SU8] = Inr (14, fs))"
proof -
  let ?b = "\<lparr>bmem = replicate 32 0, blen = 0, balloc = 32\<rparr>"
  let ?fs = "[FU8 98, FU32 0x01020304, FStr (lit ''exec''), FU8 1]"
  have ok: "wf_buf ?b" "list_all field_ok ?fs" by (simp_all add: wf_buf_def field_ok_def)
  define b' where "b' = bapp ?b (concat (map field_bytes ?fs))"
  have put: "put_fields ?b ?fs = Inr b'"
    using put_fields_eq [OF ok] by (simp add: bput_def field_bytes_def ssh_string_def b'_def)
  have bl: "blen b' = 14" by (simp add: field_bytes_def ssh_string_def b'_def)
  have "parse_fields (bmem b') 14 0 [SU8, SU32, SStr, SU8] = Inr (14, ?fs)"
    using fields_roundtrip [OF ok put] by (simp add: bl)
  with ok put bl show ?thesis unfolding Let_def by blast
qed

text \<open>
  No packet makes the parser read outside the array: whatever the bytes, the position and the
  sequence of fields asked for, every lookup that would leave the packet ends the process with
  EPROTO or EINVAL before the read.
\<close>

theorem parse_fields_in_bounds:
  assumes "len \<le> int (length m)"
  shows "parse_fields m len pos ss \<noteq> Inl Oob"
  using assms by (rule parse_fields_safe)

theorem parse_fields_in_bounds_witness:
  "parse_fields [0, 0, 0, 200, 1, 2] 6 0 [SStr, SU8] \<noteq> Inl Oob"
  using parse_fields_in_bounds [of 6 "[0, 0, 0, 200, 1, 2]" 0 "[SStr, SU8]"] by simp

text \<open>
  \<open>stringparser\<close>, called in a loop from the position it returns, yields exactly the non-empty
  items of the comma-separated list, in order, and then returns 0; empty items are skipped and
  nothing outside the list is read.
\<close>

theorem stringparser_items:
  assumes "m \<noteq> []" and "length m \<le> 1073741823"
  shows "parse_items m (int (length m)) 0 = Inr (filter (\<lambda>x. x \<noteq> []) (split_commas m))"
  using parse_items_eq [of m "int (length m)" 0] assms by (simp add: list_items_def)

theorem stringparser_items_witness:
  "parse_items (lit '',none,,zlib,'') 12 0 = Inr [lit ''none'', lit ''zlib'']"
proof -
  have "filter (\<lambda>x. x \<noteq> []) (split_commas (lit '',none,,zlib,'')) = [lit ''none'', lit ''zlib'']"
    by code_simp
  then show ?thesis using stringparser_items [of "lit '',none,,zlib,''"] by simp
qed

end
