(* ===== verification/Block_Hash.thy ===== *)
theory Block_Hash
  imports Prelude
begin

text \<open>
  The interface the two SHA-2 files share: \<open>blocks\<close> folds a compression function over the whole
  blocks of its argument, and the hash calls it once on the message and once on the padded rest.
  The locale states what \<open>blocks\<close> promises; proved inside it is that the two calls amount to one
  run over the padded message.
\<close>

text \<open>The whole blocks of \<open>bs\<close> bytes in \<open>m\<close>, in order.\<close>

function chunks :: "nat \<Rightarrow> bytes \<Rightarrow> bytes list" where
  "chunks bs m = (if 0 < bs \<and> bs \<le> length m then take bs m # chunks bs (drop bs m) else [])"
  by pat_completeness auto
termination by (relation "measure (\<lambda>(bs, m). length m)") auto

declare chunks.simps [simp del]

lemma chunks_short: "length m < bs \<Longrightarrow> chunks bs m = []"
  by (simp add: chunks.simps)

lemma chunks_append:
  assumes "0 < bs" and "bs dvd length p"
  shows "chunks bs (p @ q) = chunks bs p @ chunks bs q"
  using assms(2)
proof (induction "length p" arbitrary: p rule: less_induct)
  case less
  show ?case
  proof (cases "p = []")
    case True
    then show ?thesis using assms by (simp add: chunks.simps [of bs "[]"])
  next
    case False
    then have le: "bs \<le> length p" using less.prems by (simp add: dvd_imp_le)
    then have "chunks bs (drop bs p @ q) = chunks bs (drop bs p) @ chunks bs q"
      using less.prems assms(1) False by (intro less.hyps) (auto simp: dvd_diff_nat)
    then show ?thesis
      using le assms(1) by (simp add: chunks.simps [of bs "p @ q"] chunks.simps [of bs p])
  qed
qed

lemma chunk_length: "c \<in> set (chunks bs m) \<Longrightarrow> length c = bs"
proof (induction bs m rule: chunks.induct)
  case (1 bs m)
  then show ?case
    by (cases "0 < bs \<and> bs \<le> length m") (auto simp: chunks.simps [of bs m])
qed

locale block_hash =
  fixes bs :: nat
    and compress :: "'s \<Rightarrow> bytes \<Rightarrow> 's"
    and blocks :: "'s \<Rightarrow> bytes \<Rightarrow> nat \<Rightarrow> 's"
  assumes bs_pos: "0 < bs"
    and blocks_step: "bs \<le> n \<Longrightarrow> n \<le> length m \<Longrightarrow> blocks z m n = blocks (compress z (take bs m)) (drop bs m) (n - bs)"
    and blocks_done: "n < bs \<Longrightarrow> blocks z m n = z"
begin

lemma blocks_fold: "n \<le> length m \<Longrightarrow> blocks z m n = foldl compress z (chunks bs (take n m))"
proof (induction n arbitrary: z m rule: less_induct)
  case (less n)
  show ?case
  proof (cases "bs \<le> n")
    case True
    then have "blocks z m n = foldl compress (compress z (take bs m)) (chunks bs (take (n - bs) (drop bs m)))"
      using less bs_pos by (simp add: blocks_step)
    moreover have "chunks bs (take n m) = take bs m # chunks bs (take (n - bs) (drop bs m))"
      using True less.prems bs_pos by (simp add: chunks.simps [of bs "take n m"] min_def drop_take)
    ultimately show ?thesis by simp
  next
    case False
    then show ?thesis using less.prems by (simp add: blocks_done chunks_short)
  qed
qed

text \<open>A run over the message and one over the block-aligned rest.\<close>

lemma blocks_two:
  assumes "r = length m mod bs" and x: "take n x = drop (length m - r) m @ p" and n: "n \<le> length x"
  shows "blocks (blocks z m (length m)) x n = foldl compress z (chunks bs (m @ p))"
proof -
  let ?k = "length m - r"
  have "?k = bs * (length m div bs)" using assms(1) by (simp add: minus_mod_eq_mult_div)
  then have k: "bs dvd length (take ?k m)" by simp
  have x': "chunks bs (take n x) = chunks bs (drop ?k m @ p)" by (simp add: x)
  have "length (drop ?k m) < bs" using assms(1) bs_pos by simp
  then have "chunks bs m = chunks bs (take ?k m)"
    using chunks_append [OF bs_pos k, of "drop ?k m"] chunks_short [of "drop ?k m" bs] by simp
  moreover have "chunks bs (m @ p) = chunks bs (take ?k m) @ chunks bs (drop ?k m @ p)"
    using chunks_append [OF bs_pos k, of "drop ?k m @ p"] by (simp flip: append_assoc)
  ultimately show ?thesis
    using n by (simp add: blocks_fold foldl_append x')
qed

end

end
