(* ===== verification/Sha256.thy ===== *)
theory Sha256
  imports Block_Hash
begin

text \<open>
  crypto_hash_sha256.c, and the SHA-256 of FIPS 180-4 it is proved to compute.
\<close>

section \<open>The code\<close>

definition R256 :: "u32 \<Rightarrow> nat \<Rightarrow> u32" where
  "R256 x c = drop_bit c x OR push_bit (32 - c) (x AND 0xffffffff)"

definition Ch256 :: "u32 \<Rightarrow> u32 \<Rightarrow> u32 \<Rightarrow> u32" where
  "Ch256 x y z = (x AND y) XOR (NOT x AND z)"

definition Maj256 :: "u32 \<Rightarrow> u32 \<Rightarrow> u32 \<Rightarrow> u32" where
  "Maj256 x y z = (x AND y) XOR (x AND z) XOR (y AND z)"

definition Sigma0_256 :: "u32 \<Rightarrow> u32" where
  "Sigma0_256 x = R256 x 2 XOR R256 x 13 XOR R256 x 22"

definition Sigma1_256 :: "u32 \<Rightarrow> u32" where
  "Sigma1_256 x = R256 x 6 XOR R256 x 11 XOR R256 x 25"

definition sigma0_256 :: "u32 \<Rightarrow> u32" where
  "sigma0_256 x = R256 x 7 XOR R256 x 18 XOR drop_bit 3 x"

definition sigma1_256 :: "u32 \<Rightarrow> u32" where
  "sigma1_256 x = R256 x 17 XOR R256 x 19 XOR drop_bit 10 x"

definition K256 :: "u32 list" where
  "K256 = concat [
    [0x428a2f98, 0x71374491, 0xb5c0fbcf, 0xe9b5dba5],
    [0x3956c25b, 0x59f111f1, 0x923f82a4, 0xab1c5ed5],
    [0xd807aa98, 0x12835b01, 0x243185be, 0x550c7dc3],
    [0x72be5d74, 0x80deb1fe, 0x9bdc06a7, 0xc19bf174],
    [0xe49b69c1, 0xefbe4786, 0x0fc19dc6, 0x240ca1cc],
    [0x2de92c6f, 0x4a7484aa, 0x5cb0a9dc, 0x76f988da],
    [0x983e5152, 0xa831c66d, 0xb00327c8, 0xbf597fc7],
    [0xc6e00bf3, 0xd5a79147, 0x06ca6351, 0x14292967],
    [0x27b70a85, 0x2e1b2138, 0x4d2c6dfc, 0x53380d13],
    [0x650a7354, 0x766a0abb, 0x81c2c92e, 0x92722c85],
    [0xa2bfe8a1, 0xa81a664b, 0xc24b8b70, 0xc76c51a3],
    [0xd192e819, 0xd6990624, 0xf40e3585, 0x106aa070],
    [0x19a4c116, 0x1e376c08, 0x2748774c, 0x34b0bcb5],
    [0x391c0cb3, 0x4ed8aa4a, 0x5b9cca4f, 0x682e6ff3],
    [0x748f82ee, 0x78a5636f, 0x84c87814, 0x8cc70208],
    [0x90befffa, 0xa4506ceb, 0xbef9a3f7, 0xc67178f2]]"

text \<open>\<open>w\<close> is filled from the front: the list holds the entries written so far.\<close>

definition load32_bigendian :: "bytes \<Rightarrow> nat \<Rightarrow> u32" where
  "load32_bigendian x i = foldl (\<lambda>y j. push_bit 8 y OR ucast (x ! (i + j))) 0 [0..<4]"

definition schedule256 :: "bytes \<Rightarrow> u32 list" where
  "schedule256 m =
     foldl (\<lambda>w i. w @ [(sigma1_256 (w ! (i - 2)) + w ! (i - 7) + sigma0_256 (w ! (i - 15)) + w ! (i - 16)) AND 0xffffffff])
       (map (\<lambda>i. load32_bigendian m (4 * i)) [0..<16]) [16..<64]"

definition round256 :: "u32 list \<Rightarrow> u32 list \<Rightarrow> nat \<Rightarrow> u32 list" where
  "round256 w a i =
     (let b = a;
          t = a ! 7 + Sigma1_256 (a ! 4) + Ch256 (a ! 4) (a ! 5) (a ! 6) + K256 ! i + w ! i;
          b = b[7 := t + Sigma0_256 (a ! 0) + Maj256 (a ! 0) (a ! 1) (a ! 2)];
          b = b[3 := b ! 3 + t]
      in foldl (\<lambda>a j. a[(j + 1) mod 8 := b ! j AND 0xffffffff]) a [0..<8])"

function blocks256_loop :: "u32 list \<Rightarrow> u32 list \<Rightarrow> bytes \<Rightarrow> nat \<Rightarrow> u32 list" where
  "blocks256_loop a z m n =
     (if n \<ge> 64
      then let w = schedule256 m;
               a = foldl (round256 w) a [0..<64];
               a = map (\<lambda>i. (a ! i + z ! i) AND 0xffffffff) [0..<8]
           in blocks256_loop a a (drop 64 m) (n - 64)
      else z)"
  by pat_completeness auto
termination by (relation "measure (\<lambda>(a, z, m, n). n)") auto

declare blocks256_loop.simps [simp del]

definition blocks256 :: "u32 list \<Rightarrow> bytes \<Rightarrow> nat \<Rightarrow> u32 list" where
  "blocks256 z m n = blocks256_loop (map (\<lambda>i. z ! i) [0..<8]) z m n"

definition IV256 :: "u32 list" where
  "IV256 = [0x6a09e667, 0xbb67ae85, 0x3c6ef372, 0xa54ff53a, 0x510e527f, 0x9b05688c, 0x1f83d9ab, 0x5be0cd19]"

text \<open>The padded last one or two blocks: \<open>x\<close> and \<open>n\<close> of the code after the length is stored.\<close>

definition store64_bigendian :: "u64 \<Rightarrow> bytes" where
  "store64_bigendian x = pack_be 8 x"

definition store32_bigendian :: "u32 \<Rightarrow> bytes" where
  "store32_bigendian x = pack_be 4 x"

definition pad256 :: "bytes \<Rightarrow> nat \<Rightarrow> bytes \<times> nat" where
  "pad256 m len =
     (let n = len mod 64;
          m = drop (len - n) m;
          x = map (\<lambda>i. if i < n then m ! i else 0) [0..<128];
          x = x[n := 128];
          n = 128 - 64 * of_bool (n < 56);
          x = take (n - 8) x @ store64_bigendian (push_bit 3 (word_of_nat len)) @ drop n x
      in (x, n))"

definition crypto_hash_sha256 :: "bytes \<Rightarrow> nat \<Rightarrow> bytes" where
  "crypto_hash_sha256 m n =
     (let h = blocks256 IV256 m n;
          (x, k) = pad256 m n;
          h = blocks256 h x k
      in concat (map (\<lambda>i. store32_bigendian (h ! i)) [0..<8]))"

section \<open>FIPS 180-4\<close>

definition rotr32 :: "nat \<Rightarrow> u32 \<Rightarrow> u32" where
  "rotr32 n x = word_rotr n x"

fun fips_w256 :: "bytes \<Rightarrow> nat \<Rightarrow> u32" where
  "fips_w256 m t =
     (if t < 16 then unpack_be (take 4 (drop (4 * t) m))
      else (rotr32 17 (fips_w256 m (t - 2)) XOR rotr32 19 (fips_w256 m (t - 2)) XOR drop_bit 10 (fips_w256 m (t - 2))) +
           fips_w256 m (t - 7) +
           (rotr32 7 (fips_w256 m (t - 15)) XOR rotr32 18 (fips_w256 m (t - 15)) XOR drop_bit 3 (fips_w256 m (t - 15))) +
           fips_w256 m (t - 16))"

declare fips_w256.simps [simp del]

type_synonym vars256 = "u32 \<times> u32 \<times> u32 \<times> u32 \<times> u32 \<times> u32 \<times> u32 \<times> u32"

definition fips_round256 :: "bytes \<Rightarrow> vars256 \<Rightarrow> nat \<Rightarrow> vars256" where
  "fips_round256 m v t =
     (case v of (a, b, c, d, e, f, g, h) \<Rightarrow>
        let T1 = h + (rotr32 6 e XOR rotr32 11 e XOR rotr32 25 e) + ((e AND f) XOR (NOT e AND g)) + K256 ! t + fips_w256 m t;
            T2 = (rotr32 2 a XOR rotr32 13 a XOR rotr32 22 a) + ((a AND b) XOR (a AND c) XOR (b AND c))
        in (T1 + T2, a, b, c, d + T1, e, f, g))"

definition fips_compress256 :: "vars256 \<Rightarrow> bytes \<Rightarrow> vars256" where
  "fips_compress256 v m =
     (case v of (a, b, c, d, e, f, g, h) \<Rightarrow>
      case foldl (fips_round256 m) v [0..<64] of (a', b', c', d', e', f', g', h') \<Rightarrow>
        (a + a', b + b', c + c', d + d', e + e', f + f', g + g', h + h'))"

definition fips_pad256 :: "bytes \<Rightarrow> bytes" where
  "fips_pad256 m =
     m @ [0x80] @ replicate ((119 - length m mod 64) mod 64) 0 @ pack_be 8 (word_of_nat (8 * length m) :: u64)"

definition fips_sha256 :: "bytes \<Rightarrow> bytes" where
  "fips_sha256 m =
     (case foldl fips_compress256
        (0x6a09e667, 0xbb67ae85, 0x3c6ef372, 0xa54ff53a, 0x510e527f, 0x9b05688c, 0x1f83d9ab, 0x5be0cd19)
        (chunks 64 (fips_pad256 m)) of (a, b, c, d, e, f, g, h) \<Rightarrow>
      concat (map (pack_be 4) [a, b, c, d, e, f, g, h]))"

section \<open>The code computes it\<close>

lemma and_ones [simp]: "(x :: u32) AND 0xffffffff = x"
proof -
  have m: "(0xffffffff :: u32) = - 1" by simp
  show ?thesis unfolding m by simp
qed

lemma ones_and [simp]: "0xffffffff AND (x :: u32) = x"
  by (metis and.commute and_ones)

lemma R256_rotr:
  assumes "0 < c" and "c < 32"
  shows "R256 x c = rotr32 c x"
  unfolding R256_def rotr32_def and_ones
proof (rule bit_word_eqI)
  fix i
  assume "i < LENGTH(32)"
  then have i: "i < 32" by simp
  show "bit (drop_bit c x OR push_bit (32 - c) x) i = bit (word_rotr c x) i"
  proof (cases "i + c < 32")
    case True
    then show ?thesis using assms i by (auto simp: bit_simps ac_simps dest: bit_imp_le_length)
  next
    case False
    then have "(i + c) mod 32 = i - (32 - c)" using assms i by (simp add: mod_if)
    moreover have "\<not> bit x (c + i)" using False bit_imp_le_length [of x "c + i"] by auto
    ultimately show ?thesis using assms i False by (auto simp: bit_simps ac_simps)
  qed
qed

lemma Sigma_rotr:
  "Sigma0_256 x = rotr32 2 x XOR rotr32 13 x XOR rotr32 22 x"
  "Sigma1_256 x = rotr32 6 x XOR rotr32 11 x XOR rotr32 25 x"
  "sigma0_256 x = rotr32 7 x XOR rotr32 18 x XOR drop_bit 3 x"
  "sigma1_256 x = rotr32 17 x XOR rotr32 19 x XOR drop_bit 10 x"
  by (simp_all add: Sigma0_256_def Sigma1_256_def sigma0_256_def sigma1_256_def R256_rotr)

lemma load32_bigendian_unpack:
  "i + 4 \<le> length x \<Longrightarrow> load32_bigendian x i = unpack_be (take 4 (drop i x))"
proof -
  assume "i + 4 \<le> length x"
  then have "take 4 (drop i x) = map (\<lambda>j. x ! (i + j)) [0..<4]"
    by (intro nth_equalityI) simp_all
  moreover have "foldl (\<lambda>y j. push_bit 8 y OR ucast (f j)) y js = unpack_be_from (y :: u32) (map f js)"
    for f :: "nat \<Rightarrow> u8" and y js
    by (induction js arbitrary: y) simp_all
  ultimately show ?thesis by (simp add: load32_bigendian_def unpack_be_def del: upt_Suc)
qed

lemma schedule256_fips:
  assumes "64 \<le> length m"
  shows "schedule256 m = map (fips_w256 m) [0..<64]"
proof -
  have "foldl (\<lambda>w i. w @ [(sigma1_256 (w ! (i - 2)) + w ! (i - 7) + sigma0_256 (w ! (i - 15)) + w ! (i - 16)) AND 0xffffffff])
      (map (\<lambda>i. load32_bigendian m (4 * i)) [0..<16]) [16..<16 + k] = map (fips_w256 m) [0..<16 + k]" for k
  proof (induction k)
    case 0
    show ?case
      using assms by (intro nth_equalityI) (auto simp: load32_bigendian_unpack fips_w256.simps)
  next
    case (Suc k)
    have u: "[16..<16 + Suc k] = [16..<16 + k] @ [16 + k]" "[0..<16 + Suc k] = [0..<16 + k] @ [16 + k]"
      by (simp_all only: add_Suc_right upt.simps(2) le_add1 le0 if_True)
    have "map (fips_w256 m) [0..<16 + k] ! (16 + k - j) = fips_w256 m (16 + k - j)" if "0 < j" for j
      using that by simp
    then have nth: "map (fips_w256 m) [0..<16 + k] ! (16 + k - 2) = fips_w256 m (16 + k - 2)"
      "map (fips_w256 m) [0..<16 + k] ! (16 + k - 7) = fips_w256 m (16 + k - 7)"
      "map (fips_w256 m) [0..<16 + k] ! (16 + k - 15) = fips_w256 m (16 + k - 15)"
      "map (fips_w256 m) [0..<16 + k] ! (16 + k - 16) = fips_w256 m (16 + k - 16)"
      by (blast intro: zero_less_numeral)+
    have lt: "\<not> 16 + k < 16" by simp
    show ?case
      unfolding u foldl_append Suc
      unfolding foldl.simps map_append list.map nth and_ones Sigma_rotr
        fips_w256.simps [of m "16 + k"] if_not_P [OF lt] ..
  qed
  note step = this
  have e: "(64 :: nat) = 16 + 48" by simp
  show ?thesis unfolding schedule256_def e by (rule step)
qed

definition vars_list :: "vars256 \<Rightarrow> u32 list" where
  "vars_list v = (case v of (a, b, c, d, e, f, g, h) \<Rightarrow> [a, b, c, d, e, f, g, h])"

lemma length_vars_list [simp]: "length (vars_list v) = 8"
  by (simp add: vars_list_def split: prod.split)

lemma round256_fips:
  "w ! i = fips_w256 m i \<Longrightarrow> round256 w (vars_list v) i = vars_list (fips_round256 m v i)"
proof -
  assume w: "w ! i = fips_w256 m i"
  obtain a b c d e f g h where v: "v = (a, b, c, d, e, f, g, h)" by (metis surj_pair)
  have u: "[0..<8] = [0, 1, 2, 3, 4, 5, 6, 7 :: nat]" by (simp add: upt_rec)
  show ?thesis
    unfolding v round256_def fips_round256_def vars_list_def prod.case Let_def w u
    by (simp add: Ch256_def Maj256_def Sigma_rotr ac_simps)
qed

lemma rounds256_fips:
  assumes "64 \<le> length m"
  shows "foldl (round256 (schedule256 m)) (vars_list v) [0..<64] = vars_list (foldl (fips_round256 m) v [0..<64])"
proof -
  have "k \<le> 64 \<Longrightarrow> foldl (round256 (schedule256 m)) (vars_list v) [0..<k] = vars_list (foldl (fips_round256 m) v [0..<k])" for k
  proof (induction k)
    case (Suc k)
    then have "schedule256 m ! k = fips_w256 m k" by (simp add: schedule256_fips [OF assms] del: upt_Suc)
    with Suc show ?case by (simp add: round256_fips)
  qed simp
  then show ?thesis by simp
qed

text \<open>One iteration of the loop of \<open>blocks\<close>.\<close>

definition compress256 :: "u32 list \<Rightarrow> bytes \<Rightarrow> u32 list" where
  "compress256 z m =
     (let a = foldl (round256 (schedule256 m)) (map (\<lambda>i. z ! i) [0..<8]) [0..<64]
      in map (\<lambda>i. (a ! i + z ! i) AND 0xffffffff) [0..<8])"

lemma length_compress256 [simp]: "length (compress256 z m) = 8"
  by (simp add: compress256_def Let_def)

lemma compress256_fips:
  assumes "64 \<le> length m"
  shows "compress256 (vars_list v) m = vars_list (fips_compress256 v m)"
proof -
  obtain a b c d e f g h where v: "v = (a, b, c, d, e, f, g, h)" by (metis surj_pair)
  obtain a' b' c' d' e' f' g' h' where v': "foldl (fips_round256 m) v [0..<64] = (a', b', c', d', e', f', g', h')"
    by (metis surj_pair)
  have u: "[0..<8] = [0, 1, 2, 3, 4, 5, 6, 7 :: nat]" by (simp add: upt_rec)
  show ?thesis
    unfolding compress256_def map_nth_8 [OF length_vars_list] rounds256_fips [OF assms] v' Let_def fips_compress256_def
    unfolding u v by (simp add: vars_list_def v' [unfolded v] add.commute)
qed

lemma schedule256_take: "schedule256 (take 64 m) = schedule256 m"
proof -
  have "[0..<4] = [0, 1, 2, 3 :: nat]" by (simp add: upt_rec)
  then have "map (\<lambda>i. load32_bigendian (take 64 m) (4 * i)) [0..<16] = map (\<lambda>i. load32_bigendian m (4 * i)) [0..<16]"
    by (intro map_cong refl) (simp add: load32_bigendian_def)
  then show ?thesis unfolding schedule256_def by (simp only:)
qed

lemma compress256_take: "compress256 z (take 64 m) = compress256 z m"
  by (simp only: compress256_def schedule256_take)

lemma blocks256_step:
  "64 \<le> n \<Longrightarrow> blocks256 z m n = blocks256 (compress256 z (take 64 m)) (drop 64 m) (n - 64)"
  unfolding blocks256_def map_nth_8 [OF length_compress256] compress256_take
  by (subst blocks256_loop.simps) (simp add: compress256_def Let_def)

interpretation sha256: block_hash 64 compress256 blocks256
proof
  show "blocks256 z m n = blocks256 (compress256 z (take 64 m)) (drop 64 m) (n - 64)" if "64 \<le> n" for z m n
    using that by (rule blocks256_step)
  show "blocks256 z m n = z" if "n < 64" for z m n
    using that by (simp add: blocks256_def blocks256_loop.simps)
qed simp

lemma foldl_compress256_fips:
  "(\<forall>c \<in> set cs. length c = 64) \<Longrightarrow>
   foldl compress256 (vars_list v) cs = vars_list (foldl fips_compress256 v cs)"
  by (induction cs arbitrary: v) (simp_all add: compress256_fips)

lemma pad256_eq:
  assumes "pad256 m (length m) = (x, n)"
  shows "n \<le> length x \<and> take n x = drop (length m - length m mod 64) m @ [0x80] @
    replicate ((119 - length m mod 64) mod 64) 0 @ pack_be 8 (word_of_nat (8 * length m) :: u64)"
proof -
  define r where "r = length m mod 64"
  define t where "t = drop (length m - r) m"
  define k :: nat where "k = 128 - 64 * of_bool (r < 56)"
  define y where "y = (map (\<lambda>i. if i < r then t ! i else 0) [0..<128])[r := 128]"
  have r: "r < 64" "length t = r" by (simp_all add: r_def t_def)
  have k: "r + 9 \<le> k" "k \<le> 128" "k - 9 - r = (119 - r) mod 64"
    using r(1) by (auto simp: k_def mod_if)
  have y: "length y = 128" "take (k - 8) y = t @ [128] @ replicate (k - 9 - r) 0"
    using r k by (auto simp: y_def nth_append nth_list_update intro!: nth_equalityI)
  have p: "push_bit 3 (word_of_nat (length m)) = (word_of_nat (8 * length m) :: u64)"
    by (simp add: push_bit_eq_mult)
  have "(x, n) = pad256 m (length m)" using assms by (rule sym)
  also have "\<dots> =
      (take (k - 8) y @ store64_bigendian (push_bit 3 (word_of_nat (length m))) @ drop k y, k)"
    unfolding pad256_def Let_def r_def [symmetric] t_def [symmetric] y_def [symmetric] k_def [symmetric] ..
  finally have "x = take (k - 8) y @ store64_bigendian (push_bit 3 (word_of_nat (length m))) @ drop k y" "n = k"
    by (simp_all only: prod.inject)
  moreover have "length (take (k - 8) y) = k - 8" using y(1) k by simp
  ultimately have "take n x = take (k - 8) y @ pack_be 8 (word_of_nat (8 * length m) :: u64)" "n \<le> length x"
    using k y(1) unfolding p store64_bigendian_def by simp_all
  then show ?thesis
    unfolding r_def [symmetric] t_def [symmetric] y(2) k(3) by simp
qed

lemma sha256_correct: "crypto_hash_sha256 m (length m) = fips_sha256 m"
proof -
  obtain x n where xn: "pad256 m (length m) = (x, n)" by fastforce
  let ?v = "(0x6a09e667, 0xbb67ae85, 0x3c6ef372, 0xa54ff53a, 0x510e527f, 0x9b05688c, 0x1f83d9ab, 0x5be0cd19) :: vars256"
  have IV: "IV256 = vars_list ?v" by (simp add: IV256_def vars_list_def)
  note p = pad256_eq [OF xn]
  have "blocks256 (blocks256 IV256 m (length m)) x n = foldl compress256 IV256 (chunks 64 (fips_pad256 m))"
    unfolding fips_pad256_def using p by (intro sha256.blocks_two) (auto simp only: refl)
  also have "\<dots> = vars_list (foldl fips_compress256 ?v (chunks 64 (fips_pad256 m)))"
    unfolding IV by (rule foldl_compress256_fips) (simp add: chunk_length)
  finally have b: "blocks256 (blocks256 IV256 m (length m)) x n =
      vars_list (foldl fips_compress256 ?v (chunks 64 (fips_pad256 m)))" .
  have "map (\<lambda>i. store32_bigendian (z ! i)) [0..<8] = map (pack_be 4) z" if "length z = 8" for z
    using that by (intro nth_equalityI) (simp_all add: store32_bigendian_def)
  then show ?thesis
    unfolding crypto_hash_sha256_def Let_def xn prod.case b fips_sha256_def
    by (simp add: vars_list_def split: prod.split)
qed

lemma length_sha256 [simp]: "length (crypto_hash_sha256 m n) = 32"
proof -
  have "length (concat (map (\<lambda>i. store32_bigendian (z i)) [0..<k])) = 4 * k" for z k
    by (induction k) (simp_all add: store32_bigendian_def)
  then show ?thesis by (simp add: crypto_hash_sha256_def Let_def split: prod.split del: upt_Suc)
qed

section \<open>Properties\<close>

text \<open>
  C25. The one-shot SHA-256 of tinynacl, which processes whole blocks from the message and one or
  two more from a 128-byte scratch array, with its rotated working array and its table-driven
  rounds, is the SHA-256 of FIPS 180-4 for every message.
\<close>

theorem sha256_fips180: "crypto_hash_sha256 m (length m) = fips_sha256 m"
  by (rule sha256_correct)

end
