(* ===== verification/Hkdf.thy ===== *)
theory Hkdf
  imports Sha256
begin

text \<open>
  glo_hkdf.c and glo_ks.c: HMAC-SHA256, HKDF, HKDF-Expand-Label and the TLS 1.3 key schedule.
  \<open>malloc\<close> may fail: \<open>mem n\<close> says whether an allocation of \<open>n\<close> bytes succeeds. An output array is
  passed in with its old contents, which a function that fails before writing returns unchanged.
\<close>

section \<open>HMAC and HKDF\<close>

definition glo_sha256 :: "bytes \<Rightarrow> bytes" where
  "glo_sha256 msg = crypto_hash_sha256 msg (length msg)"

definition glo_hmac_sha256 :: "(nat \<Rightarrow> bool) \<Rightarrow> bytes \<Rightarrow> bytes \<Rightarrow> bytes" where
  "glo_hmac_sha256 mem key msg =
     (let k0 = (if length key > 64 then glo_sha256 key @ replicate 32 0
                else key @ replicate (64 - length key) 0);
          ipad = map (\<lambda>b. b XOR 0x36) k0; opad = map (\<lambda>b. b XOR 0x5c) k0
      in if \<not> mem (64 + length msg) then replicate 32 0
         else glo_sha256 (opad @ glo_sha256 (ipad @ msg)))"

definition glo_hkdf_extract :: "(nat \<Rightarrow> bool) \<Rightarrow> bytes option \<Rightarrow> bytes \<Rightarrow> bytes" where
  "glo_hkdf_extract mem salt ikm =
     (let salt = (case salt of None \<Rightarrow> replicate 32 0 | Some s \<Rightarrow> if s = [] then replicate 32 0 else s)
      in glo_hmac_sha256 mem salt ikm)"

text \<open>The loop of \<open>glo_hkdf_expand\<close>: \<open>okm\<close> holds the bytes written so far.\<close>

function hkdf_loop :: "(nat \<Rightarrow> bool) \<Rightarrow> bytes \<Rightarrow> bytes \<Rightarrow> nat \<Rightarrow> bytes \<Rightarrow> nat \<Rightarrow> u8 \<Rightarrow> bytes \<Rightarrow> bytes" where
  "hkdf_loop mem prk info okmlen t tlen counter okm =
     (if length okm < okmlen
      then let buf = (if tlen \<noteq> 0 then take tlen t else []) @ info @ [counter];
               t = glo_hmac_sha256 mem prk buf;
               n = (if okmlen - length okm < 32 then okmlen - length okm else 32)
           in hkdf_loop mem prk info okmlen t 32 (counter + 1) (okm @ map (\<lambda>i. t ! i) [0..<n])
      else okm)"
  by pat_completeness auto
termination
  by (relation "measure (\<lambda>(mem, prk, info, okmlen, t, tlen, counter, okm). okmlen - length okm)") auto

declare hkdf_loop.simps [simp del]

definition glo_hkdf_expand :: "(nat \<Rightarrow> bool) \<Rightarrow> bytes \<Rightarrow> nat \<Rightarrow> bytes \<Rightarrow> bytes \<Rightarrow> int \<times> bytes" where
  "glo_hkdf_expand mem okm okmlen prk info =
     (if okmlen > 255 * 32 then (-1, okm)
      else if \<not> mem (32 + length info + 1) then (-1, okm)
      else (0, hkdf_loop mem prk info okmlen [] 0 1 []))"

definition hkdf_label :: "nat \<Rightarrow> bytes \<Rightarrow> bytes \<Rightarrow> bytes" where
  "hkdf_label outlen label ctx =
     [word_of_nat (outlen div 256), word_of_nat (outlen mod 256), word_of_nat (6 + length label)] @
     lit ''tls13 '' @ label @ [word_of_nat (length ctx)] @ ctx"

definition glo_hkdf_expand_label :: "(nat \<Rightarrow> bool) \<Rightarrow> bytes \<Rightarrow> nat \<Rightarrow> bytes \<Rightarrow> bytes \<Rightarrow> bytes \<Rightarrow> int \<times> bytes" where
  "glo_hkdf_expand_label mem out outlen secret label ctx =
     (if outlen > 0xffff then (-1, out)
      else if 6 + length label > 255 then (-1, out)
      else if length ctx > 255 then (-1, out)
      else glo_hkdf_expand mem out outlen secret (hkdf_label outlen label ctx))"

section \<open>The key schedule\<close>

text \<open>\<open>derived\<close>, \<open>key\<close> and \<open>iv\<close> are the old contents of the arrays the label expansion writes.\<close>

definition empty_hash :: bytes where
  "empty_hash = glo_sha256 []"

definition glo_ks_early_secret :: "(nat \<Rightarrow> bool) \<Rightarrow> bytes option \<Rightarrow> bytes" where
  "glo_ks_early_secret mem psk =
     (let psk = (case psk of None \<Rightarrow> replicate 32 0 | Some p \<Rightarrow> if p = [] then replicate 32 0 else p)
      in glo_hkdf_extract mem None psk)"

definition glo_ks_derive_secret :: "(nat \<Rightarrow> bool) \<Rightarrow> bytes \<Rightarrow> bytes \<Rightarrow> bytes \<Rightarrow> bytes \<Rightarrow> bytes" where
  "glo_ks_derive_secret mem out secret label transcript_hash =
     snd (glo_hkdf_expand_label mem out 32 secret label transcript_hash)"

definition glo_ks_handshake_secret :: "(nat \<Rightarrow> bool) \<Rightarrow> bytes \<Rightarrow> bytes \<Rightarrow> bytes \<Rightarrow> bytes" where
  "glo_ks_handshake_secret mem derived early ecdhe =
     (let derived = snd (glo_hkdf_expand_label mem derived 32 early (lit ''derived'') empty_hash)
      in glo_hkdf_extract mem (Some derived) ecdhe)"

definition glo_ks_master_secret :: "(nat \<Rightarrow> bool) \<Rightarrow> bytes \<Rightarrow> bytes \<Rightarrow> bytes" where
  "glo_ks_master_secret mem derived hs =
     (let derived = snd (glo_hkdf_expand_label mem derived 32 hs (lit ''derived'') empty_hash)
      in glo_hkdf_extract mem (Some derived) (replicate 32 0))"

definition glo_ks_traffic_key_iv :: "(nat \<Rightarrow> bool) \<Rightarrow> bytes \<Rightarrow> bytes \<Rightarrow> bytes \<Rightarrow> bytes \<times> bytes" where
  "glo_ks_traffic_key_iv mem key iv traffic_secret =
     (snd (glo_hkdf_expand_label mem key 32 traffic_secret (lit ''key'') []),
      snd (glo_hkdf_expand_label mem iv 12 traffic_secret (lit ''iv'') []))"

definition glo_ks_finished_key :: "(nat \<Rightarrow> bool) \<Rightarrow> bytes \<Rightarrow> bytes \<Rightarrow> bytes" where
  "glo_ks_finished_key mem fk traffic_secret =
     snd (glo_hkdf_expand_label mem fk 32 traffic_secret (lit ''finished'') [])"

section \<open>RFC 2104, RFC 5869 and RFC 8446\<close>

definition rfc_hmac :: "bytes \<Rightarrow> bytes \<Rightarrow> bytes" where
  "rfc_hmac key msg =
     (let k = (if length key > 64 then fips_sha256 key else key); k = k @ replicate (64 - length k) 0
      in fips_sha256 (map (\<lambda>b. b XOR 0x5c) k @ fips_sha256 (map (\<lambda>b. b XOR 0x36) k @ msg)))"

text \<open>\<open>T(0) = []\<close> and \<open>T(i) = HMAC(PRK, T(i-1) | info | i)\<close>.\<close>

primrec rfc_T :: "bytes \<Rightarrow> bytes \<Rightarrow> nat \<Rightarrow> bytes" where
  "rfc_T prk info 0 = []"
| "rfc_T prk info (Suc i) = rfc_hmac prk (rfc_T prk info i @ info @ [word_of_nat (Suc i)])"

definition rfc_hkdf_expand :: "bytes \<Rightarrow> bytes \<Rightarrow> nat \<Rightarrow> bytes" where
  "rfc_hkdf_expand prk info l = take l (concat (map (rfc_T prk info) [1..<Suc ((l + 31) div 32)]))"

definition rfc_hkdf_label :: "bytes \<Rightarrow> bytes \<Rightarrow> bytes \<Rightarrow> nat \<Rightarrow> bytes" where
  "rfc_hkdf_label secret label ctx l =
     rfc_hkdf_expand secret
       (pack_be 2 (word_of_nat l :: u16) @
        word_of_nat (length (lit ''tls13 '' @ label)) # (lit ''tls13 '' @ label) @
        word_of_nat (length ctx) # ctx) l"

lemma length_fips_sha256 [simp]: "length (fips_sha256 m) = 32"
  using length_sha256 [of m "length m"] by (simp add: sha256_correct)

lemma length_rfc_T: "0 < i \<Longrightarrow> length (rfc_T prk info i) = 32"
  by (cases i) (simp_all add: rfc_hmac_def Let_def)

lemma glo_sha256_fips: "glo_sha256 m = fips_sha256 m"
  by (simp add: glo_sha256_def sha256_correct)

lemma glo_hmac_rfc:
  "mem (64 + length msg) \<Longrightarrow> glo_hmac_sha256 mem key msg = rfc_hmac key msg"
  by (simp add: glo_hmac_sha256_def rfc_hmac_def glo_sha256_fips Let_def)

lemma length_glo_hmac [simp]: "length (glo_hmac_sha256 mem key msg) = 32"
  by (simp add: glo_hmac_sha256_def glo_sha256_def Let_def)

text \<open>After \<open>i\<close> rounds \<open>okm\<close> is \<open>T(1) | ... | T(i)\<close>, \<open>t\<close> is \<open>T(i)\<close> and \<open>counter\<close> is \<open>i + 1\<close>.\<close>

lemma hkdf_loop_rfc:
  assumes mem: "\<And>n. mem n" and "l \<le> 255 * 32"
    and "okm = concat (map (rfc_T prk info) [1..<Suc i])" and "length okm = 32 * i" and "32 * i < l + 32"
    and "t' = (if tlen \<noteq> 0 then take tlen t else [])" and "t' = rfc_T prk info i"
    and "counter = word_of_nat (Suc i)"
  shows "hkdf_loop mem prk info l t tlen counter (take l okm) = rfc_hkdf_expand prk info l"
  using assms(3-8)
proof (induction "l - length okm" arbitrary: t t' tlen counter okm i rule: less_induct)
  case less
  show ?case
  proof (cases "32 * i < l")
    case True
    let ?t = "rfc_T prk info (Suc i)"
    let ?n = "if l - 32 * i < 32 then l - 32 * i else 32"
    have tl: "take l okm = okm" using True less.prems(2) by simp
    have t: "glo_hmac_sha256 mem prk (t' @ info @ [counter]) = ?t"
      using mem less.prems by (simp add: glo_hmac_rfc)
    have n: "map (\<lambda>j. ?t ! j) [0..<?n] = take ?n ?t"
      using length_rfc_T [of "Suc i" prk info] by (intro nth_equalityI) auto
    have okm': "take l (okm @ ?t) = okm @ take ?n ?t"
      using True less.prems(2) length_rfc_T [of "Suc i" prk info] by simp
    have "hkdf_loop mem prk info l ?t 32 (counter + 1) (take l (okm @ ?t)) = rfc_hkdf_expand prk info l"
    proof (rule less.hyps)
      show "l - length (okm @ ?t) < l - length okm"
        using True less.prems(2) length_rfc_T [of "Suc i" prk info] by simp
      show "okm @ ?t = concat (map (rfc_T prk info) [1..<Suc (Suc i)])"
        using less.prems(1) by simp
      show "length (okm @ ?t) = 32 * Suc i"
        using less.prems(2) length_rfc_T [of "Suc i" prk info] by simp
      show "32 * Suc i < l + 32" using True by simp
      show "?t = (if (32 :: nat) \<noteq> 0 then take 32 ?t else [])"
        using length_rfc_T [of "Suc i" prk info] by simp
      show "counter + 1 = word_of_nat (Suc (Suc i))" using less.prems(6) by simp
    qed simp
    moreover have "hkdf_loop mem prk info l t tlen counter okm =
        hkdf_loop mem prk info l ?t 32 (counter + 1) (okm @ map (\<lambda>j. ?t ! j) [0..<?n])"
      using True less.prems(2) t [unfolded less.prems(4)]
      by (subst hkdf_loop.simps) (simp only: Let_def if_True)
    ultimately show ?thesis unfolding tl n okm' by simp
  next
    case False
    have i: "i = (l + 31) div 32" using False less.prems(3) by simp
    show ?thesis
      using False less.prems(1,2) unfolding i rfc_hkdf_expand_def by (subst hkdf_loop.simps) simp
  qed
qed

lemma glo_hkdf_expand_rfc:
  assumes "\<And>n. mem n" and "l \<le> 255 * 32"
  shows "glo_hkdf_expand mem okm l prk info = (0, rfc_hkdf_expand prk info l)"
  using hkdf_loop_rfc [where mem = mem and l = l and okm = "[]" and prk = prk and info = info and i = 0
      and t' = "[]" and t = "[]" and tlen = 0 and counter = 1, OF assms] assms
  by (simp add: glo_hkdf_expand_def)

lemma hkdf_label_rfc:
  assumes "l \<le> 0xffff"
  shows "hkdf_label l label ctx =
     pack_be 2 (word_of_nat l :: u16) @
     word_of_nat (length (lit ''tls13 '' @ label)) # (lit ''tls13 '' @ label) @ word_of_nat (length ctx) # ctx"
proof -
  have m: "l mod 256 = take_bit 8 l" and d: "l div 256 = drop_bit 8 l"
    by (simp_all add: take_bit_eq_mod drop_bit_eq_div)
  have "ucast (word_of_nat l :: u16) = (word_of_nat (l mod 256) :: u8)"
    unfolding m by (rule bit_word_eqI) (auto simp: bit_simps)
  moreover have "ucast (drop_bit 8 (word_of_nat l :: u16)) = (word_of_nat (l div 256) :: u8)"
    unfolding d by (rule bit_word_eqI) (auto simp: bit_simps)
  ultimately have "pack_be 2 (word_of_nat l :: u16) = [word_of_nat (l div 256), word_of_nat (l mod 256) :: u8]"
    by (simp add: pack_be_def numeral_2_eq_2)
  then show ?thesis by (simp add: hkdf_label_def)
qed

lemma glo_hkdf_expand_label_rfc:
  assumes "\<And>n. mem n" and "l \<le> 255 * 32" and "length label \<le> 249" and "length ctx \<le> 255"
  shows "glo_hkdf_expand_label mem out l secret label ctx = (0, rfc_hkdf_label secret label ctx l)"
proof -
  have l: "l \<le> 0xffff" using assms(2) by simp
  have c: "\<not> 0xffff < l" "\<not> 255 < 6 + length label" "\<not> 255 < length ctx" using assms l by simp_all
  show ?thesis
    unfolding glo_hkdf_expand_label_def if_not_P [OF c(1)] if_not_P [OF c(2)] if_not_P [OF c(3)]
      glo_hkdf_expand_rfc [OF assms(1,2)] rfc_hkdf_label_def hkdf_label_rfc [OF l] ..
qed

text \<open>The encoding never exceeds the array \<open>info[2 + 1 + 255 + 1 + 255]\<close>, and it determines its parts.\<close>

lemma hkdf_label_bound: "6 + length label \<le> 255 \<Longrightarrow> length ctx \<le> 255 \<Longrightarrow> length (hkdf_label l label ctx) \<le> 514"
  by (simp add: hkdf_label_def)

lemma word_of_nat_inject8: "x < 256 \<Longrightarrow> y < 256 \<Longrightarrow> (word_of_nat x :: u8) = word_of_nat y \<longleftrightarrow> x = y"
  by (simp add: word_of_nat_eq_iff take_bit_nat_eq_self)

lemma hkdf_label_inject:
  assumes "hkdf_label l label ctx = hkdf_label l' label' ctx'"
    and "l \<le> 0xffff" "l' \<le> 0xffff" "length label \<le> 249" "length label' \<le> 249"
    and "length ctx \<le> 255" "length ctx' \<le> 255"
  shows "l = l' \<and> label = label' \<and> ctx = ctx'"
proof -
  have e: "(word_of_nat (l div 256) :: u8) = word_of_nat (l' div 256)" "(word_of_nat (l mod 256) :: u8) = word_of_nat (l' mod 256)"
    "(word_of_nat (6 + length label) :: u8) = word_of_nat (6 + length label')"
    and r: "label @ word_of_nat (length ctx) # ctx = label' @ word_of_nat (length ctx') # ctx'"
    using assms(1) by (simp_all add: hkdf_label_def)
  have "l div 256 = l' div 256" using e(1) assms(2,3) by (subst (asm) word_of_nat_inject8) auto
  moreover have "l mod 256 = l' mod 256" using e(2) by (subst (asm) word_of_nat_inject8) auto
  ultimately have "l = l'" by (metis div_mult_mod_eq)
  moreover have "length label = length label'"
    using e(3) assms(4,5) by (subst (asm) word_of_nat_inject8) auto
  ultimately show ?thesis using r by simp
qed

section \<open>Properties\<close>



text \<open>
  HKDF-Expand-Label separates its uses: within the lengths the code accepts, the encoded
  label fits the array \<open>info\<close> of the code, and two calls with a different output length, label or
  context expand from different info strings.
\<close>

theorem hkdf_label_separates:
  assumes "l \<le> 0xffff" "l' \<le> 0xffff" "length label \<le> 249" "length label' \<le> 249"
    and "length ctx \<le> 255" "length ctx' \<le> 255"
  shows "length (hkdf_label l label ctx) \<le> 2 + 1 + 255 + 1 + 255 \<and>
    (hkdf_label l label ctx = hkdf_label l' label' ctx' \<longleftrightarrow> l = l' \<and> label = label' \<and> ctx = ctx')"
  using hkdf_label_inject [of l label ctx l' label' ctx'] hkdf_label_bound [of label ctx l] assms by auto

theorem hkdf_label_separates_witness:
  "hkdf_label 32 (lit ''key'') [] \<noteq> hkdf_label 12 (lit ''iv'') []"
  using hkdf_label_separates [of 32 12 "lit ''key''" "lit ''iv''" "[]" "[]"] by simp

end
