(* ===== verification/Chacha.thy ===== *)
theory Chacha
  imports Prelude
begin

text \<open>
  The two ChaCha20 implementations of the tree: glo_chacha20.c (96-bit nonce, 32-bit counter, for
  TLS) and crypto_stream_chacha20.c of tinynacl (64-bit nonce, 64-bit counter, for SSH). The
  sixteen words of the state are a list; a pointer and the length it is used with are a byte
  list, and the output of a call is the list of the bytes it writes. Both read a byte of the
  input before they write the byte of the output at the same place, so that the calls of the code
  that pass one array for both are covered.
\<close>

section \<open>glo_chacha20.c\<close>

definition rotl32 :: "u32 \<Rightarrow> nat \<Rightarrow> u32" where
  "rotl32 x n = push_bit n x OR drop_bit (32 - n) x"

definition load32_le :: "bytes \<Rightarrow> nat \<Rightarrow> u32" where
  "load32_le p i = ucast (p ! i) OR push_bit 8 (ucast (p ! (i + 1))) OR
     push_bit 16 (ucast (p ! (i + 2))) OR push_bit 24 (ucast (p ! (i + 3)))"

definition store32_le :: "u32 \<Rightarrow> bytes" where
  "store32_le v = [ucast v, ucast (drop_bit 8 v), ucast (drop_bit 16 v), ucast (drop_bit 24 v)]"

text \<open>The steps of the \<open>QR\<close> macro on the words of the state: \<open>a += b\<close>, \<open>d ^= a\<close>, \<open>d = rotl32(d, n)\<close>.\<close>

definition add_word :: "nat \<Rightarrow> nat \<Rightarrow> u32 list \<Rightarrow> u32 list" where
  "add_word a b x = x[a := x ! a + x ! b]"

definition xor_word :: "nat \<Rightarrow> nat \<Rightarrow> u32 list \<Rightarrow> u32 list" where
  "xor_word d a x = x[d := x ! d XOR x ! a]"

definition rotl_word :: "nat \<Rightarrow> nat \<Rightarrow> u32 list \<Rightarrow> u32 list" where
  "rotl_word d n x = x[d := rotl32 (x ! d) n]"

definition QR :: "nat \<Rightarrow> nat \<Rightarrow> nat \<Rightarrow> nat \<Rightarrow> u32 list \<Rightarrow> u32 list" where
  "QR a b c d x =
     (let x = add_word a b x; x = xor_word d a x; x = rotl_word d 16 x;
          x = add_word c d x; x = xor_word b c x; x = rotl_word b 12 x;
          x = add_word a b x; x = xor_word d a x; x = rotl_word d 8 x;
          x = add_word c d x; x = xor_word b c x; x = rotl_word b 7 x
      in x)"

definition double_round :: "u32 list \<Rightarrow> u32 list" where
  "double_round x =
     (let x = QR 0 4 8 12 x; x = QR 1 5 9 13 x; x = QR 2 6 10 14 x; x = QR 3 7 11 15 x;
          x = QR 0 5 10 15 x; x = QR 1 6 11 12 x; x = QR 2 7 8 13 x; x = QR 3 4 9 14 x
      in x)"

primrec double_rounds :: "nat \<Rightarrow> u32 list \<Rightarrow> u32 list" where
  "double_rounds 0 x = x"
| "double_rounds (Suc n) x = double_rounds n (double_round x)"

definition chacha20_block :: "u32 list \<Rightarrow> bytes" where
  "chacha20_block inp =
     (let x = double_rounds 10 inp
      in concat (map (\<lambda>i. store32_le (x ! i + inp ! i)) [0..<16]))"

text \<open>The \<open>while (len > 0)\<close> loop; \<open>inp\<close> is None for the null pointer, which stands for zero bytes.\<close>

function glo_xor_loop :: "u32 list \<Rightarrow> bytes option \<Rightarrow> nat \<Rightarrow> nat \<Rightarrow> bytes" where
  "glo_xor_loop st inp off len =
     (if len > 0
      then let n = (if len < 64 then len else 64); ks = chacha20_block st;
               out = map (\<lambda>j. (case inp of None \<Rightarrow> 0 | Some m \<Rightarrow> m ! (off + j)) XOR ks ! j) [0..<n]
           in out @ glo_xor_loop (st[12 := st ! 12 + 1]) inp (off + n) (len - n)
      else [])"
  by pat_completeness auto
termination by (relation "measure (\<lambda>(st, inp, off, len). len)") auto

declare glo_xor_loop.simps [simp del]

definition glo_chacha20_xor :: "bytes option \<Rightarrow> nat \<Rightarrow> bytes \<Rightarrow> bytes \<Rightarrow> u32 \<Rightarrow> bytes" where
  "glo_chacha20_xor inp len key nonce counter =
     (let st = [0x61707865, 0x3320646e, 0x79622d32, 0x6b206574] @
               map (\<lambda>i. load32_le key (4 * i)) [0..<8] @
               [counter, load32_le nonce 0, load32_le nonce 4, load32_le nonce 8]
      in glo_xor_loop st inp 0 len)"

section \<open>crypto_stream_chacha20.c\<close>

definition unpack32 :: "bytes \<Rightarrow> nat \<Rightarrow> u32" where
  "unpack32 x i = ucast (x ! i) OR push_bit 8 (ucast (x ! (i + 1))) OR
     push_bit 16 (ucast (x ! (i + 2))) OR push_bit 24 (ucast (x ! (i + 3)))"

definition pack32 :: "u32 \<Rightarrow> bytes" where
  "pack32 u = pack_le 4 u"

definition ROTATE32 :: "u32 \<Rightarrow> nat \<Rightarrow> u32" where
  "ROTATE32 x c = push_bit c x OR drop_bit (32 - c) (x AND 0xffffffff)"

text \<open>\<open>d = ROTATE32(d ^ a, n)\<close>\<close>

definition xor_rotate :: "nat \<Rightarrow> nat \<Rightarrow> nat \<Rightarrow> u32 list \<Rightarrow> u32 list" where
  "xor_rotate d a n x = x[d := ROTATE32 (x ! d XOR x ! a) n]"

definition QUARTERROUND :: "nat \<Rightarrow> nat \<Rightarrow> nat \<Rightarrow> nat \<Rightarrow> u32 list \<Rightarrow> u32 list" where
  "QUARTERROUND a b c d x =
     (let x = add_word a b x; x = xor_rotate d a 16 x;
          x = add_word c d x; x = xor_rotate b c 12 x;
          x = add_word a b x; x = xor_rotate d a 8 x;
          x = add_word c d x; x = xor_rotate b c 7 x
      in x)"

definition TWOROUNDS :: "u32 list \<Rightarrow> u32 list" where
  "TWOROUNDS x =
     (let x = QUARTERROUND 0 4 8 12 x; x = QUARTERROUND 1 5 9 13 x;
          x = QUARTERROUND 2 6 10 14 x; x = QUARTERROUND 3 7 11 15 x;
          x = QUARTERROUND 0 5 10 15 x; x = QUARTERROUND 1 6 11 12 x;
          x = QUARTERROUND 2 7 8 13 x; x = QUARTERROUND 3 4 9 14 x
      in x)"

text \<open>
  \<open>XORBLOCK(o, i)\<close>: \<open>s\<close> lists s0 to s3, k0 to k7 and n0 to n3; the words of the input are added
  to the keystream by XOR before they are packed.
\<close>

definition XORBLOCK :: "u32 list \<Rightarrow> bytes \<Rightarrow> bytes" where
  "XORBLOCK s i =
     (let x = TWOROUNDS s; x = TWOROUNDS x; x = TWOROUNDS x; x = TWOROUNDS x; x = TWOROUNDS x;
          x = TWOROUNDS x; x = TWOROUNDS x; x = TWOROUNDS x; x = TWOROUNDS x; x = TWOROUNDS x
      in concat (map (\<lambda>j. pack32 ((x ! j + s ! j) XOR unpack32 i (4 * j))) [0..<16]))"

definition tinynacl_state :: "bytes \<Rightarrow> bytes \<Rightarrow> u32 \<Rightarrow> u32 \<Rightarrow> u32 list" where
  "tinynacl_state k n n0 n1 =
     [0x61707865, 0x3320646E, 0x79622D32, 0x6B206574,
      unpack32 k 0, unpack32 k 4, unpack32 k 8, unpack32 k 12,
      unpack32 k 16, unpack32 k 20, unpack32 k 24, unpack32 k 28,
      n0, n1, unpack32 n 0, unpack32 n 4]"

text \<open>
  The loop over whole blocks and the last partial block. The result is the return value and the
  bytes written; \<open>l\<close> bytes of \<open>m\<close> are left.
\<close>

function stream_loop :: "bytes \<Rightarrow> bytes \<Rightarrow> u64 \<Rightarrow> u32 \<Rightarrow> u32 \<Rightarrow> bytes \<Rightarrow> nat \<Rightarrow> int \<times> bytes" where
  "stream_loop k n u n0 n1 m l =
     (if l \<ge> 64
      then let c = XORBLOCK (tinynacl_state k n n0 n1) m; u = u + 1
           in if u = 0 then (-1, c)
              else let (r, cs) = stream_loop k n u (ucast (u AND 0xffffffff)) (ucast (drop_bit 32 u))
                         (drop 64 m) (l - 64)
                   in (r, c @ cs)
      else if l > 0
      then let b = map (\<lambda>j. if j < l then m ! j else 0) [0..<64];
               b = XORBLOCK (tinynacl_state k n n0 n1) b
           in (0, map (\<lambda>j. b ! j) [0..<l])
      else (0, []))"
  by pat_completeness auto
termination by (relation "measure (\<lambda>(k, n, u, n0, n1, m, l). l)") auto

declare stream_loop.simps [simp del]

definition crypto_stream_chacha20_xor :: "bytes \<Rightarrow> nat \<Rightarrow> bytes \<Rightarrow> bytes \<Rightarrow> int \<times> bytes" where
  "crypto_stream_chacha20_xor m l n k =
     (if l = 0 then (0, []) else stream_loop k n 0 0 0 m l)"

definition crypto_stream_chacha20 :: "nat \<Rightarrow> bytes \<Rightarrow> bytes \<Rightarrow> int \<times> bytes" where
  "crypto_stream_chacha20 l n k = crypto_stream_chacha20_xor (replicate l 0) l n k"

section \<open>The keystream\<close>

lemma length_store32_le [simp]: "length (store32_le v) = 4"
  by (simp add: store32_le_def)

lemma length_concat_words: "length (concat (map (\<lambda>i. store32_le (f i)) [0..<n])) = 4 * n"
  by (induction n) simp_all

lemma length_chacha20_block [simp]: "length (chacha20_block st) = 64"
  by (simp add: chacha20_block_def Let_def length_concat_words)

definition xor_bytes :: "bytes \<Rightarrow> bytes \<Rightarrow> bytes" where
  "xor_bytes a b = map2 (XOR) a b"

lemma length_xor_bytes [simp]: "length (xor_bytes a b) = min (length a) (length b)"
  by (simp add: xor_bytes_def)

lemma xor_bytes_append:
  "length a = length c \<Longrightarrow> xor_bytes (a @ b) (c @ d) = xor_bytes a c @ xor_bytes b d"
  by (simp add: xor_bytes_def)

lemma xor_bytes_involution:
  "length a = length b \<Longrightarrow> xor_bytes (xor_bytes a b) b = a"
  by (induction a b rule: list_induct2) (simp_all add: xor_bytes_def xor.assoc)

definition glo_keystream :: "u32 list \<Rightarrow> nat \<Rightarrow> bytes" where
  "glo_keystream st len = glo_xor_loop st None 0 len"

lemma glo_xor_loop_length: "length (glo_xor_loop st inp off len) = len"
  by (induction st inp off len rule: glo_xor_loop.induct)
    (subst glo_xor_loop.simps, auto simp: Let_def)

lemma glo_xor_loop_0 [simp]: "glo_xor_loop st inp off 0 = []"
  by (simp add: glo_xor_loop.simps)

lemma glo_xor_loop_step:
  "0 < len \<Longrightarrow> glo_xor_loop st inp off len =
     map (\<lambda>j. (case inp of None \<Rightarrow> 0 | Some m \<Rightarrow> m ! (off + j)) XOR chacha20_block st ! j) [0..<min len 64] @
     glo_xor_loop (st[12 := st ! 12 + 1]) inp (off + min len 64) (len - 64)"
  by (subst glo_xor_loop.simps) (simp add: Let_def min_def)

lemma glo_xor_loop_None: "glo_xor_loop st None off len = glo_keystream st len"
proof -
  have "glo_xor_loop st None off len = glo_xor_loop st None off' len" for off'
  proof (induction len arbitrary: st off off' rule: less_induct)
    case (less len)
    show ?case
    proof (cases "0 < len")
      case True
      then have "len - 64 < len" by simp
      from less.IH [OF this, of _ "off + min len 64" "off' + min len 64"] show ?thesis
        by (simp only: glo_xor_loop_step [OF True] option.case)
    qed simp
  qed
  then show ?thesis by (simp add: glo_keystream_def)
qed

lemma glo_keystream_rec:
  assumes "0 < len"
  shows "glo_keystream st len =
     take len (chacha20_block st) @ glo_keystream (st[12 := st ! 12 + 1]) (len - 64)"
proof -
  have "map (\<lambda>j. 0 XOR chacha20_block st ! j) [0..<min len 64] = take len (chacha20_block st)"
    by (intro nth_equalityI) simp_all
  then show ?thesis
    using glo_xor_loop_step [OF assms, of st None 0]
    by (simp add: glo_keystream_def [symmetric] glo_xor_loop_None)
qed

lemma length_glo_keystream [simp]: "length (glo_keystream st len) = len"
  by (simp add: glo_keystream_def glo_xor_loop_length)

lemma glo_xor_loop_eq:
  "off + len \<le> length m \<Longrightarrow>
   glo_xor_loop st (Some m) off len = xor_bytes (take len (drop off m)) (glo_keystream st len)"
proof (induction len arbitrary: st off rule: less_induct)
  case (less len)
  show ?case
  proof (cases "0 < len")
    case True
    let ?n = "min len 64"
    let ?st = "st[12 := st ! 12 + 1]"
    have here: "map (\<lambda>j. m ! (off + j) XOR chacha20_block st ! j) [0..<?n] =
        xor_bytes (take ?n (drop off m)) (take len (chacha20_block st))"
      using less.prems True by (intro nth_equalityI) (auto simp: xor_bytes_def)
    have rest: "glo_xor_loop ?st (Some m) (off + ?n) (len - 64) =
        xor_bytes (take (len - 64) (drop (off + ?n) m)) (glo_keystream ?st (len - 64))"
    proof (cases "64 < len")
      case True
      then show ?thesis using less.prems by (intro less.IH) auto
    qed (simp add: xor_bytes_def)
    have m: "take len (drop off m) = take ?n (drop off m) @ take (len - 64) (drop (off + ?n) m)"
      using take_add [of ?n "len - 64" "drop off m"] by (cases "64 < len") (simp_all add: add.commute)
    have "glo_xor_loop st (Some m) off len = xor_bytes (take len (drop off m))
        (take len (chacha20_block st) @ glo_keystream ?st (len - 64))"
      unfolding glo_xor_loop_step [OF True] option.case here rest m
      using less.prems by (subst xor_bytes_append) auto
    then show ?thesis by (simp only: glo_keystream_rec [OF True])
  qed (simp add: xor_bytes_def)
qed

definition glo_state :: "bytes \<Rightarrow> bytes \<Rightarrow> u32 \<Rightarrow> u32 list" where
  "glo_state key nonce counter =
     [0x61707865, 0x3320646e, 0x79622d32, 0x6b206574] @ map (\<lambda>i. load32_le key (4 * i)) [0..<8] @
     [counter, load32_le nonce 0, load32_le nonce 4, load32_le nonce 8]"

lemma glo_chacha20_xor_eq:
  "glo_chacha20_xor (Some m) (length m) key nonce c =
     xor_bytes m (glo_keystream (glo_state key nonce c) (length m))"
  by (simp add: glo_chacha20_xor_def glo_state_def glo_xor_loop_eq Let_def)

lemma glo_chacha20_xor_length: "length (glo_chacha20_xor inp len key nonce c) = len"
  by (simp add: glo_chacha20_xor_def glo_xor_loop_length Let_def)

lemma glo_chacha20_xor_involution:
  "glo_chacha20_xor (Some (glo_chacha20_xor (Some m) (length m) key nonce c)) (length m) key nonce c = m"
  using glo_chacha20_xor_eq [of "glo_chacha20_xor (Some m) (length m) key nonce c" key nonce c]
  by (simp add: glo_chacha20_xor_length) (simp add: glo_chacha20_xor_eq xor_bytes_involution)

section \<open>The two implementations agree\<close>

lemma ROTATE32_rotl32: "ROTATE32 x n = rotl32 x n"
proof -
  have "(0xffffffff :: u32) = - 1" by simp
  then have "x AND 0xffffffff = x" by (simp only: and.right_neutral)
  then show ?thesis by (simp add: ROTATE32_def rotl32_def)
qed

lemma xor_rotate_split: "xor_rotate d a n x = rotl_word d n (xor_word d a x)"
  by (cases "d < length x") (simp_all add: xor_rotate_def rotl_word_def xor_word_def ROTATE32_rotl32 list_update_beyond)

lemma QUARTERROUND_QR: "QUARTERROUND a b c d x = QR a b c d x"
  by (simp add: QUARTERROUND_def QR_def Let_def xor_rotate_split)

lemma TWOROUNDS_double_round: "TWOROUNDS x = double_round x"
  by (simp add: TWOROUNDS_def double_round_def Let_def QUARTERROUND_QR)

lemma unpack32_load32_le: "unpack32 x i = load32_le x i"
  by (simp add: unpack32_def load32_le_def)

lemma pack32_store32_le: "pack32 v = store32_le v"
  by (simp add: pack32_def store32_le_def eval_nat_numeral drop_bit_drop_bit)

lemma store32_le_pack: "store32_le v = pack_le 4 v"
  by (simp add: store32_le_def eval_nat_numeral drop_bit_drop_bit)

lemma load32_le_unpack: "load32_le p i = unpack_le [p ! i, p ! (i + 1), p ! (i + 2), p ! (i + 3)]"
  by (simp only: load32_le_def unpack_le_4 or.assoc)

lemma store32_le_load32_le:
  assumes "length bs = 4"
  shows "store32_le (a XOR load32_le bs 0) = xor_bytes (store32_le a) bs"
proof -
  have "[bs ! 0, bs ! (0 + 1), bs ! (0 + 2), bs ! (0 + 3)] = bs"
    using assms by (auto simp: length_Suc_conv eval_nat_numeral)
  then show ?thesis
    using pack_le_unpack_le [of bs, where 'a = 32] assms
    by (simp add: store32_le_pack load32_le_unpack pack_le_xor xor_bytes_def)
qed

lemma load32_le_take: "i + 4 \<le> length p \<Longrightarrow> load32_le p i = load32_le (take 4 (drop i p)) 0"
  by (simp add: load32_le_def)

lemma concat_xor_words:
  assumes "4 * n \<le> length i"
  shows "concat (map (\<lambda>j. store32_le (f j XOR load32_le i (4 * j))) [0..<n]) =
     xor_bytes (take (4 * n) i) (concat (map (\<lambda>j. store32_le (f j)) [0..<n]))"
  using assms
proof (induction n)
  case (Suc n)
  have "take (4 * Suc n) i = take (4 * n) i @ take 4 (drop (4 * n) i)"
    using take_add [of "4 * n" 4 i] by (simp add: add.commute)
  moreover have "store32_le (f n XOR load32_le i (4 * n)) =
      xor_bytes (take 4 (drop (4 * n) i)) (store32_le (f n))"
    using Suc.prems load32_le_take [of "4 * n" i] store32_le_load32_le [of "take 4 (drop (4 * n) i)" "f n"]
    by (simp add: xor_bytes_def zip_commute [of "take 4 (drop (4 * n) i)"] comp_def case_prod_unfold xor.commute)
  ultimately show ?case
    using Suc by (simp add: xor_bytes_append length_concat_words)
qed (simp add: xor_bytes_def)

lemma XORBLOCK_eq:
  "64 \<le> length i \<Longrightarrow> XORBLOCK s i = xor_bytes (take 64 i) (chacha20_block s)"
  using concat_xor_words [of 16 i "\<lambda>j. double_rounds 10 s ! j + s ! j"]
  by (simp add: XORBLOCK_def chacha20_block_def Let_def TWOROUNDS_double_round unpack32_load32_le
      pack32_store32_le eval_nat_numeral del: upt_Suc)

lemma tinynacl_state_eq:
  "length n = 8 \<Longrightarrow> tinynacl_state k n c 0 = glo_state k (replicate 4 0 @ n) c"
  by (simp add: tinynacl_state_def glo_state_def unpack32_load32_le upt_rec load32_le_def nth_append numeral_2_eq_2)

lemma glo_state_next: "(glo_state k n c)[12 := glo_state k n c ! 12 + 1] = glo_state k n (c + 1)"
  by (simp add: glo_state_def upt_rec)

lemma counter_words:
  assumes "u < 2 ^ 32"
  shows "(ucast (word_of_nat u AND 0xffffffff :: u64) :: u32) = word_of_nat u"
    and "ucast (drop_bit 32 (word_of_nat u :: u64)) = (0 :: u32)"
proof -
  show "(ucast (word_of_nat u AND 0xffffffff :: u64) :: u32) = word_of_nat u"
  proof (rule bit_word_eqI)
    fix i
    assume i: "i < LENGTH(32)"
    have m: "(0xffffffff :: u64) = mask 32" by (simp add: mask_eq_exp_minus_1)
    show "bit (ucast (word_of_nat u AND 0xffffffff :: u64) :: u32) i = bit (word_of_nat u :: u32) i"
      using i unfolding m by (simp add: bit_simps)
  qed
  have "unat (word_of_nat u :: u64) < 2 ^ 32"
    using assms by (simp add: unsigned_of_nat take_bit_nat_eq_self)
  then show "ucast (drop_bit 32 (word_of_nat u :: u64)) = (0 :: u32)"
    by (simp add: unat_small_drop_bit)
qed

lemma xor_bytes_take: "xor_bytes (take n a) (take n b) = take n (xor_bytes a b)"
  by (simp add: xor_bytes_def take_zip take_map)

lemma stream_loop_eq:
  assumes "length n = 8" and "l = length m" and "l + 64 * u \<le> 2 ^ 38"
  shows "stream_loop k n (word_of_nat u) (word_of_nat u) 0 m l =
     (0, xor_bytes m (glo_keystream (glo_state k (replicate 4 0 @ n) (word_of_nat u)) l))"
  using assms(2,3)
proof (induction l arbitrary: m u rule: less_induct)
  case (less l)
  let ?st = "glo_state k (replicate 4 0 @ n) (word_of_nat u)"
  have next_st: "?st[12 := ?st ! 12 + 1] = glo_state k (replicate 4 0 @ n) (word_of_nat (Suc u))"
    by (simp only: glo_state_next) (simp add: add.commute)
  consider "l = 0" | "0 < l" "l < 64" | "64 \<le> l" by linarith
  then show ?case
  proof cases
    case 1
    with less show ?thesis by (simp add: stream_loop.simps xor_bytes_def)
  next
    case 2
    define b where "b = map (\<lambda>j. if j < l then m ! j else 0) [0..<64]"
    have b: "length b = 64" "take l b = m"
      using 2 less.prems by (auto simp: b_def intro: nth_equalityI)
    have "map (\<lambda>j. XORBLOCK ?st b ! j) [0..<l] = take l (XORBLOCK ?st b)"
      using 2 b by (intro nth_equalityI) (auto simp: XORBLOCK_eq)
    also have "\<dots> = xor_bytes m (take l (chacha20_block ?st))"
      using b by (simp add: XORBLOCK_eq xor_bytes_take [symmetric])
    also have "take l (chacha20_block ?st) = glo_keystream ?st l"
      using 2 glo_keystream_rec [of l ?st] by (simp add: glo_keystream_def)
    finally show ?thesis
      using 2 by (simp add: stream_loop.simps tinynacl_state_eq [OF assms(1)] b_def Let_def)
  next
    case 3
    have u: "Suc u < 2 ^ 33" "u < 2 ^ 32" using less.prems 3 by simp_all
    have u1: "(word_of_nat u + 1 :: u64) = word_of_nat (Suc u)" by simp
    have nz: "(word_of_nat (Suc u) :: u64) \<noteq> 0"
      using u(1) by (simp add: word_of_nat_eq_0_iff nat_dvd_not_less del: of_nat_Suc)
    have m: "m = take 64 m @ drop 64 m" by simp
    have out: "xor_bytes m (glo_keystream ?st l) = XORBLOCK ?st m @
        xor_bytes (drop 64 m) (glo_keystream (glo_state k (replicate 4 0 @ n) (word_of_nat (Suc u))) (l - 64))"
    proof -
      have "glo_keystream ?st l = chacha20_block ?st @
          glo_keystream (glo_state k (replicate 4 0 @ n) (word_of_nat (Suc u))) (l - 64)"
        using 3 glo_keystream_rec [of l ?st] unfolding next_st by simp
      then show ?thesis
        using 3 less.prems m
          xor_bytes_append [of "take 64 m" "chacha20_block ?st" "drop 64 m"
            "glo_keystream (glo_state k (replicate 4 0 @ n) (word_of_nat (Suc u))) (l - 64)"]
        by (simp add: XORBLOCK_eq del: of_nat_Suc)
    qed
    show ?thesis
    proof (cases "l = 64")
      case True
      then have "stream_loop k n v a b (drop 64 m) (l - 64) = (0, [])" for v a b
        by (simp add: stream_loop.simps)
      then show ?thesis
        using 3 True nz out u1 less.prems
        by (subst stream_loop.simps)
          (simp add: tinynacl_state_eq [OF assms(1)] Let_def xor_bytes_def del: of_nat_Suc)
    next
      case False
      have "stream_loop k n (word_of_nat (Suc u)) (word_of_nat (Suc u)) 0 (drop 64 m) (l - 64) =
          (0, xor_bytes (drop 64 m) (glo_keystream (glo_state k (replicate 4 0 @ n) (word_of_nat (Suc u))) (l - 64)))"
        using 3 less.prems by (intro less.IH) auto
      moreover have "Suc u < 2 ^ 32" using 3 False less.prems by simp
      ultimately show ?thesis
        using 3 nz u1 out by (subst stream_loop.simps)
          (simp only: Let_def u1 counter_words tinynacl_state_eq [OF assms(1)] if_True if_False split_conv)
    qed
  qed
qed

lemma tinynacl_xor_glo:
  assumes "length n = 8" and "length m \<le> 2 ^ 38"
  shows "crypto_stream_chacha20_xor m (length m) n k =
     (0, glo_chacha20_xor (Some m) (length m) k (replicate 4 0 @ n) 0)"
  using stream_loop_eq [OF assms(1) refl, of m 0 k] assms(2)
  by (auto simp: crypto_stream_chacha20_xor_def glo_chacha20_xor_eq xor_bytes_def)

lemma tinynacl_xor_involution:
  assumes "length n = 8" and "length m \<le> 2 ^ 38"
  shows "snd (crypto_stream_chacha20_xor (snd (crypto_stream_chacha20_xor m (length m) n k)) (length m) n k) = m"
  using tinynacl_xor_glo [OF assms] assms
    tinynacl_xor_glo [OF assms(1), of "glo_chacha20_xor (Some m) (length m) k (replicate 4 0 @ n) 0"]
    glo_chacha20_xor_involution [of m k "replicate 4 0 @ n" 0]
  by (simp add: glo_chacha20_xor_length)

section \<open>The interface of a stream cipher\<close>

text \<open>
  What the callers of a stream cipher rely on: for the keys and messages in its range (\<open>ok\<close>) it
  keeps the length and undoes itself. The lemmas are what the authenticated constructions use.
\<close>

locale stream_cipher =
  fixes ok :: "'k \<Rightarrow> nat \<Rightarrow> bool" and enc :: "'k \<Rightarrow> bytes \<Rightarrow> bytes"
  assumes enc_length: "ok k (length m) \<Longrightarrow> length (enc k m) = length m"
    and enc_enc: "ok k (length m) \<Longrightarrow> enc k (enc k m) = m"
begin

lemma enc_inject:
  "ok k (length m) \<Longrightarrow> ok k (length m') \<Longrightarrow> enc k m = enc k m' \<longleftrightarrow> m = m'"
  by (metis enc_enc)

lemma enc_swap:
  assumes "ok k (length m)" and "ok k (length c)"
  shows "enc k m = c \<longleftrightarrow> m = enc k c"
  using assms enc_enc by metis

end

definition glo_enc :: "bytes \<times> bytes \<times> u32 \<Rightarrow> bytes \<Rightarrow> bytes" where
  "glo_enc k m = (case k of (key, nonce, c) \<Rightarrow> glo_chacha20_xor (Some m) (length m) key nonce c)"

interpretation glo: stream_cipher "\<lambda>k n. True" glo_enc
  by standard (auto simp: glo_enc_def glo_chacha20_xor_length glo_chacha20_xor_involution split: prod.split)

definition tinynacl_enc :: "bytes \<times> bytes \<Rightarrow> bytes \<Rightarrow> bytes" where
  "tinynacl_enc k m = (case k of (key, nonce) \<Rightarrow> snd (crypto_stream_chacha20_xor m (length m) nonce key))"

interpretation tinynacl: stream_cipher "\<lambda>k n. length (snd k) = 8 \<and> n \<le> 2 ^ 38" tinynacl_enc
proof
  fix k :: "bytes \<times> bytes" and m :: bytes
  assume ok: "length (snd k) = 8 \<and> length m \<le> 2 ^ 38"
  obtain key n where k: "k = (key, n)" by (cases k)
  have len: "length (snd (crypto_stream_chacha20_xor m (length m) n key)) = length m"
    using ok k by (simp add: tinynacl_xor_glo glo_chacha20_xor_length)
  then show "length (tinynacl_enc k m) = length m" by (simp add: tinynacl_enc_def k)
  show "tinynacl_enc k (tinynacl_enc k m) = m"
    using ok tinynacl_xor_involution [of n m key] by (simp add: tinynacl_enc_def k len)
qed

section \<open>Properties\<close>

text \<open>
  C24. The two ChaCha20 implementations of the tree compute the same function: tinynacl's word-wise
  XOR with a 64-bit block counter equals the byte-wise XOR of glo_chacha20.c with a 32-bit
  counter, for the nonce with four zero bytes in front, for every key, nonce and message of up to
  \<open>2 ^ 38\<close> bytes, where the 32-bit counter ends.
\<close>

theorem chacha20_implementations_agree:
  assumes "length n = 8" and "length m \<le> 2 ^ 38"
  shows "crypto_stream_chacha20_xor m (length m) n k =
    (0, glo_chacha20_xor (Some m) (length m) k (replicate 4 0 @ n) 0)"
  using assms by (rule tinynacl_xor_glo)

theorem chacha20_implementations_agree_witness:
  "crypto_stream_chacha20_xor (replicate 100 7) 100 (replicate 8 1) (replicate 32 2) =
    (0, glo_chacha20_xor (Some (replicate 100 7)) 100 (replicate 32 2) (replicate 4 0 @ replicate 8 1) 0)"
  using chacha20_implementations_agree [of "replicate 8 1" "replicate 100 7"] by simp

text \<open>
  ChaCha20 is an additive stream cipher: the output has the length of the input, is the input
  XORed with a keystream that does not depend on it, the keystream is what the null input yields,
  and a second application restores the input.
\<close>

theorem glo_chacha20_stream_cipher:
  "length (glo_chacha20_xor (Some m) (length m) key nonce c) = length m \<and>
   glo_chacha20_xor (Some m) (length m) key nonce c =
     map2 (XOR) m (glo_chacha20_xor None (length m) key nonce c) \<and>
   glo_chacha20_xor (Some (glo_chacha20_xor (Some m) (length m) key nonce c)) (length m) key nonce c = m"
proof -
  have "glo_chacha20_xor None (length m) key nonce c = glo_keystream (glo_state key nonce c) (length m)"
    by (simp add: glo_chacha20_xor_def glo_state_def glo_keystream_def Let_def)
  then show ?thesis
    by (simp add: glo_chacha20_xor_involution)
      (simp add: glo_chacha20_xor_eq xor_bytes_def)
qed

end
