(* ===== verification/Poly1305.thy ===== *)
theory Poly1305
  imports Bytes
begin

text \<open>
  crypto_onetimeauth_poly1305.c: the one-time authenticator on 26-bit limbs. \<open>unsigned long\<close> is
  32 bits wide on the target, so limbs are \<open>u32\<close> and products \<open>u64\<close>; every place where the code
  relies on a sum or product fitting its width is proved. A state of five limbs is a quintuple.
\<close>

type_synonym limbs = "u32 \<times> u32 \<times> u32 \<times> u32 \<times> u32"

section \<open>The code\<close>

definition unpack :: "bytes \<Rightarrow> nat \<Rightarrow> u32" where
  "unpack x i = ucast (x ! i) OR push_bit 8 (ucast (x ! (i + 1))) OR
     push_bit 16 (ucast (x ! (i + 2))) OR push_bit 24 (ucast (x ! (i + 3)))"

definition pack :: "u32 \<Rightarrow> bytes" where
  "pack u = pack_le 4 u"

definition poly_r :: "bytes \<Rightarrow> limbs" where
  "poly_r k =
     (unpack k 0 AND 0x3ffffff,
      drop_bit 2 (unpack k 3) AND 0x3ffff03,
      drop_bit 4 (unpack k 6) AND 0x3ffc0ff,
      drop_bit 6 (unpack k 9) AND 0x3f03fff,
      drop_bit 8 (unpack k 12) AND 0x00fffff)"

text \<open>\<open>h += m[i]\<close>: a whole block with the bit \<open>2 ^ 128\<close>, or the last one with a 1 byte behind it.\<close>

definition poly_add :: "limbs \<Rightarrow> bytes \<Rightarrow> nat \<Rightarrow> limbs" where
  "poly_add h m n =
     (case h of (h0, h1, h2, h3, h4) \<Rightarrow>
        if n \<ge> 16
        then (h0 + (unpack m 0 AND 0x3ffffff),
              h1 + (drop_bit 2 (unpack m 3) AND 0x3ffffff),
              h2 + (drop_bit 4 (unpack m 6) AND 0x3ffffff),
              h3 + (drop_bit 6 (unpack m 9) AND 0x3ffffff),
              h4 + (drop_bit 8 (unpack m 12) OR 16777216))
        else let mm = map (\<lambda>i. if i < n then m ! i else 0) [0..<16]; mm = mm[n := 1]
             in (h0 + (unpack mm 0 AND 0x3ffffff),
                 h1 + (drop_bit 2 (unpack mm 3) AND 0x3ffffff),
                 h2 + (drop_bit 4 (unpack mm 6) AND 0x3ffffff),
                 h3 + (drop_bit 6 (unpack mm 9) AND 0x3ffffff),
                 h4 + drop_bit 8 (unpack mm 12)))"

text \<open>\<open>h *= r\<close> into five 64-bit sums, then the partial reduction.\<close>

definition poly_mul :: "limbs \<Rightarrow> limbs \<Rightarrow> u64 \<times> u64 \<times> u64 \<times> u64 \<times> u64" where
  "poly_mul h r =
     (case h of (h0, h1, h2, h3, h4) \<Rightarrow> case r of (r0, r1, r2, r3, r4) \<Rightarrow>
        let s1 = r1 * 5; s2 = r2 * 5; s3 = r3 * 5; s4 = r4 * 5
        in (ucast h0 * ucast r0 + ucast h1 * ucast s4 + ucast h2 * ucast s3 + ucast h3 * ucast s2 + ucast h4 * ucast s1,
            ucast h0 * ucast r1 + ucast h1 * ucast r0 + ucast h2 * ucast s4 + ucast h3 * ucast s3 + ucast h4 * ucast s2,
            ucast h0 * ucast r2 + ucast h1 * ucast r1 + ucast h2 * ucast r0 + ucast h3 * ucast s4 + ucast h4 * ucast s3,
            ucast h0 * ucast r3 + ucast h1 * ucast r2 + ucast h2 * ucast r1 + ucast h3 * ucast r0 + ucast h4 * ucast s4,
            ucast h0 * ucast r4 + ucast h1 * ucast r3 + ucast h2 * ucast r2 + ucast h3 * ucast r1 + ucast h4 * ucast r0))"

definition poly_carry :: "u64 \<times> u64 \<times> u64 \<times> u64 \<times> u64 \<Rightarrow> limbs" where
  "poly_carry d =
     (case d of (d0, d1, d2, d3, d4) \<Rightarrow>
        let c = ucast (drop_bit 26 d0) :: u32; h0 = ucast d0 AND 0x3ffffff :: u32;
            d1 = d1 + ucast c; c = ucast (drop_bit 26 d1) :: u32; h1 = ucast d1 AND 0x3ffffff;
            d2 = d2 + ucast c; c = ucast (drop_bit 26 d2) :: u32; h2 = ucast d2 AND 0x3ffffff;
            d3 = d3 + ucast c; c = ucast (drop_bit 26 d3) :: u32; h3 = ucast d3 AND 0x3ffffff;
            d4 = d4 + ucast c; c = ucast (drop_bit 26 d4) :: u32; h4 = ucast d4 AND 0x3ffffff;
            h0 = h0 + c * 5; c = drop_bit 26 h0; h0 = h0 AND 0x3ffffff;
            h1 = h1 + c
        in (h0, h1, h2, h3, h4))"

function poly_loop :: "limbs \<Rightarrow> limbs \<Rightarrow> bytes \<Rightarrow> int \<Rightarrow> limbs" where
  "poly_loop r h m n =
     (if n > 0 then poly_loop r (poly_carry (poly_mul (poly_add h m (nat n)) r)) (drop 16 m) (n - 16)
      else h)"
  by pat_completeness auto
termination by (relation "measure (\<lambda>(r, h, m, n). nat n)") auto

declare poly_loop.simps [simp del]

definition poly_full_carry :: "limbs \<Rightarrow> limbs" where
  "poly_full_carry h =
     (case h of (h0, h1, h2, h3, h4) \<Rightarrow>
        let c = drop_bit 26 h1; h1 = h1 AND 0x3ffffff;
            h2 = h2 + c; c = drop_bit 26 h2; h2 = h2 AND 0x3ffffff;
            h3 = h3 + c; c = drop_bit 26 h3; h3 = h3 AND 0x3ffffff;
            h4 = h4 + c; c = drop_bit 26 h4; h4 = h4 AND 0x3ffffff;
            h0 = h0 + c * 5; c = drop_bit 26 h0; h0 = h0 AND 0x3ffffff;
            h1 = h1 + c
        in (h0, h1, h2, h3, h4))"

text \<open>\<open>h\<close> if \<open>h < p\<close>, else \<open>h - p\<close>, selected by a mask.\<close>

definition poly_select :: "limbs \<Rightarrow> limbs" where
  "poly_select h =
     (case h of (h0, h1, h2, h3, h4) \<Rightarrow>
        let r0 = h0 + 5; c = drop_bit 26 r0; r0 = r0 AND 0x3ffffff;
            r1 = h1 + c; c = drop_bit 26 r1; r1 = r1 AND 0x3ffffff;
            r2 = h2 + c; c = drop_bit 26 r2; r2 = r2 AND 0x3ffffff;
            r3 = h3 + c; c = drop_bit 26 r3; r3 = r3 AND 0x3ffffff;
            r4 = h4 + c - push_bit 26 1;
            msk = drop_bit 31 r4 - 1;
            r0 = r0 AND msk; r1 = r1 AND msk; r2 = r2 AND msk; r3 = r3 AND msk; r4 = r4 AND msk;
            msk = NOT msk
        in ((h0 AND msk) OR r0, (h1 AND msk) OR r1, (h2 AND msk) OR r2, (h3 AND msk) OR r3, (h4 AND msk) OR r4))"

definition poly_finish :: "limbs \<Rightarrow> bytes \<Rightarrow> bytes" where
  "poly_finish h k =
     (case h of (h0, h1, h2, h3, h4) \<Rightarrow>
        let h0 = (h0 OR push_bit 26 h1) AND 0xffffffff;
            h1 = (drop_bit 6 h1 OR push_bit 20 h2) AND 0xffffffff;
            h2 = (drop_bit 12 h2 OR push_bit 14 h3) AND 0xffffffff;
            h3 = (drop_bit 18 h3 OR push_bit 8 h4) AND 0xffffffff;
            f = ucast h0 + ucast (unpack k 16) :: u64; h0 = ucast f;
            f = ucast h1 + ucast (unpack k 20) + drop_bit 32 f; h1 = ucast f;
            f = ucast h2 + ucast (unpack k 24) + drop_bit 32 f; h2 = ucast f;
            f = ucast h3 + ucast (unpack k 28) + drop_bit 32 f; h3 = ucast f
        in pack h0 @ pack h1 @ pack h2 @ pack h3)"

definition crypto_onetimeauth_poly1305 :: "bytes \<Rightarrow> nat \<Rightarrow> bytes \<Rightarrow> bytes" where
  "crypto_onetimeauth_poly1305 m n k =
     poly_finish (poly_select (poly_full_carry (poly_loop (poly_r k) (0, 0, 0, 0, 0) m (int n)))) k"

definition crypto_onetimeauth_poly1305_verify :: "bytes \<Rightarrow> bytes \<Rightarrow> nat \<Rightarrow> bytes \<Rightarrow> int" where
  "crypto_onetimeauth_poly1305_verify h inp l k =
     (let correct = crypto_onetimeauth_poly1305 inp l k;
          d = verify_diff 0 (map (\<lambda>i. (correct ! i, h ! i)) [0..<16])
      in uint (1 AND drop_bit 8 (d - 1)) - 1)"

section \<open>The specification\<close>

text \<open>
  RFC 8439, section 2.5: the blocks of the message, each with a 1 byte behind it, are the
  coefficients of a polynomial evaluated at \<open>r\<close> modulo \<open>2 ^ 130 - 5\<close>; the tag is that plus \<open>s\<close>
  modulo \<open>2 ^ 128\<close>.
\<close>

definition poly_p :: nat where
  "poly_p = 2 ^ 130 - 5"

definition poly_clamp :: nat where
  "poly_clamp = 0x0ffffffc0ffffffc0ffffffc0fffffff"

function poly_spec_loop :: "nat \<Rightarrow> nat \<Rightarrow> bytes \<Rightarrow> nat" where
  "poly_spec_loop r a m =
     (if m = [] then a
      else poly_spec_loop r ((a + le_nat (take 16 m @ [1])) * r mod poly_p) (drop 16 m))"
  by pat_completeness auto
termination by (relation "measure (\<lambda>(r, a, m). length m)") auto

declare poly_spec_loop.simps [simp del]

definition poly1305_spec :: "bytes \<Rightarrow> bytes \<Rightarrow> bytes" where
  "poly1305_spec m k =
     (let r = le_nat (take 16 k) AND poly_clamp; s = le_nat (take 16 (drop 16 k))
      in le_bytes 16 (poly_spec_loop r 0 m + s))"

section \<open>Limbs as numbers\<close>

definition limb_val :: "limbs \<Rightarrow> nat" where
  "limb_val h = (case h of (h0, h1, h2, h3, h4) \<Rightarrow>
     unat h0 + 2 ^ 26 * unat h1 + 2 ^ 52 * unat h2 + 2 ^ 78 * unat h3 + 2 ^ 104 * unat h4)"

lemma unat_and26: "unat (w AND 0x3ffffff :: u32) = unat w mod 2 ^ 26"
proof -
  have "(0x3ffffff :: u32) = mask 26" by (simp add: mask_eq_exp_minus_1)
  then show ?thesis by (simp only: unat_and_mask)
qed

lemma unat_ucast26: "unat (ucast (d :: u64) AND 0x3ffffff :: u32) = unat d mod 2 ^ 26"
proof -
  have "unat (ucast d :: u32) = unat d mod 2 ^ 32"
    by (simp add: unsigned_ucast_eq unsigned_take_bit_eq take_bit_eq_mod)
  then show ?thesis by (simp add: unat_and26 mod_mod_cancel)
qed

lemma unat_or_bit24: "unat (drop_bit 8 w OR 16777216 :: u32) = unat w div 2 ^ 8 + 2 ^ 24"
proof -
  have b: "(16777216 :: u32) = push_bit 24 1" by simp
  have bits: "bit (16777216 :: u32) n \<longleftrightarrow> n = 24" for n
    unfolding b bit_push_bit_iff bit_1_iff by auto
  have "drop_bit 8 w OR 16777216 = drop_bit 8 w + 16777216"
  proof (rule disjunctive_add [symmetric])
    fix n
    show "\<not> bit (drop_bit 8 w) n \<or> \<not> bit (16777216 :: u32) n"
      unfolding bits by (auto simp: bit_drop_bit_eq dest: bit_imp_le_length)
  qed
  moreover have "unat (drop_bit 8 w) < 2 ^ 24"
    using unsigned_less [of w, where 'a = nat] by (simp add: unat_drop_bit less_mult_imp_div_less)
  ultimately show ?thesis
    by (simp add: unat_nowrap unat_drop_bit)
qed

lemma unat_unpack:
  assumes "i + 4 \<le> 16" and "16 \<le> length x"
  shows "unat (unpack x i) = le_nat (take 16 x) div 2 ^ (8 * i) mod 2 ^ 32"
proof -
  have "take 4 (drop i x) = [x ! i, x ! (i + 1), x ! (i + 2), x ! (i + 3)]"
    using assms by (intro nth_equalityI) (auto simp: nth_Cons eval_nat_numeral less_Suc_eq split: nat.splits)
  then have "unpack x i = unpack_le (take 4 (drop i x))"
    by (simp only: unpack_def unpack_le_4 or.assoc)
  then have "unat (unpack x i) = le_nat (take 4 (drop i x))"
    by (simp add: unat_unpack_le)
  also have "take 4 (drop i x) = take 4 (drop i (take 16 x))"
    using assms by (simp add: drop_take min_def)
  also have "le_nat \<dots> = le_nat (take 16 x) div 2 ^ (8 * i) mod 2 ^ (8 * 4)"
    using assms by (intro le_nat_take_drop) simp
  finally show ?thesis by simp
qed

lemma div_mod_window:
  "b + c \<le> 32 \<Longrightarrow> (N div 2 ^ a mod 2 ^ 32) div 2 ^ b mod 2 ^ c = (N :: nat) div 2 ^ (a + b) mod 2 ^ c"
  unfolding take_bit_eq_mod [symmetric] drop_bit_eq_div [symmetric]
  by (rule bit_eqI) (auto simp: bit_simps ac_simps)

lemma window26:
  assumes "16 \<le> length x"
  shows "unat (unpack x 0 AND 0x3ffffff) = le_nat (take 16 x) mod 2 ^ 26"
    and "unat (drop_bit 2 (unpack x 3) AND 0x3ffffff) = le_nat (take 16 x) div 2 ^ 26 mod 2 ^ 26"
    and "unat (drop_bit 4 (unpack x 6) AND 0x3ffffff) = le_nat (take 16 x) div 2 ^ 52 mod 2 ^ 26"
    and "unat (drop_bit 6 (unpack x 9) AND 0x3ffffff) = le_nat (take 16 x) div 2 ^ 78 mod 2 ^ 26"
    and "unat (drop_bit 8 (unpack x 12)) = le_nat (take 16 x) div 2 ^ 104"
proof -
  show "unat (unpack x 0 AND 0x3ffffff) = le_nat (take 16 x) mod 2 ^ 26"
    using div_mod_window [of 0 26 "le_nat (take 16 x)" 0] assms by (simp add: unat_and26 unat_unpack)
  show "unat (drop_bit 2 (unpack x 3) AND 0x3ffffff) = le_nat (take 16 x) div 2 ^ 26 mod 2 ^ 26"
    using div_mod_window [of 2 26 "le_nat (take 16 x)" 24] assms
    by (simp add: unat_and26 unat_unpack unat_drop_bit)
  show "unat (drop_bit 4 (unpack x 6) AND 0x3ffffff) = le_nat (take 16 x) div 2 ^ 52 mod 2 ^ 26"
    using div_mod_window [of 4 26 "le_nat (take 16 x)" 48] assms
    by (simp add: unat_and26 unat_unpack unat_drop_bit)
  show "unat (drop_bit 6 (unpack x 9) AND 0x3ffffff) = le_nat (take 16 x) div 2 ^ 78 mod 2 ^ 26"
    using div_mod_window [of 6 26 "le_nat (take 16 x)" 72] assms
    by (simp add: unat_and26 unat_unpack unat_drop_bit)
  have "le_nat (take 16 x) < 2 ^ 128" using le_nat_lt [of "take 16 x"] assms by (simp add: min_absorb2)
  then have "le_nat (take 16 x) div 2 ^ 96 < 2 ^ 32"
    by (simp add: less_mult_imp_div_less)
  then show "unat (drop_bit 8 (unpack x 12)) = le_nat (take 16 x) div 2 ^ 104"
    using assms by (simp add: unat_unpack unat_drop_bit div_mult2_eq [symmetric])
qed

lemma horner5:
  "(N :: nat) = r0 + 2 ^ 26 * a \<Longrightarrow> a = r1 + 2 ^ 26 * b \<Longrightarrow> b = r2 + 2 ^ 26 * c \<Longrightarrow> c = r3 + 2 ^ 26 * d \<Longrightarrow>
   N = r0 + 2 ^ 26 * r1 + 2 ^ 52 * r2 + 2 ^ 78 * r3 + 2 ^ 104 * d"
  by simp

lemma limbs_of:
  "(N :: nat) = N mod 2 ^ 26 + 2 ^ 26 * (N div 2 ^ 26 mod 2 ^ 26) + 2 ^ 52 * (N div 2 ^ 52 mod 2 ^ 26) +
     2 ^ 78 * (N div 2 ^ 78 mod 2 ^ 26) + 2 ^ 104 * (N div 2 ^ 104)"
proof (rule horner5 [of _ _ "N div 2 ^ 26" _ "N div 2 ^ 52" _ "N div 2 ^ 78"])
  have step: "M = M mod 2 ^ 26 + 2 ^ 26 * (M div 2 ^ 26)" for M :: nat by simp
  have d: "N div 2 ^ 26 div 2 ^ 26 = N div 2 ^ 52" "N div 2 ^ 52 div 2 ^ 26 = N div 2 ^ 78"
    "N div 2 ^ 78 div 2 ^ 26 = N div 2 ^ 104"
    by (simp_all add: div_mult2_eq [symmetric])
  show "N = N mod 2 ^ 26 + 2 ^ 26 * (N div 2 ^ 26)" by (rule step)
  show "N div 2 ^ 26 = N div 2 ^ 26 mod 2 ^ 26 + 2 ^ 26 * (N div 2 ^ 52)"
    unfolding d(1) [symmetric] by (rule step)
  show "N div 2 ^ 52 = N div 2 ^ 52 mod 2 ^ 26 + 2 ^ 26 * (N div 2 ^ 78)"
    unfolding d(2) [symmetric] by (rule step)
  show "N div 2 ^ 78 = N div 2 ^ 78 mod 2 ^ 26 + 2 ^ 26 * (N div 2 ^ 104)"
    unfolding d(3) [symmetric] by (rule step)
qed

text \<open>The limbs after a carry: below \<open>2 ^ 26\<close>, the second one by up to 64 larger.\<close>

definition limbs_carried :: "limbs \<Rightarrow> bool" where
  "limbs_carried h = (case h of (h0, h1, h2, h3, h4) \<Rightarrow>
     unat h0 < 2 ^ 26 \<and> unat h1 < 2 ^ 26 + 64 \<and> unat h2 < 2 ^ 26 \<and> unat h3 < 2 ^ 26 \<and> unat h4 < 2 ^ 26)"

text \<open>Adding a block: every limb grows by less than \<open>2 ^ 26\<close>, the top one by less than \<open>2 ^ 25\<close>.\<close>

definition limbs_le :: "limbs \<Rightarrow> nat \<Rightarrow> nat \<Rightarrow> bool" where
  "limbs_le h a b = (case h of (h0, h1, h2, h3, h4) \<Rightarrow>
     unat h0 \<le> a \<and> unat h1 \<le> a \<and> unat h2 \<le> a \<and> unat h3 \<le> a \<and> unat h4 \<le> b)"

lemma limbs_carried_le: "limbs_carried h \<Longrightarrow> limbs_le h (2 ^ 26 + 64) (2 ^ 26)"
  by (cases h) (simp add: limbs_carried_def limbs_le_def)

lemma limbs_add:
  "(N :: nat) = a0 + 2 ^ 26 * a1 + 2 ^ 52 * a2 + 2 ^ 78 * a3 + 2 ^ 104 * q \<Longrightarrow>
   (x0 + a0) + 2 ^ 26 * (x1 + a1) + 2 ^ 52 * (x2 + a2) + 2 ^ 78 * (x3 + a3) + 2 ^ 104 * (x4 + (q + t)) =
   (x0 + 2 ^ 26 * x1 + 2 ^ 52 * x2 + 2 ^ 78 * x3 + 2 ^ 104 * x4) + (N + 2 ^ 104 * t)"
  by simp

lemma add_limb:
  assumes "unat (a :: u32) \<le> 2 ^ 26 + 64" and "unat b = v mod 2 ^ 26"
  shows "unat (a + b) = unat a + v mod 2 ^ 26" and "unat a + v mod 2 ^ 26 \<le> 2 ^ 27 + 64"
proof -
  have "v mod 2 ^ 26 < 2 ^ 26" by simp
  from add_mono [OF assms(1) less_imp_le [OF this]]
  have le: "unat a + v mod 2 ^ 26 \<le> 2 ^ 27 + 64" by simp
  then show "unat a + v mod 2 ^ 26 \<le> 2 ^ 27 + 64" .
  have "unat a + unat b < 2 ^ LENGTH(32)"
    unfolding assms(2) by (rule le_less_trans [OF le]) simp
  then show "unat (a + b) = unat a + v mod 2 ^ 26"
    using assms(2) by (simp only: unat_add_fits)
qed

lemma poly_add_block:
  assumes "length x = 16" and "T < 2 ^ 25" and "limbs_le h (2 ^ 26 + 64) (2 ^ 26)"
    and "unat t = T" and "T = le_nat x div 2 ^ 104 + T'"
    and h': "h' = (case h of (h0, h1, h2, h3, h4) \<Rightarrow>
          (h0 + (unpack x 0 AND 0x3ffffff), h1 + (drop_bit 2 (unpack x 3) AND 0x3ffffff),
           h2 + (drop_bit 4 (unpack x 6) AND 0x3ffffff), h3 + (drop_bit 6 (unpack x 9) AND 0x3ffffff),
           h4 + t))"
  shows "limb_val h' = limb_val h + (le_nat x + 2 ^ 104 * T')"
    and "limbs_le h' (2 ^ 27 + 64) (2 ^ 27)"
proof -
  obtain h0 h1 h2 h3 h4 where h: "h = (h0, h1, h2, h3, h4)" by (cases h)
  note b = assms(3) [unfolded limbs_le_def h prod.case]
  have w: "unat (unpack x 0 AND 0x3ffffff) = le_nat x mod 2 ^ 26"
    "unat (drop_bit 2 (unpack x 3) AND 0x3ffffff) = le_nat x div 2 ^ 26 mod 2 ^ 26"
    "unat (drop_bit 4 (unpack x 6) AND 0x3ffffff) = le_nat x div 2 ^ 52 mod 2 ^ 26"
    "unat (drop_bit 6 (unpack x 9) AND 0x3ffffff) = le_nat x div 2 ^ 78 mod 2 ^ 26"
    using window26(1-4) [of x] unfolding take_all [OF eq_refl [OF assms(1)]] assms(1) by blast+
  have b0: "unat h0 \<le> 2 ^ 26 + 64" and b1: "unat h1 \<le> 2 ^ 26 + 64"
    and b2: "unat h2 \<le> 2 ^ 26 + 64" and b3: "unat h3 \<le> 2 ^ 26 + 64"
    using b by blast+
  note s = add_limb(1) [OF b0 w(1)] add_limb(1) [OF b1 w(2)] add_limb(1) [OF b2 w(3)] add_limb(1) [OF b3 w(4)]
  note m = add_limb(2) [OF b0 w(1)] add_limb(2) [OF b1 w(2)] add_limb(2) [OF b2 w(3)] add_limb(2) [OF b3 w(4)]
  have t: "unat (h4 + t) = unat h4 + T"
    using b assms(2,4) by (subst unat_add_fits) simp_all
  show "limb_val h' = limb_val h + (le_nat x + 2 ^ 104 * T')"
    unfolding h' h limb_val_def prod.case s t assms(5) by (rule limbs_add) (rule limbs_of)
  show "limbs_le h' (2 ^ 27 + 64) (2 ^ 27)"
    using b assms(2) m unfolding h' h limbs_le_def prod.case s t by simp
qed

lemma poly_add_eq:
  assumes "m \<noteq> []" and h: "limbs_le h (2 ^ 26 + 64) (2 ^ 26)"
  shows "limb_val (poly_add h m (length m)) = limb_val h + le_nat (take 16 m @ [1])"
    and "limbs_le (poly_add h m (length m)) (2 ^ 27 + 64) (2 ^ 27)"
proof -
  have "limb_val (poly_add h m (length m)) = limb_val h + le_nat (take 16 m @ [1]) \<and>
    limbs_le (poly_add h m (length m)) (2 ^ 27 + 64) (2 ^ 27)"
  proof (cases "16 \<le> length m")
    case True
    define x where "x = take 16 m"
    have x: "length x = 16" "take 16 x = x" using True by (simp_all add: x_def)
    have u: "unpack m i = unpack x i" if "i + 4 \<le> 16" for i
      using that by (simp add: unpack_def x_def)
    have t: "unat (drop_bit 8 (unpack x 12) OR 16777216) = le_nat x div 2 ^ 104 + 2 ^ 24"
      using window26(5) [of x] x by (simp add: unat_or_bit24 unat_drop_bit)
    have lt: "le_nat x div 2 ^ 104 < 2 ^ 24"
      using le_nat_lt [of x] x by (simp add: less_mult_imp_div_less)
    have p: "poly_add h m (length m) = (case h of (h0, h1, h2, h3, h4) \<Rightarrow>
          (h0 + (unpack x 0 AND 0x3ffffff), h1 + (drop_bit 2 (unpack x 3) AND 0x3ffffff),
           h2 + (drop_bit 4 (unpack x 6) AND 0x3ffffff), h3 + (drop_bit 6 (unpack x 9) AND 0x3ffffff),
           h4 + (drop_bit 8 (unpack x 12) OR 16777216)))"
      using True by (cases h) (simp add: poly_add_def u)
    have v: "le_nat (take 16 m @ [1]) = le_nat x + 2 ^ 104 * 2 ^ 24"
      using x by (simp add: le_nat_append x_def [symmetric])
    show ?thesis
      using poly_add_block [OF x(1) _ h t refl p] lt unfolding v by simp
  next
    case False
    define n where "n = length m"
    define x where "x = (map (\<lambda>i. if i < n then m ! i else 0) [0..<16])[n := 1]"
    have n: "n < 16" using False by (simp add: n_def)
    have x: "length x = 16" "take 16 x = x" by (simp_all add: x_def)
    have xe: "x = (m @ [1]) @ replicate (15 - n) 0"
      using n by (intro nth_equalityI) (auto simp: x_def n_def nth_append nth_list_update)
    have t: "unat (drop_bit 8 (unpack x 12)) = le_nat x div 2 ^ 104 + 0"
      using window26(5) [of x] x by simp
    have lt: "le_nat x div 2 ^ 104 < 2 ^ 24"
      using le_nat_lt [of x] x by (simp add: less_mult_imp_div_less)
    have p: "poly_add h m (length m) = (case h of (h0, h1, h2, h3, h4) \<Rightarrow>
          (h0 + (unpack x 0 AND 0x3ffffff), h1 + (drop_bit 2 (unpack x 3) AND 0x3ffffff),
           h2 + (drop_bit 4 (unpack x 6) AND 0x3ffffff), h3 + (drop_bit 6 (unpack x 9) AND 0x3ffffff),
           h4 + drop_bit 8 (unpack x 12)))"
      using n by (cases h) (simp add: poly_add_def x_def n_def Let_def)
    have v: "le_nat (take 16 m @ [1]) = le_nat x + 2 ^ 104 * 0"
      using n by (simp add: n_def xe le_nat_append)
    show ?thesis
      using poly_add_block [OF x(1) _ h t refl p] lt unfolding v by simp
  qed
  then show "limb_val (poly_add h m (length m)) = limb_val h + le_nat (take 16 m @ [1])"
    and "limbs_le (poly_add h m (length m)) (2 ^ 27 + 64) (2 ^ 27)" by blast+
qed

section \<open>Multiplication and reduction\<close>

definition limb_val64 :: "u64 \<times> u64 \<times> u64 \<times> u64 \<times> u64 \<Rightarrow> nat" where
  "limb_val64 d = (case d of (d0, d1, d2, d3, d4) \<Rightarrow>
     unat d0 + 2 ^ 26 * unat d1 + 2 ^ 52 * unat d2 + 2 ^ 78 * unat d3 + 2 ^ 104 * unat d4)"

lemma dot5:
  fixes a0 a1 a2 a3 a4 b0 b1 b2 b3 b4 :: u32
  assumes "unat a0 \<le> A" "unat a1 \<le> A" "unat a2 \<le> A" "unat a3 \<le> A" "unat a4 \<le> A"
    and "unat b0 \<le> B" "unat b1 \<le> B" "unat b2 \<le> B" "unat b3 \<le> B" "unat b4 \<le> B"
    and "5 * (A * B) < 2 ^ 64"
  shows "unat (ucast a0 * ucast b0 + ucast a1 * ucast b1 + ucast a2 * ucast b2 + ucast a3 * ucast b3 + ucast a4 * ucast b4 :: u64) =
      unat a0 * unat b0 + unat a1 * unat b1 + unat a2 * unat b2 + unat a3 * unat b3 + unat a4 * unat b4"
    and "unat a0 * unat b0 + unat a1 * unat b1 + unat a2 * unat b2 + unat a3 * unat b3 + unat a4 * unat b4 \<le> 5 * (A * B)"
proof -
  have p: "unat a0 * unat b0 \<le> A * B" "unat a1 * unat b1 \<le> A * B" "unat a2 * unat b2 \<le> A * B"
    "unat a3 * unat b3 \<le> A * B" "unat a4 * unat b4 \<le> A * B"
    using assms by (simp_all add: mult_le_mono)
  have lt: "5 * (A * B) < 2 ^ LENGTH(64)" using assms(11) by simp
  have u: "unat (ucast a * ucast b :: u64) = unat a * unat b" if "unat a * unat b \<le> A * B" for a b :: u32
  proof -
    have "unat a * unat b < 2 ^ LENGTH(64)" using that lt by linarith
    then show ?thesis by (subst unat_mult_fits) (simp_all add: unat_ucast_up)
  qed
  note uu = u [OF p(1)] u [OF p(2)] u [OF p(3)] u [OF p(4)] u [OF p(5)]
  have s2: "unat (ucast a0 * ucast b0 + ucast a1 * ucast b1 :: u64) = unat a0 * unat b0 + unat a1 * unat b1"
    using p lt by (subst unat_add_fits; simp only: uu)
  have s3: "unat (ucast a0 * ucast b0 + ucast a1 * ucast b1 + ucast a2 * ucast b2 :: u64) =
      unat a0 * unat b0 + unat a1 * unat b1 + unat a2 * unat b2"
    using p lt by (subst unat_add_fits; simp only: uu s2)
  have s4: "unat (ucast a0 * ucast b0 + ucast a1 * ucast b1 + ucast a2 * ucast b2 + ucast a3 * ucast b3 :: u64) =
      unat a0 * unat b0 + unat a1 * unat b1 + unat a2 * unat b2 + unat a3 * unat b3"
    using p lt by (subst unat_add_fits; simp only: uu s3)
  show "unat (ucast a0 * ucast b0 + ucast a1 * ucast b1 + ucast a2 * ucast b2 + ucast a3 * ucast b3 + ucast a4 * ucast b4 :: u64) =
      unat a0 * unat b0 + unat a1 * unat b1 + unat a2 * unat b2 + unat a3 * unat b3 + unat a4 * unat b4"
    using p lt by (subst unat_add_fits; simp only: uu s4)
  show "unat a0 * unat b0 + unat a1 * unat b1 + unat a2 * unat b2 + unat a3 * unat b3 + unat a4 * unat b4 \<le> 5 * (A * B)"
    using p by linarith
qed

lemma limb_product:
  fixes h0 h1 h2 h3 h4 r0 r1 r2 r3 r4 P :: nat
  assumes "P + 5 = 2 ^ 130"
  defines "K \<equiv> (h1 * r4 + h2 * r3 + h3 * r2 + h4 * r1) + 2 ^ 26 * (h2 * r4 + h3 * r3 + h4 * r2) +
      2 ^ 52 * (h3 * r4 + h4 * r3) + 2 ^ 78 * (h4 * r4)"
  shows "(h0 + 2 ^ 26 * h1 + 2 ^ 52 * h2 + 2 ^ 78 * h3 + 2 ^ 104 * h4) *
      (r0 + 2 ^ 26 * r1 + 2 ^ 52 * r2 + 2 ^ 78 * r3 + 2 ^ 104 * r4) =
    (h0 * r0 + h1 * (5 * r4) + h2 * (5 * r3) + h3 * (5 * r2) + h4 * (5 * r1)) +
    2 ^ 26 * (h0 * r1 + h1 * r0 + h2 * (5 * r4) + h3 * (5 * r3) + h4 * (5 * r2)) +
    2 ^ 52 * (h0 * r2 + h1 * r1 + h2 * r0 + h3 * (5 * r4) + h4 * (5 * r3)) +
    2 ^ 78 * (h0 * r3 + h1 * r2 + h2 * r1 + h3 * r0 + h4 * (5 * r4)) +
    2 ^ 104 * (h0 * r4 + h1 * r3 + h2 * r2 + h3 * r1 + h4 * r0) + K * P"
proof -
  define L where "L = h0 * r0 + 2 ^ 26 * (h0 * r1 + h1 * r0) + 2 ^ 52 * (h0 * r2 + h1 * r1 + h2 * r0) +
      2 ^ 78 * (h0 * r3 + h1 * r2 + h2 * r1 + h3 * r0) +
      2 ^ 104 * (h0 * r4 + h1 * r3 + h2 * r2 + h3 * r1 + h4 * r0)"
  have "(h0 + 2 ^ 26 * h1 + 2 ^ 52 * h2 + 2 ^ 78 * h3 + 2 ^ 104 * h4) *
      (r0 + 2 ^ 26 * r1 + 2 ^ 52 * r2 + 2 ^ 78 * r3 + 2 ^ 104 * r4) = L + K * 2 ^ 130"
    by (simp add: L_def K_def algebra_simps)
  also have "K * 2 ^ 130 = K * P + 5 * K"
    by (simp only: assms(1) [symmetric]) (simp add: algebra_simps)
  also have "L + (K * P + 5 * K) =
    (h0 * r0 + h1 * (5 * r4) + h2 * (5 * r3) + h3 * (5 * r2) + h4 * (5 * r1)) +
    2 ^ 26 * (h0 * r1 + h1 * r0 + h2 * (5 * r4) + h3 * (5 * r3) + h4 * (5 * r2)) +
    2 ^ 52 * (h0 * r2 + h1 * r1 + h2 * r0 + h3 * (5 * r4) + h4 * (5 * r3)) +
    2 ^ 78 * (h0 * r3 + h1 * r2 + h2 * r1 + h3 * r0 + h4 * (5 * r4)) +
    2 ^ 104 * (h0 * r4 + h1 * r3 + h2 * r2 + h3 * r1 + h4 * r0) + K * P"
  proof -
    define KP where "KP = K * P"
    show ?thesis unfolding KP_def [symmetric] by (simp add: L_def K_def algebra_simps)
  qed
  finally show ?thesis .
qed

lemma poly_p_5: "poly_p + 5 = 2 ^ 130"
  by (simp add: poly_p_def)

lemma poly_mul_eq:
  assumes h: "limbs_le h (2 ^ 27 + 64) (2 ^ 27)" and r: "limbs_le r (2 ^ 26 - 1) (2 ^ 26 - 1)"
  shows "limb_val64 (poly_mul h r) mod poly_p = limb_val h * limb_val r mod poly_p"
    and "case poly_mul h r of (d0, d1, d2, d3, d4) \<Rightarrow>
      unat d0 \<le> 25 * 2 ^ 26 * (2 ^ 27 + 64) \<and> unat d1 \<le> 25 * 2 ^ 26 * (2 ^ 27 + 64) \<and>
      unat d2 \<le> 25 * 2 ^ 26 * (2 ^ 27 + 64) \<and> unat d3 \<le> 25 * 2 ^ 26 * (2 ^ 27 + 64) \<and>
      unat d4 \<le> 5 * 2 ^ 26 * (2 ^ 27 + 64)"
proof -
  obtain h0 h1 h2 h3 h4 where hh: "h = (h0, h1, h2, h3, h4)" by (cases h)
  obtain r0 r1 r2 r3 r4 where rr: "r = (r0, r1, r2, r3, r4)" by (cases r)
  let ?A = "2 ^ 27 + 64 :: nat" and ?B = "5 * 2 ^ 26 :: nat"
  have hb: "unat h0 \<le> ?A" "unat h1 \<le> ?A" "unat h2 \<le> ?A" "unat h3 \<le> ?A" "unat h4 \<le> ?A"
    using h by (simp_all add: limbs_le_def hh)
  have rb: "unat r0 \<le> 2 ^ 26" "unat r1 \<le> 2 ^ 26" "unat r2 \<le> 2 ^ 26" "unat r3 \<le> 2 ^ 26" "unat r4 \<le> 2 ^ 26"
    using r by (simp_all add: limbs_le_def rr)
  then have rB: "unat r0 \<le> ?B" "unat r1 \<le> ?B" "unat r2 \<le> ?B" "unat r3 \<le> ?B" by simp_all
  have s: "unat (x * 5 :: u32) = 5 * unat x" if "unat x \<le> 2 ^ 26" for x
    using that by (subst unat_mult_fits) simp_all
  have sB: "unat (r1 * 5) \<le> ?B" "unat (r2 * 5) \<le> ?B" "unat (r3 * 5) \<le> ?B" "unat (r4 * 5) \<le> ?B"
    using rb by (simp_all add: s)
  have AB: "5 * (?A * ?B) < 2 ^ 64" and AC: "5 * (?A * 2 ^ 26) < 2 ^ 64" by simp_all
  note d0 = dot5 [OF hb rB(1) sB(4) sB(3) sB(2) sB(1) AB]
  note d1 = dot5 [OF hb rB(2) rB(1) sB(4) sB(3) sB(2) AB]
  note d2 = dot5 [OF hb rB(3) rB(2) rB(1) sB(4) sB(3) AB]
  note d3 = dot5 [OF hb rB(4) rB(3) rB(2) rB(1) sB(4) AB]
  note d4 = dot5 [OF hb rb(5) rb(4) rb(3) rb(2) rb(1) AC]
  note ss = s [OF rb(2)] s [OF rb(3)] s [OF rb(4)] s [OF rb(5)]
  have v: "limb_val64 (poly_mul h r) =
      (unat h0 * unat r0 + unat h1 * (5 * unat r4) + unat h2 * (5 * unat r3) + unat h3 * (5 * unat r2) + unat h4 * (5 * unat r1)) +
      2 ^ 26 * (unat h0 * unat r1 + unat h1 * unat r0 + unat h2 * (5 * unat r4) + unat h3 * (5 * unat r3) + unat h4 * (5 * unat r2)) +
      2 ^ 52 * (unat h0 * unat r2 + unat h1 * unat r1 + unat h2 * unat r0 + unat h3 * (5 * unat r4) + unat h4 * (5 * unat r3)) +
      2 ^ 78 * (unat h0 * unat r3 + unat h1 * unat r2 + unat h2 * unat r1 + unat h3 * unat r0 + unat h4 * (5 * unat r4)) +
      2 ^ 104 * (unat h0 * unat r4 + unat h1 * unat r3 + unat h2 * unat r2 + unat h3 * unat r1 + unat h4 * unat r0)"
    unfolding hh rr poly_mul_def limb_val64_def prod.case Let_def
    by (simp only: prod.case d0(1) d1(1) d2(1) d3(1) d4(1) ss)
  show "limb_val64 (poly_mul h r) mod poly_p = limb_val h * limb_val r mod poly_p"
    unfolding v [unfolded hh rr] limb_val_def hh rr prod.case limb_product [OF poly_p_5] by (simp only: mod_mult_self1)
  show "case poly_mul h r of (d0, d1, d2, d3, d4) \<Rightarrow>
      unat d0 \<le> 25 * 2 ^ 26 * (2 ^ 27 + 64) \<and> unat d1 \<le> 25 * 2 ^ 26 * (2 ^ 27 + 64) \<and>
      unat d2 \<le> 25 * 2 ^ 26 * (2 ^ 27 + 64) \<and> unat d3 \<le> 25 * 2 ^ 26 * (2 ^ 27 + 64) \<and>
      unat d4 \<le> 5 * 2 ^ 26 * (2 ^ 27 + 64)"
    unfolding hh rr poly_mul_def prod.case Let_def
    unfolding d0(1) d1(1) d2(1) d3(1) d4(1)
    using d0(2) d1(2) d2(2) d3(2) d4(2) by simp
qed

text \<open>
  The carry chain on numbers: \<open>q\<close> is what is carried out of the top limb and comes back at the
  bottom as \<open>5 * q\<close>.
\<close>

lemma carry_chain:
  fixes d0 d1 d2 d3 d4 P :: nat
  assumes "P + 5 = 2 ^ 130"
    and "d0 = 2 ^ 26 * c0 + x0" "d1 + c0 = 2 ^ 26 * c1 + x1" "d2 + c1 = 2 ^ 26 * c2 + x2"
    "d3 + c2 = 2 ^ 26 * c3 + x3" "d4 + c3 = 2 ^ 26 * q + x4" "x0 + q * 5 = 2 ^ 26 * c + y0"
  shows "d0 + 2 ^ 26 * d1 + 2 ^ 52 * d2 + 2 ^ 78 * d3 + 2 ^ 104 * d4 =
    (y0 + 2 ^ 26 * (x1 + c) + 2 ^ 52 * x2 + 2 ^ 78 * x3 + 2 ^ 104 * x4) + q * P"
proof -
  define QP where "QP = q * P"
  have "q * 2 ^ 130 = QP + 5 * q"
    by (simp only: assms(1) [symmetric] QP_def) (simp add: algebra_simps)
  then show ?thesis
    using assms(2-7) unfolding QP_def [symmetric] by simp
qed

lemma carry_step:
  assumes "unat (d :: u64) \<le> D" and "D div 2 ^ 26 < 2 ^ 32"
  shows "unat (ucast (drop_bit 26 d) :: u32) = unat d div 2 ^ 26"
    and "unat (ucast (drop_bit 26 d) :: u32) \<le> D div 2 ^ 26"
    and "unat d = 2 ^ 26 * unat (ucast (drop_bit 26 d) :: u32) + unat (ucast d AND 0x3ffffff :: u32)"
    and "unat (ucast d AND 0x3ffffff :: u32) < 2 ^ 26"
proof -
  have le: "unat d div 2 ^ 26 \<le> D div 2 ^ 26" using assms(1) by (rule div_le_mono)
  then have "unat (drop_bit 26 d) < 2 ^ LENGTH(32)"
    using assms(2) unfolding unat_drop_bit by simp
  then show c: "unat (ucast (drop_bit 26 d) :: u32) = unat d div 2 ^ 26"
    by (simp only: unat_ucast_fits unat_drop_bit)
  show "unat (ucast (drop_bit 26 d) :: u32) \<le> D div 2 ^ 26" unfolding c by (rule le)
  show "unat d = 2 ^ 26 * unat (ucast (drop_bit 26 d) :: u32) + unat (ucast d AND 0x3ffffff :: u32)"
    unfolding c unat_ucast26 by simp
  show "unat (ucast d AND 0x3ffffff :: u32) < 2 ^ 26" unfolding unat_ucast26 by simp
qed

lemma carry_add:
  "unat (d :: u64) \<le> D \<Longrightarrow> unat (c :: u32) \<le> C \<Longrightarrow> D + C < 2 ^ 64 \<Longrightarrow>
   unat (d + ucast c) = unat d + unat c \<and> unat (d + ucast c) \<le> D + C"
  by (subst (1 2) unat_add_fits) (simp_all add: unat_ucast_up)

lemma carry_step32:
  "unat (w :: u32) = 2 ^ 26 * unat (drop_bit 26 w) + unat (w AND 0x3ffffff)"
  "unat (w AND 0x3ffffff) < 2 ^ 26"
  unfolding unat_and26 unat_drop_bit by simp_all

lemma poly_carry_eq:
  assumes "unat d0 \<le> 25 * 2 ^ 26 * (2 ^ 27 + 64)" "unat d1 \<le> 25 * 2 ^ 26 * (2 ^ 27 + 64)"
    "unat d2 \<le> 25 * 2 ^ 26 * (2 ^ 27 + 64)" "unat d3 \<le> 25 * 2 ^ 26 * (2 ^ 27 + 64)"
    "unat d4 \<le> 5 * 2 ^ 26 * (2 ^ 27 + 64)"
  shows "limb_val (poly_carry (d0, d1, d2, d3, d4)) mod poly_p = limb_val64 (d0, d1, d2, d3, d4) mod poly_p"
    and "limbs_carried (poly_carry (d0, d1, d2, d3, d4))"
proof -
  let ?D = "25 * 2 ^ 26 * (2 ^ 27 + 64) :: nat" and ?E = "25 * 2 ^ 26 * (2 ^ 27 + 64) + 2 ^ 32 :: nat"
  define c0 :: u32 where "c0 = ucast (drop_bit 26 d0)"
  define e1 where "e1 = d1 + ucast c0"
  define c1 :: u32 where "c1 = ucast (drop_bit 26 e1)"
  define e2 where "e2 = d2 + ucast c1"
  define c2 :: u32 where "c2 = ucast (drop_bit 26 e2)"
  define e3 where "e3 = d3 + ucast c2"
  define c3 :: u32 where "c3 = ucast (drop_bit 26 e3)"
  define e4 where "e4 = d4 + ucast c3"
  define q :: u32 where "q = ucast (drop_bit 26 e4)"
  define g0 :: u32 where "g0 = (ucast d0 AND 0x3ffffff) + q * 5"
  define x1 :: u32 where "x1 = ucast e1 AND 0x3ffffff"
  have eq: "poly_carry (d0, d1, d2, d3, d4) =
      (g0 AND 0x3ffffff, x1 + drop_bit 26 g0, ucast e2 AND 0x3ffffff, ucast e3 AND 0x3ffffff, ucast e4 AND 0x3ffffff)"
    unfolding poly_carry_def prod.case Let_def g0_def x1_def q_def e4_def c3_def e3_def c2_def e2_def c1_def e1_def c0_def ..
  note s0 = carry_step [OF assms(1), simplified, folded c0_def]
  have E: "?E div 2 ^ 26 < 2 ^ 32" by simp
  have cb: "unat c \<le> 2 ^ 32" for c :: u32 using unsigned_less [of c, where 'a = nat] by simp
  note a1 = carry_add [OF assms(2) cb [of c0], simplified, folded e1_def]
  have b1: "unat e1 \<le> ?E" using a1 by simp
  note s1 = carry_step [OF b1 E, folded c1_def x1_def]
  note a2 = carry_add [OF assms(3) cb [of c1], simplified, folded e2_def]
  have b2: "unat e2 \<le> ?E" using a2 by simp
  note s2 = carry_step [OF b2 E, folded c2_def]
  note a3 = carry_add [OF assms(4) cb [of c2], simplified, folded e3_def]
  have b3: "unat e3 \<le> ?E" using a3 by simp
  note s3 = carry_step [OF b3 E, folded c3_def]
  note a4 = carry_add [OF assms(5) cb [of c3], simplified, folded e4_def]
  have b4: "unat e4 \<le> 5 * 2 ^ 26 * (2 ^ 27 + 64) + 2 ^ 32" using a4 by simp
  have E4: "(5 * 2 ^ 26 * (2 ^ 27 + 64) + 2 ^ 32) div 2 ^ 26 < (2 :: nat) ^ 32" by simp
  note s4 = carry_step [OF b4 E4, folded q_def]
  have q: "unat q \<le> 671089024" using s4(2) by simp
  have q5: "unat (q * 5) = unat q * 5"
    using q by (subst unat_mult_fits) simp_all
  have g0: "unat g0 = unat (ucast d0 AND 0x3ffffff :: u32) + unat q * 5"
    unfolding g0_def using q s0(4) by (subst unat_add_fits) (simp_all add: q5)
  then have g0b: "unat g0 < 2 ^ 26 + 671089024 * 5" using q s0(4) by simp
  then have cg: "unat (drop_bit 26 g0) \<le> 51" unfolding unat_drop_bit by simp
  have h1: "unat (x1 + drop_bit 26 g0) = unat x1 + unat (drop_bit 26 g0)"
    using s1(4) cg by (subst unat_add_fits) simp_all
  have "limb_val64 (d0, d1, d2, d3, d4) = limb_val (poly_carry (d0, d1, d2, d3, d4)) + unat q * poly_p"
    unfolding limb_val64_def limb_val_def eq prod.case h1
  proof (rule carry_chain [OF poly_p_5])
    show "unat d0 = 2 ^ 26 * unat c0 + unat (ucast d0 AND 0x3ffffff :: u32)" using s0(3) by simp
    show "unat d1 + unat c0 = 2 ^ 26 * unat c1 + unat x1" using s1(3) a1 by simp
    show "unat d2 + unat c1 = 2 ^ 26 * unat c2 + unat (ucast e2 AND 0x3ffffff :: u32)" using s2(3) a2 by simp
    show "unat d3 + unat c2 = 2 ^ 26 * unat c3 + unat (ucast e3 AND 0x3ffffff :: u32)" using s3(3) a3 by simp
    show "unat d4 + unat c3 = 2 ^ 26 * unat q + unat (ucast e4 AND 0x3ffffff :: u32)" using s4(3) a4 by simp
    show "unat (ucast d0 AND 0x3ffffff :: u32) + unat q * 5 =
        2 ^ 26 * unat (drop_bit 26 g0) + unat (g0 AND 0x3ffffff)"
      using carry_step32(1) [of g0] by (simp only: g0)
  qed
  then show "limb_val (poly_carry (d0, d1, d2, d3, d4)) mod poly_p = limb_val64 (d0, d1, d2, d3, d4) mod poly_p"
    by (simp only: mod_mult_self1)
  show "limbs_carried (poly_carry (d0, d1, d2, d3, d4))"
    using carry_step32(2) [of g0] s1(4) s2(4) s3(4) s4(4) cg
    unfolding limbs_carried_def eq prod.case h1 by simp
qed

section \<open>The loop\<close>

lemma poly_loop_done: "n \<le> 0 \<Longrightarrow> poly_loop r h m n = h"
  by (simp add: poly_loop.simps)

lemma poly_step_eq:
  assumes "m \<noteq> []" and "limbs_carried h" and "limbs_le r (2 ^ 26 - 1) (2 ^ 26 - 1)"
  shows "limb_val (poly_carry (poly_mul (poly_add h m (length m)) r)) mod poly_p =
      (limb_val h + le_nat (take 16 m @ [1])) * limb_val r mod poly_p"
    and "limbs_carried (poly_carry (poly_mul (poly_add h m (length m)) r))"
proof -
  note a = poly_add_eq [OF assms(1) limbs_carried_le [OF assms(2)]]
  obtain d0 d1 d2 d3 d4 where d: "poly_mul (poly_add h m (length m)) r = (d0, d1, d2, d3, d4)"
    using prod_cases5 by blast
  note b = poly_mul_eq(2) [OF a(2) assms(3), unfolded d prod.case]
  note c = poly_carry_eq [of d0 d1 d2 d3 d4]
  show "limbs_carried (poly_carry (poly_mul (poly_add h m (length m)) r))"
    unfolding d using b by (intro c(2)) blast+
  have "limb_val (poly_carry (d0, d1, d2, d3, d4)) mod poly_p = limb_val64 (d0, d1, d2, d3, d4) mod poly_p"
    using b by (intro c(1)) blast+
  then show "limb_val (poly_carry (poly_mul (poly_add h m (length m)) r)) mod poly_p =
      (limb_val h + le_nat (take 16 m @ [1])) * limb_val r mod poly_p"
    using poly_mul_eq(1) [OF a(2) assms(3)] unfolding d a(1) by simp
qed

lemma poly_loop_eq:
  assumes "limbs_le r (2 ^ 26 - 1) (2 ^ 26 - 1)" and "limbs_carried h" and "a mod poly_p = limb_val h mod poly_p"
  shows "limb_val (poly_loop r h m (int (length m))) mod poly_p = poly_spec_loop (limb_val r) a m mod poly_p \<and>
    limbs_carried (poly_loop r h m (int (length m)))"
  using assms(2,3)
proof (induction "length m" arbitrary: m h a rule: less_induct)
  case less
  show ?case
  proof (cases "m = []")
    case True
    then show ?thesis using less by (simp add: poly_loop_done poly_spec_loop.simps)
  next
    case False
    let ?h = "poly_carry (poly_mul (poly_add h m (length m)) r)"
    let ?a = "(a + le_nat (take 16 m @ [1])) * limb_val r mod poly_p"
    note s = poly_step_eq [OF False less.prems(1) assms(1)]
    have "limb_val ?h mod poly_p = ?a mod poly_p"
      unfolding s(1) using less.prems(2) by (metis mod_add_left_eq mod_mod_trivial mod_mult_left_eq)
    then have IH: "limb_val (poly_loop r ?h (drop 16 m) (int (length (drop 16 m)))) mod poly_p =
        poly_spec_loop (limb_val r) ?a (drop 16 m) mod poly_p \<and>
        limbs_carried (poly_loop r ?h (drop 16 m) (int (length (drop 16 m))))"
      using False s(2) by (intro less.hyps) auto
    have "poly_loop r ?h (drop 16 m) (int (length m) - 16) = poly_loop r ?h (drop 16 m) (int (length (drop 16 m)))"
      by (cases "16 \<le> length m") (simp_all add: poly_loop_done of_nat_diff)
    then have "poly_loop r h m (int (length m)) = poly_loop r ?h (drop 16 m) (int (length (drop 16 m)))"
      using False by (subst poly_loop.simps) simp
    moreover have "poly_spec_loop (limb_val r) a m = poly_spec_loop (limb_val r) ?a (drop 16 m)"
      using False by (subst poly_spec_loop.simps) simp
    ultimately show ?thesis using IH by simp
  qed
qed

lemma poly_spec_loop_lt: "a < poly_p \<Longrightarrow> poly_spec_loop r a m < poly_p"
proof (induction r a m rule: poly_spec_loop.induct)
  case (1 r a m)
  then show ?case by (subst poly_spec_loop.simps) (simp add: poly_p_def)
qed

section \<open>The key\<close>

lemma clamp_window:
  assumes "unat (c :: u32) = poly_clamp div 2 ^ (8 * i + b) mod 2 ^ 26" and "b \<le> 6"
    and "unat u = N div 2 ^ (8 * i) mod 2 ^ 32"
  shows "unat (drop_bit b u AND c) = (N AND poly_clamp) div 2 ^ (8 * i + b) mod 2 ^ 26"
proof -
  have "unat (drop_bit b u AND c) = drop_bit b (unat u) AND unat c"
    by (simp only: unsigned_and_eq unat_drop_bit drop_bit_eq_div [of b "unat u"])
  also have "\<dots> = (N AND poly_clamp) div 2 ^ (8 * i + b) mod 2 ^ 26"
    unfolding assms(1,3) take_bit_eq_mod [symmetric] drop_bit_eq_div [symmetric]
    using assms(2) by (intro bit_eqI) (auto simp: bit_simps ac_simps)
  finally show ?thesis .
qed

lemma poly_r_eq:
  assumes "16 \<le> length k"
  shows "limb_val (poly_r k) = le_nat (take 16 k) AND poly_clamp"
    and "limbs_le (poly_r k) (2 ^ 26 - 1) (2 ^ 26 - 1)"
proof -
  define N where "N = le_nat (take 16 k)"
  have u: "unat (unpack k i) = N div 2 ^ (8 * i) mod 2 ^ 32" if "i + 4 \<le> 16" for i
    using unat_unpack [OF that assms] by (simp add: N_def)
  have c0: "unat (unpack k 0 AND 0x3ffffff) = (N AND poly_clamp) mod 2 ^ 26"
    using clamp_window [of "0x3ffffff" 0 0 "unpack k 0" N] u [of 0] by (simp add: poly_clamp_def)
  have c1: "unat (drop_bit 2 (unpack k 3) AND 0x3ffff03) = (N AND poly_clamp) div 2 ^ 26 mod 2 ^ 26"
    using clamp_window [of "0x3ffff03" 3 2 "unpack k 3" N] u [of 3] by (simp add: poly_clamp_def)
  have c2: "unat (drop_bit 4 (unpack k 6) AND 0x3ffc0ff) = (N AND poly_clamp) div 2 ^ 52 mod 2 ^ 26"
    using clamp_window [of "0x3ffc0ff" 6 4 "unpack k 6" N] u [of 6] by (simp add: poly_clamp_def)
  have c3: "unat (drop_bit 6 (unpack k 9) AND 0x3f03fff) = (N AND poly_clamp) div 2 ^ 78 mod 2 ^ 26"
    using clamp_window [of "0x3f03fff" 9 6 "unpack k 9" N] u [of 9] by (simp add: poly_clamp_def)
  have c4: "unat (drop_bit 8 (unpack k 12) AND 0x00fffff) = (N AND poly_clamp) div 2 ^ 104"
  proof -
    have "unat (drop_bit 8 (unpack k 12) AND 0x00fffff) = drop_bit 8 (unat (unpack k 12)) AND 0xfffff"
      by (simp add: unsigned_and_eq unat_drop_bit drop_bit_eq_div [of 8 "unat (unpack k 12)"])
    also have "\<dots> = drop_bit 104 N AND drop_bit 104 poly_clamp"
    proof -
      have m: "drop_bit 104 poly_clamp = (0xfffff :: nat)"
        by (simp add: poly_clamp_def drop_bit_eq_div)
      have "take_bit 24 (0xfffff :: nat) = 0xfffff" by (simp add: take_bit_eq_mod)
      then have lt: "i < 24" if "bit (0xfffff :: nat) i" for i
        using that by (metis bit_take_bit_iff)
      have "unat (unpack k 12) = take_bit 32 (drop_bit 96 N)"
        using u [of 12] by (simp add: take_bit_eq_mod drop_bit_eq_div)
      then show ?thesis
        unfolding m by (intro bit_eqI) (auto simp: bit_simps dest: lt)
    qed
    also have "\<dots> = drop_bit 104 (N AND poly_clamp)" by (rule drop_bit_and [symmetric])
    finally show ?thesis by (simp only: drop_bit_eq_div)
  qed
  have lt: "(N AND poly_clamp) div 2 ^ 104 < 2 ^ 26"
  proof -
    have "(0x00fffff :: u32) = mask 20" by (simp add: mask_eq_exp_minus_1)
    then have "unat (drop_bit 8 (unpack k 12) AND 0x00fffff) < 2 ^ 20"
      by (simp only: unat_and_mask) simp
    then show ?thesis unfolding c4 by simp
  qed
  show "limb_val (poly_r k) = le_nat (take 16 k) AND poly_clamp"
    unfolding limb_val_def poly_r_def prod.case c0 c1 c2 c3 c4 N_def [symmetric]
    by (rule limbs_of [symmetric])
  have m: "n mod 2 ^ 26 \<le> 2 ^ 26 - 1" for n :: nat
    by (metis Suc_pred' less_Suc_eq_le mod_less_divisor zero_less_numeral zero_less_power)
  have "(N AND poly_clamp) div 2 ^ 104 \<le> 2 ^ 26 - 1" using lt by linarith
  then show "limbs_le (poly_r k) (2 ^ 26 - 1) (2 ^ 26 - 1)"
    unfolding limbs_le_def poly_r_def prod.case c0 c1 c2 c3 c4 using m by blast
qed

section \<open>The last reduction\<close>

definition limbs_full :: "limbs \<Rightarrow> bool" where
  "limbs_full h = (case h of (h0, h1, h2, h3, h4) \<Rightarrow>
     unat h0 < 2 ^ 26 \<and> unat h1 < 2 ^ 26 \<and> unat h2 < 2 ^ 26 \<and> unat h3 < 2 ^ 26 \<and> unat h4 < 2 ^ 26)"

lemma carry_add32:
  "unat (d :: u32) \<le> 2 ^ 26 + 64 \<Longrightarrow> unat c \<le> 2 ^ 6 \<Longrightarrow> unat (d + c) = unat d + unat c"
  by (subst unat_add_fits) simp_all

lemma drop26_le: "unat (w :: u32) < 2 ^ 27 \<Longrightarrow> unat (drop_bit 26 w) \<le> 1"
  unfolding unat_drop_bit by simp

lemma poly_full_carry_eq:
  assumes "limbs_carried h"
  shows "limb_val (poly_full_carry h) mod poly_p = limb_val h mod poly_p"
    and "limbs_full (poly_full_carry h)"
proof -
  obtain h0 h1 h2 h3 h4 where hh: "h = (h0, h1, h2, h3, h4)" by (cases h)
  note b = assms [unfolded limbs_carried_def hh prod.case]
  define c1 where "c1 = drop_bit 26 h1"
  define e2 where "e2 = h2 + c1"
  define c2 where "c2 = drop_bit 26 e2"
  define e3 where "e3 = h3 + c2"
  define c3 where "c3 = drop_bit 26 e3"
  define e4 where "e4 = h4 + c3"
  define q where "q = drop_bit 26 e4"
  define g0 where "g0 = h0 + q * 5"
  define x1 where "x1 = h1 AND 0x3ffffff"
  have eq: "poly_full_carry (h0, h1, h2, h3, h4) =
      (g0 AND 0x3ffffff, x1 + drop_bit 26 g0, e2 AND 0x3ffffff, e3 AND 0x3ffffff, e4 AND 0x3ffffff)"
    unfolding poly_full_carry_def prod.case Let_def g0_def x1_def q_def e4_def c3_def e3_def c2_def e2_def c1_def ..
  have s1: "unat h1 = 2 ^ 26 * unat c1 + unat x1" "unat x1 < 2 ^ 26" "unat c1 \<le> 1"
    using carry_step32 [of h1] b drop26_le [of h1] by (simp_all add: c1_def x1_def)
  have s2: "unat e2 = unat h2 + unat c1" "unat e2 = 2 ^ 26 * unat c2 + unat (e2 AND 0x3ffffff)" "unat c2 \<le> 1"
    using carry_add32 [of h2 c1] carry_step32 [of e2] b s1 drop26_le [of e2] by (simp_all add: c2_def e2_def)
  have s3: "unat e3 = unat h3 + unat c2" "unat e3 = 2 ^ 26 * unat c3 + unat (e3 AND 0x3ffffff)" "unat c3 \<le> 1"
    using carry_add32 [of h3 c2] carry_step32 [of e3] b s2 drop26_le [of e3] by (simp_all add: c3_def e3_def)
  have s4: "unat e4 = unat h4 + unat c3" "unat e4 = 2 ^ 26 * unat q + unat (e4 AND 0x3ffffff)" "unat q \<le> 1"
    using carry_add32 [of h4 c3] carry_step32 [of e4] b s3 drop26_le [of e4] by (simp_all add: q_def e4_def)
  have q5: "unat (q * 5) = unat q * 5" using s4(3) by (subst unat_mult_fits) simp_all
  have g0: "unat g0 = unat h0 + unat q * 5"
    using b s4(3) unfolding g0_def by (subst unat_add_fits) (simp_all add: q5)
  have cg: "unat (drop_bit 26 g0) \<le> 1" using g0 s4(3) b by (intro drop26_le) simp
  have gs: "unat g0 = 2 ^ 26 * unat (drop_bit 26 g0) + unat (g0 AND 0x3ffffff)" by (rule carry_step32(1))
  have h1': "unat (x1 + drop_bit 26 g0) = unat x1 + unat (drop_bit 26 g0)"
    using s1(2) cg by (subst unat_add_fits) simp_all
  have small: "unat x1 + unat (drop_bit 26 g0) < 2 ^ 26"
  proof (cases "unat q = 0")
    case True
    then have "unat g0 < 2 ^ 26" using g0 b by simp
    then have "unat (drop_bit 26 g0) = 0" unfolding unat_drop_bit by simp
    then show ?thesis using s1(2) by simp
  next
    case False
    then have "2 ^ 26 \<le> unat e4" using s4(2) by simp
    then have "unat c3 \<noteq> 0" using s4(1) b by linarith
    then have "2 ^ 26 \<le> unat e3" using s3(2) by simp
    then have "unat c2 \<noteq> 0" using s3(1) b by linarith
    then have "2 ^ 26 \<le> unat e2" using s2(2) by simp
    then have "unat c1 \<noteq> 0" using s2(1) b by linarith
    then have "unat x1 < 64" using s1(1) b by simp
    then show ?thesis using cg by simp
  qed
  have "limb_val (h0, h1, h2, h3, h4) = limb_val (poly_full_carry (h0, h1, h2, h3, h4)) + unat q * poly_p"
    unfolding limb_val_def eq prod.case h1'
  proof (rule carry_chain [OF poly_p_5])
    show "unat h0 = 2 ^ 26 * 0 + unat h0" by simp
    show "unat h1 + 0 = 2 ^ 26 * unat c1 + unat x1" using s1 by simp
    show "unat h2 + unat c1 = 2 ^ 26 * unat c2 + unat (e2 AND 0x3ffffff)" using s2 by simp
    show "unat h3 + unat c2 = 2 ^ 26 * unat c3 + unat (e3 AND 0x3ffffff)" using s3 by simp
    show "unat h4 + unat c3 = 2 ^ 26 * unat q + unat (e4 AND 0x3ffffff)" using s4 by simp
    show "unat h0 + unat q * 5 = 2 ^ 26 * unat (drop_bit 26 g0) + unat (g0 AND 0x3ffffff)"
      using gs by (simp only: g0)
  qed
  then show "limb_val (poly_full_carry h) mod poly_p = limb_val h mod poly_p"
    unfolding hh by (simp only: mod_mult_self1)
  show "limbs_full (poly_full_carry h)"
    using small carry_step32(2) unfolding hh limbs_full_def eq prod.case h1' by blast
qed

lemma limbs_full_lt: "limbs_full h \<Longrightarrow> limb_val h < 2 ^ 130"
  by (cases h) (simp add: limbs_full_def limb_val_def)

lemma select_mask:
  assumes "unat (d :: u32) \<le> 2 ^ 26"
  shows "drop_bit 31 (d - push_bit 26 1) - 1 = (if unat d = 2 ^ 26 then - 1 else 0 :: u32)"
    and "unat d = 2 ^ 26 \<Longrightarrow> d - push_bit 26 1 = 0"
proof -
  have p: "unat (push_bit 26 1 :: u32) = 2 ^ 26" by simp
  show eq: "unat d = 2 ^ 26 \<Longrightarrow> d - push_bit 26 1 = 0"
    using p by (metis right_minus_eq unsigned_word_eqI)
  show "drop_bit 31 (d - push_bit 26 1) - 1 = (if unat d = 2 ^ 26 then - 1 else 0 :: u32)"
  proof (cases "unat d = 2 ^ 26")
    case True
    then show ?thesis using eq by simp
  next
    case False
    then have "unat d < 2 ^ 26" using assms by simp
    then have "unat (d - push_bit 26 1 :: u32) = 2 ^ 32 + unat d - 2 ^ 26"
      using p by (subst unat_sub_if') (simp add: word_le_nat_alt word_less_nat_alt)
    then have "unat (d - push_bit 26 1 :: u32) div 2 ^ 31 = 1"
      using \<open>unat d < 2 ^ 26\<close> by simp
    then have "unat (drop_bit 31 (d - push_bit 26 1 :: u32)) = unat (1 :: u32)"
      by (simp only: unat_drop_bit unat_1)
    then have "drop_bit 31 (d - push_bit 26 1 :: u32) = 1" by (simp only: word_unat_eq_iff)
    then show ?thesis using False by simp
  qed
qed

lemma add5_chain:
  fixes V :: nat
  assumes "V = h0 + 2 ^ 26 * h1 + 2 ^ 52 * h2 + 2 ^ 78 * h3 + 2 ^ 104 * h4"
    and "h0 + 5 = 2 ^ 26 * c0 + x0" "h1 + c0 = 2 ^ 26 * c1 + x1" "h2 + c1 = 2 ^ 26 * c2 + x2" "h3 + c2 = 2 ^ 26 * c3 + x3"
  shows "V + 5 = x0 + 2 ^ 26 * x1 + 2 ^ 52 * x2 + 2 ^ 78 * x3 + 2 ^ 104 * (h4 + c3)"
  using assms by simp

lemma limbs_top:
  fixes t :: nat
  assumes "x0 < 2 ^ 26" "x1 < 2 ^ 26" "x2 < 2 ^ 26" "x3 < 2 ^ 26"
  shows "2 ^ 130 \<le> x0 + 2 ^ 26 * x1 + 2 ^ 52 * x2 + 2 ^ 78 * x3 + 2 ^ 104 * t \<longleftrightarrow> 2 ^ 26 \<le> t"
  using assms by simp linarith

lemma poly_select_eq:
  assumes "limbs_full h"
  shows "limb_val (poly_select h) = limb_val h mod poly_p" and "limbs_full (poly_select h)"
proof -
  obtain h0 h1 h2 h3 h4 where hh: "h = (h0, h1, h2, h3, h4)" by (cases h)
  note b = assms [unfolded limbs_full_def hh prod.case]
  define e0 where "e0 = h0 + 5"
  define e1 where "e1 = h1 + drop_bit 26 e0"
  define e2 where "e2 = h2 + drop_bit 26 e1"
  define e3 where "e3 = h3 + drop_bit 26 e2"
  define t where "t = h4 + drop_bit 26 e3"
  define msk :: u32 where "msk = drop_bit 31 (t - push_bit 26 1) - 1"
  have eq: "poly_select (h0, h1, h2, h3, h4) =
      ((h0 AND NOT msk) OR (e0 AND 0x3ffffff AND msk), (h1 AND NOT msk) OR (e1 AND 0x3ffffff AND msk),
       (h2 AND NOT msk) OR (e2 AND 0x3ffffff AND msk), (h3 AND NOT msk) OR (e3 AND 0x3ffffff AND msk),
       (h4 AND NOT msk) OR (t - push_bit 26 1 AND msk))"
    unfolding poly_select_def prod.case Let_def msk_def t_def e3_def e2_def e1_def e0_def by (simp only: and.assoc)
  have s0: "unat e0 = unat h0 + 5" "unat (drop_bit 26 e0) \<le> 1"
  proof -
    show "unat e0 = unat h0 + 5" using b unfolding e0_def by (subst unat_add_fits) simp_all
    then show "unat (drop_bit 26 e0) \<le> 1" using b by (intro drop26_le) simp
  qed
  have s1: "unat e1 = unat h1 + unat (drop_bit 26 e0)" "unat (drop_bit 26 e1) \<le> 1"
    using carry_add32 [of h1 "drop_bit 26 e0"] b s0 drop26_le [of e1] by (simp_all add: e1_def)
  have s2: "unat e2 = unat h2 + unat (drop_bit 26 e1)" "unat (drop_bit 26 e2) \<le> 1"
    using carry_add32 [of h2 "drop_bit 26 e1"] b s1 drop26_le [of e2] by (simp_all add: e2_def)
  have s3: "unat e3 = unat h3 + unat (drop_bit 26 e2)" "unat (drop_bit 26 e3) \<le> 1"
    using carry_add32 [of h3 "drop_bit 26 e2"] b s2 drop26_le [of e3] by (simp_all add: e3_def)
  have t: "unat t = unat h4 + unat (drop_bit 26 e3)" "unat t \<le> 2 ^ 26"
    using carry_add32 [of h4 "drop_bit 26 e3"] b s3 by (simp_all add: t_def)
  have V: "limb_val h + 5 = unat (e0 AND 0x3ffffff) + 2 ^ 26 * unat (e1 AND 0x3ffffff) +
      2 ^ 52 * unat (e2 AND 0x3ffffff) + 2 ^ 78 * unat (e3 AND 0x3ffffff) + 2 ^ 104 * unat t"
    unfolding t(1)
  proof (rule add5_chain)
    show "limb_val h = unat h0 + 2 ^ 26 * unat h1 + 2 ^ 52 * unat h2 + 2 ^ 78 * unat h3 + 2 ^ 104 * unat h4"
      by (simp add: hh limb_val_def)
    show "unat h0 + 5 = 2 ^ 26 * unat (drop_bit 26 e0) + unat (e0 AND 0x3ffffff)"
      using carry_step32(1) [of e0] by (simp only: s0)
    show "unat h1 + unat (drop_bit 26 e0) = 2 ^ 26 * unat (drop_bit 26 e1) + unat (e1 AND 0x3ffffff)"
      using carry_step32(1) [of e1] by (simp only: s1)
    show "unat h2 + unat (drop_bit 26 e1) = 2 ^ 26 * unat (drop_bit 26 e2) + unat (e2 AND 0x3ffffff)"
      using carry_step32(1) [of e2] by (simp only: s2)
    show "unat h3 + unat (drop_bit 26 e2) = 2 ^ 26 * unat (drop_bit 26 e3) + unat (e3 AND 0x3ffffff)"
      using carry_step32(1) [of e3] by (simp only: s3)
  qed
  note top = limbs_top [OF carry_step32(2) [of e0] carry_step32(2) [of e1] carry_step32(2) [of e2] carry_step32(2) [of e3],
      of "unat t", folded V]
  have "limb_val (poly_select h) = limb_val h mod poly_p \<and> limbs_full (poly_select h)"
  proof (cases "unat t = 2 ^ 26")
    case True
    then have m: "msk = - 1" using select_mask(1) [OF t(2)] by (simp add: msk_def)
    have z: "t - push_bit 26 1 = 0" using select_mask(2) [OF t(2)] True by simp
    have sel: "poly_select h = (e0 AND 0x3ffffff, e1 AND 0x3ffffff, e2 AND 0x3ffffff, e3 AND 0x3ffffff, 0)"
      unfolding hh eq m z by simp
    have ge: "poly_p \<le> limb_val h" using True top by (simp add: poly_p_def)
    have "limb_val h - poly_p < poly_p" using limbs_full_lt [OF assms] by (simp add: poly_p_def)
    then have "limb_val h mod poly_p = limb_val h - poly_p"
      using ge by (simp add: le_mod_geq)
    also have "\<dots> = limb_val (poly_select h)"
      using V ge unfolding sel limb_val_def prod.case True by (simp add: poly_p_def)
    finally show ?thesis
      using carry_step32(2) unfolding sel limbs_full_def prod.case by simp
  next
    case False
    then have m: "msk = 0" using select_mask(1) [OF t(2)] by (simp add: msk_def)
    have sel: "poly_select h = h" unfolding hh eq m by simp
    have "limb_val h < poly_p" using False t(2) top by (simp add: poly_p_def)
    then show ?thesis unfolding sel using assms by simp
  qed
  then show "limb_val (poly_select h) = limb_val h mod poly_p" and "limbs_full (poly_select h)" by blast+
qed

section \<open>The tag\<close>

lemma limb_digits:
  fixes h0 :: nat
  assumes "h0 < 2 ^ 26" "h1 < 2 ^ 26" "h2 < 2 ^ 26" "h3 < 2 ^ 26" "h4 < 2 ^ 26"
    and "V = h0 + 2 ^ 26 * h1 + 2 ^ 52 * h2 + 2 ^ 78 * h3 + 2 ^ 104 * h4"
  shows "h0 = V mod 2 ^ 26" "h1 = V div 2 ^ 26 mod 2 ^ 26" "h2 = V div 2 ^ 52 mod 2 ^ 26"
    "h3 = V div 2 ^ 78 mod 2 ^ 26" "h4 = V div 2 ^ 104 mod 2 ^ 26"
proof -
  define a3 where "a3 = h3 + 2 ^ 26 * h4"
  define a2 where "a2 = h2 + 2 ^ 26 * a3"
  define a1 where "a1 = h1 + 2 ^ 26 * a2"
  have V: "V = h0 + 2 ^ 26 * a1" using assms(6) by (simp add: a1_def a2_def a3_def)
  have s: "(x + 2 ^ 26 * y) mod 2 ^ 26 = x" "(x + 2 ^ 26 * y) div 2 ^ 26 = y" if "x < 2 ^ 26" for x y :: nat
    using that by simp_all
  have d1: "V div 2 ^ 26 = a1" and m0: "V mod 2 ^ 26 = h0" unfolding V using s assms by blast+
  have d2: "a1 div 2 ^ 26 = a2" and m1: "a1 mod 2 ^ 26 = h1" unfolding a1_def using s assms by blast+
  have d3: "a2 div 2 ^ 26 = a3" and m2: "a2 mod 2 ^ 26 = h2" unfolding a2_def using s assms by blast+
  have d4: "a3 div 2 ^ 26 = h4" and m3: "a3 mod 2 ^ 26 = h3" unfolding a3_def using s assms by blast+
  have p: "V div 2 ^ 52 = V div 2 ^ 26 div 2 ^ 26" "V div 2 ^ 78 = V div 2 ^ 26 div 2 ^ 26 div 2 ^ 26"
    "V div 2 ^ 104 = V div 2 ^ 26 div 2 ^ 26 div 2 ^ 26 div 2 ^ 26"
    by (simp_all add: div_mult2_eq [symmetric])
  show "h0 = V mod 2 ^ 26" using m0 by simp
  show "h1 = V div 2 ^ 26 mod 2 ^ 26" using m1 by (simp only: d1)
  show "h2 = V div 2 ^ 52 mod 2 ^ 26" unfolding p d1 d2 m2 ..
  show "h3 = V div 2 ^ 78 mod 2 ^ 26" unfolding p d1 d2 d3 m3 ..
  show "h4 = V div 2 ^ 104 mod 2 ^ 26" unfolding p d1 d2 d3 d4 using assms(5) by simp
qed

lemma limb_bit:
  "unat (w :: u32) = V div 2 ^ a mod 2 ^ 26 \<Longrightarrow> bit w i \<longleftrightarrow> i < 26 \<and> bit V (a + i)"
proof -
  assume "unat w = V div 2 ^ a mod 2 ^ 26"
  then have "unat w = take_bit 26 (drop_bit a V)" by (simp add: take_bit_eq_mod drop_bit_eq_div)
  moreover have "bit w i \<longleftrightarrow> bit (unat w) i" by (simp add: bit_unsigned_iff)
  ultimately show ?thesis by (simp add: bit_simps)
qed

lemma join_limbs:
  assumes "unat (u :: u32) = V div 2 ^ a mod 2 ^ 26" and "unat (w :: u32) = V div 2 ^ a' mod 2 ^ 26"
    and "b \<le> 20" and "a' = a + 26"
  shows "unat ((drop_bit b u OR push_bit (26 - b) w) AND 0xffffffff) = V div 2 ^ (a + b) mod 2 ^ 32"
proof -
  have m: "(0xffffffff :: u32) = - 1" by simp
  have "drop_bit b u OR push_bit (26 - b) w = word_of_nat (V div 2 ^ (a + b))"
    unfolding drop_bit_eq_div [symmetric]
  proof (rule bit_word_eqI)
    fix i
    assume "i < LENGTH(32)"
    then have i: "i < 32" by simp
    have "a' + (i - (26 - b)) = a + b + i" if "26 - b \<le> i" using that assms(3,4) by simp
    then show "bit (drop_bit b u OR push_bit (26 - b) w) i = bit (word_of_nat (drop_bit (a + b) V) :: u32) i"
      using i assms(3)
      by (auto simp: bit_simps limb_bit [OF assms(1)] limb_bit [OF assms(2)] ac_simps)
  qed
  then show ?thesis unfolding m by (simp add: unsigned_of_nat take_bit_eq_mod)
qed

lemma horner4:
  "(N :: nat) = r0 + 2 ^ 32 * a \<Longrightarrow> a = r1 + 2 ^ 32 * b \<Longrightarrow> b = r2 + 2 ^ 32 * c \<Longrightarrow>
   N = r0 + 2 ^ 32 * r1 + 2 ^ 64 * r2 + 2 ^ 96 * c"
  by simp

lemma words_of:
  "(N :: nat) mod 2 ^ 128 = N mod 2 ^ 32 + 2 ^ 32 * (N div 2 ^ 32 mod 2 ^ 32) +
     2 ^ 64 * (N div 2 ^ 64 mod 2 ^ 32) + 2 ^ 96 * (N div 2 ^ 96 mod 2 ^ 32)"
proof -
  have m: "M mod (2 ^ 32 * 2 ^ k) = M mod 2 ^ 32 + 2 ^ 32 * (M div 2 ^ 32 mod 2 ^ k)" for M k :: nat
    by (simp add: mod_mult2_eq)
  have d: "N div 2 ^ 32 div 2 ^ 32 = N div 2 ^ 64" "N div 2 ^ 64 div 2 ^ 32 = N div 2 ^ 96"
    by (simp_all add: div_mult2_eq [symmetric])
  have "N mod 2 ^ 128 = N mod 2 ^ 32 + 2 ^ 32 * (N div 2 ^ 32 mod 2 ^ 96)"
    using m [of N 96] by simp
  moreover have "N div 2 ^ 32 mod 2 ^ 96 = N div 2 ^ 32 mod 2 ^ 32 + 2 ^ 32 * (N div 2 ^ 64 mod 2 ^ 64)"
    using m [of "N div 2 ^ 32" 64] d by simp
  moreover have "N div 2 ^ 64 mod 2 ^ 64 = N div 2 ^ 64 mod 2 ^ 32 + 2 ^ 32 * (N div 2 ^ 96 mod 2 ^ 32)"
    using m [of "N div 2 ^ 64" 32] d by simp
  ultimately show ?thesis by (rule horner4)
qed

lemma add_words:
  fixes t0 :: nat
  assumes "a0 + b0 = 2 ^ 32 * q0 + t0" "a1 + b1 + q0 = 2 ^ 32 * q1 + t1"
    "a2 + b2 + q1 = 2 ^ 32 * q2 + t2" "a3 + b3 + q2 = 2 ^ 32 * q3 + t3"
    and t: "t0 < 2 ^ 32" "t1 < 2 ^ 32" "t2 < 2 ^ 32" "t3 < 2 ^ 32"
  shows "t0 + 2 ^ 32 * t1 + 2 ^ 64 * t2 + 2 ^ 96 * t3 =
    ((a0 + 2 ^ 32 * a1 + 2 ^ 64 * a2 + 2 ^ 96 * a3) + (b0 + 2 ^ 32 * b1 + 2 ^ 64 * b2 + 2 ^ 96 * b3)) mod 2 ^ 128"
proof -
  let ?t = "t0 + 2 ^ 32 * t1 + 2 ^ 64 * t2 + 2 ^ 96 * t3"
  have "(a0 + 2 ^ 32 * a1 + 2 ^ 64 * a2 + 2 ^ 96 * a3) + (b0 + 2 ^ 32 * b1 + 2 ^ 64 * b2 + 2 ^ 96 * b3) =
      ?t + 2 ^ 128 * q3"
    using assms(1-4) by simp
  moreover have "?t < 2 ^ 128" using t by simp
  ultimately show ?thesis by (simp only: mod_mult_self2 mod_less)
qed

lemma le_nat_words: "le_nat (pack w0 @ pack w1 @ pack w2 @ pack w3) =
  unat w0 + 2 ^ 32 * unat w1 + 2 ^ 64 * unat w2 + 2 ^ 96 * unat w3"
  by (simp add: le_nat_append pack_def le_nat_pack_le)

lemma unat_ucast_mod: "unat (ucast (f :: u64) :: u32) = unat f mod 2 ^ 32"
  by (simp add: unsigned_ucast_eq unsigned_take_bit_eq take_bit_eq_mod)

lemma unat_u32_lt: "unat (w :: u32) < 2 ^ 32"
  using unsigned_less [of w, where 'a = nat] by simp

lemma add3_64:
  "x \<le> 2 ^ 32 \<Longrightarrow> unat (ucast (h :: u32) + ucast (s :: u32) + c :: u64) = unat h + unat s + unat c"
  if "unat c \<le> x" for x :: nat
  using that unat_u32_lt [of h] unat_u32_lt [of s]
  by (subst unat_add_fits; simp add: unat_ucast_up)+

lemma poly_finish_eq:
  assumes "limbs_full h" and "length k = 32"
  shows "poly_finish h k = le_bytes 16 (limb_val h + le_nat (drop 16 k))"
proof -
  obtain h0 h1 h2 h3 h4 where hh: "h = (h0, h1, h2, h3, h4)" by (cases h)
  note b = assms(1) [unfolded limbs_full_def hh prod.case]
  define V where "V = limb_val h"
  have bs: "unat h0 < 2 ^ 26" "unat h1 < 2 ^ 26" "unat h2 < 2 ^ 26" "unat h3 < 2 ^ 26" "unat h4 < 2 ^ 26"
    using b by blast+
  have "V = unat h0 + 2 ^ 26 * unat h1 + 2 ^ 52 * unat h2 + 2 ^ 78 * unat h3 + 2 ^ 104 * unat h4"
    by (simp add: V_def hh limb_val_def)
  note dg = limb_digits [OF bs this]
  have dg0: "unat h0 = V div 2 ^ 0 mod 2 ^ 26" using dg(1) by simp
  define w0 where "w0 = (h0 OR push_bit 26 h1) AND 0xffffffff"
  define w1 where "w1 = (drop_bit 6 h1 OR push_bit 20 h2) AND 0xffffffff"
  define w2 where "w2 = (drop_bit 12 h2 OR push_bit 14 h3) AND 0xffffffff"
  define w3 where "w3 = (drop_bit 18 h3 OR push_bit 8 h4) AND 0xffffffff"
  have w: "unat w0 = V mod 2 ^ 32" "unat w1 = V div 2 ^ 32 mod 2 ^ 32"
    "unat w2 = V div 2 ^ 64 mod 2 ^ 32" "unat w3 = V div 2 ^ 96 mod 2 ^ 32"
    using join_limbs [OF dg0 dg(2), of 0] join_limbs [OF dg(2,3), of 6] join_limbs [OF dg(3,4), of 12]
      join_limbs [OF dg(4,5), of 18] by (simp_all add: w0_def w1_def w2_def w3_def)
  define S where "S = le_nat (drop 16 k)"
  have u: "unat (unpack k (16 + i)) = S div 2 ^ (8 * i) mod 2 ^ 32" if "i + 4 \<le> 16" for i
  proof -
    have "unpack k (16 + i) = unpack (drop 16 k) i" using assms(2) by (simp add: unpack_def)
    then show ?thesis using that assms(2) unat_unpack [of i "drop 16 k"] by (simp add: S_def)
  qed
  have S: "unat (unpack k 16) = S mod 2 ^ 32" "unat (unpack k 20) = S div 2 ^ 32 mod 2 ^ 32"
    "unat (unpack k 24) = S div 2 ^ 64 mod 2 ^ 32" "unat (unpack k 28) = S div 2 ^ 96 mod 2 ^ 32"
    using u [of 0] u [of 4] u [of 8] u [of 12] by simp_all
  define f0 :: u64 where "f0 = ucast w0 + ucast (unpack k 16)"
  define f1 :: u64 where "f1 = ucast w1 + ucast (unpack k 20) + drop_bit 32 f0"
  define f2 :: u64 where "f2 = ucast w2 + ucast (unpack k 24) + drop_bit 32 f1"
  define f3 :: u64 where "f3 = ucast w3 + ucast (unpack k 28) + drop_bit 32 f2"
  have c: "unat (drop_bit 32 f) \<le> 2 ^ 32" for f :: u64
  proof -
    have "unat f < 2 ^ 64" using unsigned_less [of f, where 'a = nat] by simp
    then have "unat f div 2 ^ 32 < 2 ^ 32" by (simp add: less_mult_imp_div_less)
    then show ?thesis by (simp only: unat_drop_bit less_imp_le)
  qed
  have f0: "unat w0 + unat (unpack k 16) = unat f0"
    using add3_64 [of 0 0 w0 "unpack k 16"] by (simp add: f0_def)
  have f: "unat w1 + unat (unpack k 20) + unat f0 div 2 ^ 32 = unat f1"
    "unat w2 + unat (unpack k 24) + unat f1 div 2 ^ 32 = unat f2"
    "unat w3 + unat (unpack k 28) + unat f2 div 2 ^ 32 = unat f3"
    using add3_64 [OF c order_refl] by (simp_all only: f1_def f2_def f3_def unat_drop_bit)
  have split: "n = 2 ^ 32 * (n div 2 ^ 32) + n mod 2 ^ 32" "n mod 2 ^ 32 < 2 ^ 32" for n :: nat by simp_all
  have eq: "poly_finish h k = pack (ucast f0) @ pack (ucast f1) @ pack (ucast f2) @ pack (ucast f3)"
    unfolding hh poly_finish_def prod.case Let_def f3_def f2_def f1_def f0_def w0_def w1_def w2_def w3_def ..
  have "le_nat (poly_finish h k) = unat f0 mod 2 ^ 32 + 2 ^ 32 * (unat f1 mod 2 ^ 32) +
      2 ^ 64 * (unat f2 mod 2 ^ 32) + 2 ^ 96 * (unat f3 mod 2 ^ 32)"
    unfolding eq le_nat_words unat_ucast_mod ..
  also have "\<dots> = (V mod 2 ^ 128 + S mod 2 ^ 128) mod 2 ^ 128"
    unfolding words_of [of V] words_of [of S] w [symmetric] S [symmetric]
    by (rule add_words [OF trans [OF f0 split(1)] trans [OF f(1) split(1)] trans [OF f(2) split(1)]
          trans [OF f(3) split(1)] split(2) split(2) split(2) split(2)])
  finally have "le_nat (poly_finish h k) = (V + S) mod 2 ^ 128" by (simp only: mod_add_eq)
  moreover have "length (poly_finish h k) = 16" unfolding eq by (simp add: pack_def)
  ultimately show ?thesis
    using le_bytes_le_nat [of "poly_finish h k"] le_nat_inject [of "poly_finish h k" "le_bytes 16 (V + S)"]
    by (simp add: le_nat_le_bytes V_def S_def)
qed

lemma poly1305_correct:
  assumes "length k = 32"
  shows "crypto_onetimeauth_poly1305 m (length m) k = poly1305_spec m k"
proof -
  note r = poly_r_eq [of k]
  define h where "h = poly_loop (poly_r k) (0, 0, 0, 0, 0) m (int (length m))"
  have z: "limbs_carried (0, 0, 0, 0, 0)" "limb_val (0, 0, 0, 0, 0) = 0"
    by (simp_all add: limbs_carried_def limb_val_def)
  have l: "limb_val h mod poly_p = poly_spec_loop (limb_val (poly_r k)) 0 m mod poly_p" "limbs_carried h"
    using poly_loop_eq [OF _ z(1), of "poly_r k" 0 m] r z(2) assms by (auto simp: h_def)
  note fc = poly_full_carry_eq [OF l(2)]
  note sel = poly_select_eq [OF fc(2)]
  have "limb_val (poly_select (poly_full_carry h)) = poly_spec_loop (limb_val (poly_r k)) 0 m"
    using sel(1) fc(1) l(1) poly_spec_loop_lt [of 0 "limb_val (poly_r k)" m] by (simp add: poly_p_def)
  then show ?thesis
    using poly_finish_eq [OF sel(2) assms] r(1) assms
    by (simp add: crypto_onetimeauth_poly1305_def poly1305_spec_def h_def Let_def)
qed

lemma length_poly1305 [simp]: "length (crypto_onetimeauth_poly1305 m n k) = 16"
  by (simp add: crypto_onetimeauth_poly1305_def poly_finish_def Let_def pack_def split: prod.split)

lemma poly1305_verify_eq:
  assumes "16 \<le> length h"
  shows "crypto_onetimeauth_poly1305_verify h m n k =
     (if take 16 h = crypto_onetimeauth_poly1305 m n k then 0 else -1)"
proof -
  let ?c = "crypto_onetimeauth_poly1305 m n k"
  let ?ps = "map (\<lambda>i. (?c ! i, h ! i)) [0..<16]"
  have ps: "?ps = zip ?c (take 16 h)"
    using assms by (intro nth_equalityI) simp_all
  have "crypto_onetimeauth_poly1305_verify h m n k = (if byte_diff 0 ?ps = 0 then 0 else -1)"
    using verify_diff_ucast [of 0 ?ps] verify_flag [of "byte_diff 0 ?ps"]
    by (simp add: crypto_onetimeauth_poly1305_verify_def Let_def)
  also have "byte_diff 0 ?ps = 0 \<longleftrightarrow> ?c = take 16 h"
    unfolding ps using byte_diff_0 [of 0 "zip ?c (take 16 h)"] zip_all_eq [of ?c "take 16 h"] assms by simp
  finally show ?thesis by (simp add: eq_commute [of ?c])
qed

section \<open>Properties\<close>

text \<open>
  C23. The authenticator on five 26-bit limbs, with its lazy carries in 32- and 64-bit words, its
  partial reductions and its masked last subtraction, computes the Poly1305 of RFC 8439 for every
  key and every message: no product or carry wraps around, and the result is the polynomial in
  the clamped \<open>r\<close> modulo \<open>2 ^ 130 - 5\<close>, plus \<open>s\<close>, modulo \<open>2 ^ 128\<close>.
\<close>

theorem poly1305_rfc8439:
  assumes "length k = 32"
  shows "crypto_onetimeauth_poly1305 m (length m) k = poly1305_spec m k"
  using assms by (rule poly1305_correct)

theorem poly1305_rfc8439_witness:
  "crypto_onetimeauth_poly1305 (replicate 37 0xff) 37 (replicate 32 0xff) =
    poly1305_spec (replicate 37 0xff) (replicate 32 0xff)"
  using poly1305_rfc8439 [of "replicate 32 0xff" "replicate 37 0xff"] by simp

end
