(* ===== verification/Aead.thy ===== *)
theory Aead
  imports Chacha Poly1305
begin

text \<open>
  glo_aead.c, AEAD_CHACHA20_POLY1305 of RFC 8439, and glo_record.c, the TLS 1.3 record layer on
  top of it. \<open>mem n\<close> says whether an allocation of \<open>n\<close> bytes succeeds; an output array is passed in
  with its old contents, which a call that fails before it writes returns unchanged.
\<close>

section \<open>glo_aead.c\<close>

definition store64_le :: "u64 \<Rightarrow> bytes" where
  "store64_le v = pack_le 8 v"

definition poly_tag :: "(nat \<Rightarrow> bool) \<Rightarrow> bytes \<Rightarrow> bytes \<Rightarrow> bytes \<Rightarrow> bytes \<Rightarrow> int \<times> bytes" where
  "poly_tag mem tag otk aad ct =
     (let aadlen = length aad; ctlen = length ct;
          apad = (16 - (aadlen AND 15)) AND 15;
          cpad = (16 - (ctlen AND 15)) AND 15;
          mlen = aadlen + apad + ctlen + cpad + 16
      in if \<not> mem (if mlen \<noteq> 0 then mlen else 1) then (-1, tag)
         else let m = aad @ replicate apad 0 @ ct @ replicate cpad 0 @
                      store64_le (word_of_nat aadlen) @ store64_le (word_of_nat ctlen)
              in (0, crypto_onetimeauth_poly1305 m mlen otk))"

text \<open>The result is the return value, \<open>ct\<close> and \<open>tag\<close>.\<close>

definition glo_aead_seal ::
    "(nat \<Rightarrow> bool) \<Rightarrow> bytes \<Rightarrow> bytes \<Rightarrow> bytes \<Rightarrow> bytes \<Rightarrow> bytes \<Rightarrow> int \<times> bytes \<times> bytes" where
  "glo_aead_seal mem tag pt aad key nonce =
     (let otk = glo_chacha20_xor None 32 key nonce 0;
          ct = glo_chacha20_xor (Some pt) (length pt) key nonce 1;
          (rc, tag) = poly_tag mem tag otk aad ct
      in (rc, ct, tag))"

definition glo_aead_open ::
    "(nat \<Rightarrow> bool) \<Rightarrow> bytes \<Rightarrow> bytes \<Rightarrow> bytes \<Rightarrow> bytes \<Rightarrow> bytes \<Rightarrow> bytes \<Rightarrow> int \<times> bytes" where
  "glo_aead_open mem pt ct tag aad key nonce =
     (let otk = glo_chacha20_xor None 32 key nonce 0;
          (rc, expect) = poly_tag mem [] otk aad ct
      in if rc \<noteq> 0 then (-1, pt)
         else if crypto_verify_16 expect tag \<noteq> Inr 0 then (-1, pt)
         else (0, glo_chacha20_xor (Some ct) (length ct) key nonce 1))"

section \<open>glo_record.c\<close>

definition build_nonce :: "bytes \<Rightarrow> u64 \<Rightarrow> bytes" where
  "build_nonce iv seq =
     foldl (\<lambda>nonce i. nonce[11 - i := nonce ! (11 - i) XOR ucast (drop_bit (8 * i) seq)]) iv [0..<8]"

text \<open>The result is the return value and, on success, the record written to \<open>out\<close>.\<close>

definition glo_record_seal :: "(nat \<Rightarrow> bool) \<Rightarrow> bytes \<Rightarrow> u8 \<Rightarrow> bytes \<Rightarrow> bytes \<Rightarrow> u64 \<Rightarrow> int \<times> bytes" where
  "glo_record_seal mem content content_type key iv seq =
     (let innerlen = length content + 1; len = innerlen + 16
      in if len > 0xffff then (-1, [])
         else if \<not> mem innerlen then (-1, [])
         else let inner = content @ [content_type];
                  hdr = [0x17, 0x03, 0x03, word_of_nat (len div 256), word_of_nat (len mod 256)];
                  nonce = build_nonce iv seq;
                  (rc, ct, tag) = glo_aead_seal mem (replicate 16 0) inner hdr key nonce
              in if rc \<noteq> 0 then (rc, []) else (0, hdr @ ct @ tag))"

text \<open>\<open>while (n > 0 && inner[n - 1] == 0) n--;\<close>\<close>

primrec strip_padding :: "bytes \<Rightarrow> nat \<Rightarrow> nat" where
  "strip_padding inner 0 = 0"
| "strip_padding inner (Suc n) = (if inner ! n = 0 then strip_padding inner n else Suc n)"

definition glo_record_open :: "(nat \<Rightarrow> bool) \<Rightarrow> bytes \<Rightarrow> bytes \<Rightarrow> bytes \<Rightarrow> u64 \<Rightarrow> (bytes \<times> u8) option" where
  "glo_record_open mem record key iv seq =
     (if length record < 5 + 16 then None
      else if record ! 0 \<noteq> 0x17 then None
      else let len = 256 * unat (record ! 3) + unat (record ! 4) in
           if len + 5 \<noteq> length record then None
           else if len < 16 then None
           else let innerlen = len - 16; ct = take innerlen (drop 5 record);
                    tag = drop (5 + innerlen) record
                in if \<not> mem (if innerlen \<noteq> 0 then innerlen else 1) then None
                   else let nonce = build_nonce iv seq;
                            (rc, inner) = glo_aead_open mem [] ct tag (take 5 record) key nonce
                        in if rc \<noteq> 0 then None
                           else let n = strip_padding inner innerlen
                                in if n = 0 then None
                                   else Some (take (n - 1) inner, inner ! (n - 1)))"

section \<open>The specification of the tag\<close>

definition pad16 :: "bytes \<Rightarrow> bytes" where
  "pad16 x = x @ replicate ((16 - length x mod 16) mod 16) 0"

definition rfc_mac_data :: "bytes \<Rightarrow> bytes \<Rightarrow> bytes" where
  "rfc_mac_data aad ct = pad16 aad @ pad16 ct @ le_bytes 8 (length aad) @ le_bytes 8 (length ct)"

definition aead_key :: "bytes \<Rightarrow> bytes \<Rightarrow> bytes" where
  "aead_key key nonce = glo_chacha20_xor None 32 key nonce 0"

definition rfc_tag :: "bytes \<Rightarrow> bytes \<Rightarrow> bytes \<Rightarrow> bytes \<Rightarrow> bytes" where
  "rfc_tag key nonce aad ct = poly1305_spec (rfc_mac_data aad ct) (aead_key key nonce)"

lemma and_15_mod: "(n :: nat) AND 15 = n mod 16"
  using take_bit_eq_mask [of 4 n] by (simp add: take_bit_eq_mod mask_eq_exp_minus_1)

lemma pack_le_le_bytes: "n \<le> 2 ^ 60 \<Longrightarrow> pack_le 8 (word_of_nat n :: u64) = le_bytes 8 n"
proof -
  assume "n \<le> 2 ^ 60"
  then have "le_nat (pack_le 8 (word_of_nat n :: u64)) = le_nat (le_bytes 8 n)"
    by (simp add: le_nat_pack_le le_nat_le_bytes unsigned_of_nat take_bit_eq_mod)
  then show ?thesis by (subst (asm) le_nat_inject) simp_all
qed

lemma length_aead_key [simp]: "length (aead_key key nonce) = 32"
  by (simp add: aead_key_def glo_chacha20_xor_length)

lemma poly_tag_rfc:
  assumes "mem (length (rfc_mac_data aad ct))" and "length otk = 32"
    and "length aad \<le> 2 ^ 60" and "length ct \<le> 2 ^ 60"
  shows "poly_tag mem tag otk aad ct = (0, poly1305_spec (rfc_mac_data aad ct) otk)"
proof -
  have m: "aad @ replicate ((16 - (length aad AND 15)) AND 15) 0 @ ct @ replicate ((16 - (length ct AND 15)) AND 15) 0 @
      store64_le (word_of_nat (length aad)) @ store64_le (word_of_nat (length ct)) = rfc_mac_data aad ct"
    using assms by (simp add: rfc_mac_data_def pad16_def store64_le_def pack_le_le_bytes and_15_mod)
  have l: "length aad + ((16 - (length aad AND 15)) AND 15) + length ct + ((16 - (length ct AND 15)) AND 15) + 16 =
      length (rfc_mac_data aad ct)"
    by (simp add: rfc_mac_data_def pad16_def and_15_mod)
  have "length (rfc_mac_data aad ct) \<noteq> 0" by (simp add: rfc_mac_data_def)
  then show ?thesis
    using assms(1) unfolding poly_tag_def Let_def m l
    by (simp add: poly1305_correct [OF assms(2)])
qed

lemma glo_aead_seal_rfc:
  assumes "\<And>n. mem n" and "length aad \<le> 2 ^ 60" and "length pt \<le> 2 ^ 60"
  shows "glo_aead_seal mem tag pt aad key nonce =
     (let ct = glo_enc (key, nonce, 1) pt in (0, ct, rfc_tag key nonce aad ct))"
  using assms
  by (simp add: glo_aead_seal_def Let_def glo_enc_def rfc_tag_def poly_tag_rfc glo_chacha20_xor_length
      flip: aead_key_def)

lemma length_rfc_tag [simp]: "length (rfc_tag key nonce aad ct) = 16"
  by (simp add: rfc_tag_def poly1305_spec_def Let_def)

lemma crypto_verify_16_iff:
  assumes "length a = 16" and "length b = 16"
  shows "crypto_verify_16 a b = Inr 0 \<longleftrightarrow> b = a"
proof -
  have "verify a b 16 = Inr (if take (nat 16) a = take (nat 16) b then 0 else -1)"
    by (rule verify_eq) (simp_all add: assms)
  then show ?thesis using assms by (auto simp: crypto_verify_16_def)
qed

lemma glo_aead_open_rfc:
  assumes "\<And>n. mem n" and "length aad \<le> 2 ^ 60" and "length ct \<le> 2 ^ 60" and "length tag = 16"
  shows "glo_aead_open mem pt ct tag aad key nonce =
     (if tag = rfc_tag key nonce aad ct then (0, glo_enc (key, nonce, 1) ct) else (-1, pt))"
proof -
  have t: "poly_tag mem [] (glo_chacha20_xor None 32 key nonce 0) aad ct = (0, rfc_tag key nonce aad ct)"
    unfolding rfc_tag_def aead_key_def
    by (rule poly_tag_rfc) (use assms in \<open>simp_all only: glo_chacha20_xor_length\<close>)
  have v: "crypto_verify_16 (rfc_tag key nonce aad ct) tag = Inr 0 \<longleftrightarrow> tag = rfc_tag key nonce aad ct"
    using assms(4) by (intro crypto_verify_16_iff) simp_all
  show ?thesis unfolding glo_aead_open_def Let_def t prod.case v glo_enc_def by simp
qed

section \<open>The interface of an AEAD\<close>

text \<open>
  What the record layer relies on: a sealed text has a 16-byte tag and the length of the plaintext,
  and a ciphertext and tag open to \<open>p\<close> exactly if they are what sealing \<open>p\<close> gives.
\<close>

locale aead =
  fixes ok :: "bytes \<Rightarrow> nat \<Rightarrow> bool"
    and seal :: "'k \<Rightarrow> bytes \<Rightarrow> bytes \<Rightarrow> bytes \<times> bytes"
    and opn :: "'k \<Rightarrow> bytes \<Rightarrow> bytes \<Rightarrow> bytes \<Rightarrow> bytes option"
  assumes seal_length: "ok a (length p) \<Longrightarrow> length (fst (seal k a p)) = length p \<and> length (snd (seal k a p)) = 16"
    and open_iff: "ok a (length c) \<Longrightarrow> length t = 16 \<Longrightarrow> length p = length c \<Longrightarrow>
      opn k a c t = Some p \<longleftrightarrow> seal k a p = (c, t)"
begin

lemma open_seal:
  assumes "ok a (length p)"
  shows "opn k a (fst (seal k a p)) (snd (seal k a p)) = Some p"
proof -
  note l = seal_length [OF assms, of k]
  have "ok a (length (fst (seal k a p)))" using l assms by (simp only:)
  then show ?thesis using l by (subst open_iff) (simp_all only: prod.collapse)
qed

lemma seal_inject:
  assumes "ok a (length p)" and "ok a (length q)"
  shows "seal k a p = seal k a q \<longleftrightarrow> p = q"
  using open_seal [OF assms(1), of k] open_seal [OF assms(2), of k] by (metis option.inject)

text \<open>A ciphertext has one tag: changing the tag alone makes it fail to open to the same text.\<close>

lemma tag_unique:
  assumes "ok a (length c)" and "length t = 16" and "length t' = 16" and "length p = length c"
    and "opn k a c t = Some p" and "opn k a c t' = Some p"
  shows "t = t'"
  using assms open_iff [of a c t p k] open_iff [of a c t' p k] by simp

end

definition aead_ok :: "bytes \<Rightarrow> nat \<Rightarrow> bool" where
  "aead_ok a n \<longleftrightarrow> length a \<le> 2 ^ 60 \<and> n \<le> 2 ^ 60"

definition aead_seal :: "bytes \<times> bytes \<Rightarrow> bytes \<Rightarrow> bytes \<Rightarrow> bytes \<times> bytes" where
  "aead_seal k a p = (case k of (key, nonce) \<Rightarrow> snd (glo_aead_seal (\<lambda>n. True) (replicate 16 0) p a key nonce))"

definition aead_open :: "bytes \<times> bytes \<Rightarrow> bytes \<Rightarrow> bytes \<Rightarrow> bytes \<Rightarrow> bytes option" where
  "aead_open k a c t = (case k of (key, nonce) \<Rightarrow>
     case glo_aead_open (\<lambda>n. True) [] c t a key nonce of (rc, p) \<Rightarrow> if rc = 0 then Some p else None)"

lemma aead_seal_eq:
  assumes "aead_ok a (length p)"
  shows "aead_seal (key, nonce) a p = (glo_enc (key, nonce, 1) p, rfc_tag key nonce a (glo_enc (key, nonce, 1) p))"
  using assms glo_aead_seal_rfc [of "\<lambda>n. True" a p "replicate 16 0" key nonce]
  by (simp only: aead_ok_def aead_seal_def prod.case Let_def snd_conv)

lemma aead_open_eq:
  assumes "aead_ok a (length c)" and "length t = 16"
  shows "aead_open (key, nonce) a c t =
     (if t = rfc_tag key nonce a c then Some (glo_enc (key, nonce, 1) c) else None)"
proof -
  have "glo_aead_open (\<lambda>n. True) [] c t a key nonce =
      (if t = rfc_tag key nonce a c then (0, glo_enc (key, nonce, 1) c) else (-1, []))"
    using assms by (intro glo_aead_open_rfc) (simp_all only: aead_ok_def)
  then show ?thesis unfolding aead_open_def prod.case by (simp split: if_splits)
qed

interpretation chachapoly: aead aead_ok aead_seal aead_open
proof
  fix a p c t :: bytes and k :: "bytes \<times> bytes"
  obtain key nonce where k: "k = (key, nonce)" by (cases k)
  show "length (fst (aead_seal k a p)) = length p \<and> length (snd (aead_seal k a p)) = 16" if "aead_ok a (length p)"
    using that glo.enc_length [of "(key, nonce, 1)" p] by (simp add: k aead_seal_eq)
  show "aead_open k a c t = Some p \<longleftrightarrow> aead_seal k a p = (c, t)"
    if "aead_ok a (length c)" "length t = 16" "length p = length c"
  proof -
    have "aead_ok a (length p)" using that by simp
    then show ?thesis
      using that(1,2) glo.enc_swap [of "(key, nonce, 1)" p c] by (auto simp: k aead_seal_eq aead_open_eq)
  qed
qed

section \<open>Records\<close>

lemma build_nonce_eq:
  assumes "length iv = 12"
  shows "build_nonce iv seq = xor_bytes iv (replicate 4 0 @ pack_be 8 seq)"
proof -
  obtain i0 i1 i2 i3 i4 i5 i6 i7 i8 i9 i10 i11 where iv: "iv = [i0, i1, i2, i3, i4, i5, i6, i7, i8, i9, i10, i11]"
    using assms by (auto simp: length_Suc_conv numeral_eq_Suc)
  have u: "[0..<8] = [0, 1, 2, 3, 4, 5, 6, 7 :: nat]" by (simp add: upt_rec)
  have e: "(8 :: nat) = Suc (Suc (Suc (Suc (Suc (Suc (Suc (Suc 0)))))))" "(4 :: nat) = Suc (Suc (Suc (Suc 0)))"
    by simp_all
  show ?thesis
    unfolding build_nonce_def u iv xor_bytes_def pack_be_def
    by (simp add: e(2), subst e(1), simp add: drop_bit_drop_bit)
qed

lemma build_nonce_inject:
  assumes "length iv = 12"
  shows "build_nonce iv seq = build_nonce iv seq' \<longleftrightarrow> seq = seq'"
proof -
  have undo: "xor_bytes (build_nonce iv s) iv = replicate 4 0 @ pack_be 8 s" for s
  proof -
    let ?r = "replicate 4 (0 :: u8) @ pack_be 8 s"
    have l: "length ?r = length iv" using assms by simp
    have "xor_bytes iv ?r = xor_bytes ?r iv"
      unfolding xor_bytes_def using l by (intro nth_equalityI) (simp_all add: xor.commute)
    then show ?thesis
      using l unfolding build_nonce_eq [OF assms] by (simp only: xor_bytes_involution)
  qed
  show ?thesis
  proof
    assume eq: "build_nonce iv seq = build_nonce iv seq'"
    have "replicate 4 (0 :: u8) @ pack_be 8 seq = replicate 4 0 @ pack_be 8 seq'"
      by (rule arg_cong [OF eq, of "\<lambda>n. xor_bytes n iv", unfolded undo])
    then have p: "pack_be 8 seq = pack_be 8 seq'" by (simp only: same_append_eq)
    have "seq = unpack_be (pack_be 8 seq)" by (rule unpack_be_pack_be [symmetric]) simp
    also have "\<dots> = seq'" unfolding p by (rule unpack_be_pack_be) simp
    finally show "seq = seq'" .
  qed simp
qed

lemma strip_padding_cong:
  "(\<And>i. i < m \<Longrightarrow> xs ! i = ys ! i) \<Longrightarrow> strip_padding xs m = strip_padding ys m"
  by (induction m) simp_all

lemma strip_padding_zeros:
  "(\<And>i. k \<le> i \<Longrightarrow> i < m \<Longrightarrow> xs ! i = 0) \<Longrightarrow> k \<le> m \<Longrightarrow> strip_padding xs m = strip_padding xs k"
proof (induction m)
  case (Suc m)
  show ?case
  proof (cases "k = Suc m")
    case False
    with Suc show ?thesis by simp
  qed simp
qed simp

lemma strip_padding_le: "strip_padding xs m \<le> m"
  by (induction m) auto

lemma strip_padding_above: "strip_padding xs m \<le> i \<Longrightarrow> i < m \<Longrightarrow> xs ! i = 0"
  by (induction m) (auto simp: less_Suc_eq split: if_splits)

lemma strip_padding_last: "strip_padding xs m \<noteq> 0 \<Longrightarrow> xs ! (strip_padding xs m - 1) \<noteq> 0"
  by (induction m) auto

text \<open>The inner plaintext of RFC 8446 5.2: content, a non-zero type byte, zeros.\<close>

lemma strip_padding_iff:
  "strip_padding inner (length inner) = Suc k \<and> take k inner = c \<and> inner ! k = t \<longleftrightarrow>
     t \<noteq> 0 \<and> length c = k \<and> (\<exists>n. inner = c @ t # replicate n 0)"
proof
  assume *: "strip_padding inner (length inner) = Suc k \<and> take k inner = c \<and> inner ! k = t"
  then have k: "k < length inner" using strip_padding_le [of inner "length inner"] by simp
  have "drop (Suc k) inner = replicate (length inner - Suc k) 0"
    using strip_padding_above [of inner "length inner"] * k by (intro nth_equalityI) auto
  moreover have "inner = take k inner @ inner ! k # drop (Suc k) inner" using k by (rule id_take_nth_drop)
  ultimately show "t \<noteq> 0 \<and> length c = k \<and> (\<exists>n. inner = c @ t # replicate n 0)"
    using * k strip_padding_last [of inner "length inner"] by auto
next
  assume "t \<noteq> 0 \<and> length c = k \<and> (\<exists>n. inner = c @ t # replicate n 0)"
  then obtain n where t: "t \<noteq> 0" "length c = k" "inner = c @ t # replicate n 0" by blast
  have "strip_padding inner (length inner) = strip_padding inner (Suc k)"
    by (rule strip_padding_zeros) (use t in \<open>auto simp: nth_append nth_Cons split: nat.splits\<close>)
  with t show "strip_padding inner (length inner) = Suc k \<and> take k inner = c \<and> inner ! k = t"
    by (simp add: nth_append)
qed

definition record_hdr :: "u8 \<Rightarrow> u8 \<Rightarrow> nat \<Rightarrow> bytes" where
  "record_hdr v1 v2 len = [0x17, v1, v2, word_of_nat (len div 256), word_of_nat (len mod 256)]"

text \<open>The record that carries the inner plaintext, with the version bytes of its header.\<close>

definition rfc_record :: "u8 \<Rightarrow> u8 \<Rightarrow> bytes \<Rightarrow> bytes \<Rightarrow> bytes \<Rightarrow> bytes" where
  "rfc_record v1 v2 key nonce inner =
     (let hdr = record_hdr v1 v2 (length inner + 16); (ct, tag) = aead_seal (key, nonce) hdr inner
      in hdr @ ct @ tag)"

lemma length_record_hdr [simp]: "length (record_hdr v1 v2 len) = 5"
  by (simp add: record_hdr_def)

lemma record_hdr_len:
  "len \<le> 0xffff \<Longrightarrow> 256 * unat (record_hdr v1 v2 len ! 3) + unat (record_hdr v1 v2 len ! 4) = len"
  by (simp add: record_hdr_def unsigned_of_nat take_bit_eq_mod)

lemma aead_ok_hdr: "n \<le> 0xffff \<Longrightarrow> aead_ok (record_hdr v1 v2 len) n"
  by (simp add: aead_ok_def)

lemma aead_seal_pair:
  "snd (glo_aead_seal (\<lambda>n. True) (replicate 16 0) p a key nonce) = aead_seal (key, nonce) a p"
  by (simp add: aead_seal_def)

lemma glo_record_seal_eq:
  "glo_record_seal (\<lambda>n. True) content t key iv seq =
     (if length content + 17 > 0xffff then (-1, [])
      else (0, rfc_record 3 3 key (build_nonce iv seq) (content @ [t])))"
proof (cases "length content + 17 > 0xffff")
  case False
  let ?h = "record_hdr 3 3 (length content + 1 + 16)" and ?n = "build_nonce iv seq"
  have h: "[0x17, 0x03, 0x03, word_of_nat ((length content + 1 + 16) div 256), word_of_nat ((length content + 1 + 16) mod 256)] = ?h"
    by (simp only: record_hdr_def)
  obtain rc ct tag where s: "glo_aead_seal (\<lambda>n. True) (replicate 16 0) (content @ [t]) ?h key ?n = (rc, ct, tag)"
    by (metis prod_cases3)
  have "rc = 0"
    using s glo_aead_seal_rfc [of "\<lambda>n. True" ?h "content @ [t]" "replicate 16 0" key ?n] False
    by (simp add: Let_def)
  moreover have "aead_seal (key, ?n) ?h (content @ [t]) = (ct, tag)"
    using aead_seal_pair [of "content @ [t]" ?h key ?n] s by simp
  ultimately show ?thesis
    using False unfolding glo_record_seal_def Let_def h s rfc_record_def by simp
qed (simp add: glo_record_seal_def Let_def)

lemma record_split:
  assumes "5 + 16 \<le> length rec" and "rec ! 0 = 0x17"
    and "256 * unat (rec ! 3) + unat (rec ! 4) + 5 = length rec"
  obtains v1 v2 ct tag where "rec = record_hdr v1 v2 (length rec - 5) @ ct @ tag" and "length ct + 21 = length rec"
    and "length tag = 16" and "length rec \<le> 0xffff + 5"
proof
  have b: "unat (rec ! 3) < 256" "unat (rec ! 4) < 256"
    using unsigned_less [of "rec ! 3"] unsigned_less [of "rec ! 4"] by simp_all
  then show "length rec \<le> 0xffff + 5" using assms(3) by simp
  have l: "length rec - 5 = 256 * unat (rec ! 3) + unat (rec ! 4)" using assms(3) by simp
  have "take 5 rec = [rec ! 0, rec ! 1, rec ! 2, rec ! 3, rec ! 4]"
    using assms(1) by (intro nth_equalityI) (auto simp: less_Suc_eq numeral_eq_Suc)
  then have "take 5 rec = record_hdr (rec ! 1) (rec ! 2) (length rec - 5)"
    using b assms(2) by (simp add: record_hdr_def l)
  then show "rec = record_hdr (rec ! 1) (rec ! 2) (length rec - 5) @ take (length rec - 21) (drop 5 rec) @
      drop (length rec - 21) (drop 5 rec)"
    by (metis append_take_drop_id)
  show "length (take (length rec - 21) (drop 5 rec)) + 21 = length rec" using assms(1) by simp
  show "length (drop (length rec - 21) (drop 5 rec)) = 16" using assms(1) by simp
qed

lemma glo_record_open_parts:
  assumes "length tag = 16" and "length ct + 16 \<le> 0xffff"
  shows "glo_record_open (\<lambda>n. True) (record_hdr v1 v2 (length ct + 16) @ ct @ tag) key iv seq =
     (case aead_open (key, build_nonce iv seq) (record_hdr v1 v2 (length ct + 16)) ct tag of
        None \<Rightarrow> None
      | Some inner \<Rightarrow> (let n = strip_padding inner (length ct)
                    in if n = 0 then None else Some (take (n - 1) inner, inner ! (n - 1))))"
proof -
  let ?h = "record_hdr v1 v2 (length ct + 16)"
  let ?r = "?h @ ct @ tag"
  have l: "length ?r = length ct + 21" using assms by simp
  have f: "?r ! 0 = 0x17" by (simp add: record_hdr_def)
  have n: "256 * unat (?r ! 3) + unat (?r ! 4) = length ct + 16"
    using record_hdr_len [OF assms(2), of v1 v2] by (simp add: nth_append)
  have c: "take (length ct + 16 - 16) (drop 5 ?r) = ct" "drop (5 + (length ct + 16 - 16)) ?r = tag" "take 5 ?r = ?h"
    by simp_all
  have i: "length ct + 16 - 16 = length ct" by simp
  have g: "\<not> length ct + 21 < 5 + 16" "length ct + 16 + 5 = length ct + 21" "\<not> length ct + 16 < 16" by simp_all
  show ?thesis
    unfolding glo_record_open_def Let_def n c l f g aead_open_def prod.case i
    by (simp split: prod.split)
qed

lemma record_open_iff:
  "glo_record_open (\<lambda>n. True) rec key iv seq = Some (content, t) \<longleftrightarrow>
     t \<noteq> 0 \<and> (\<exists>v1 v2 n. length content + 1 + n + 16 \<le> 0xffff \<and>
       rec = rfc_record v1 v2 key (build_nonce iv seq) (content @ t # replicate n 0))"
proof
  let ?k = "(key, build_nonce iv seq)"
  assume o: "glo_record_open (\<lambda>n. True) rec key iv seq = Some (content, t)"
  then have "5 + 16 \<le> length rec" "rec ! 0 = 0x17" "256 * unat (rec ! 3) + unat (rec ! 4) + 5 = length rec"
    unfolding glo_record_open_def Let_def by (metis not_less option.distinct(1))+
  then obtain v1 v2 ct tag where r: "rec = record_hdr v1 v2 (length rec - 5) @ ct @ tag"
    "length ct + 21 = length rec" "length tag = 16" "length rec \<le> 0xffff + 5"
    by (rule record_split)
  let ?h = "record_hdr v1 v2 (length ct + 16)"
  have len: "length rec - 5 = length ct + 16" "length ct + 16 \<le> 0xffff" using r by linarith+
  note r1 = r(1) [unfolded len(1)]
  obtain inner where i: "aead_open ?k ?h ct tag = Some inner"
      "strip_padding inner (length ct) \<noteq> 0" "take (strip_padding inner (length ct) - 1) inner = content"
      "inner ! (strip_padding inner (length ct) - 1) = t"
    using o glo_record_open_parts [OF r(3) len(2), of v1 v2 key iv seq] unfolding r1 [symmetric]
    by (auto simp: Let_def split: option.splits if_splits)
  have ok: "aead_ok ?h (length ct)" using len(2) by (intro aead_ok_hdr) linarith
  have li: "length inner = length ct"
    using i(1) glo.enc_length [of "(key, build_nonce iv seq, 1)" ct]
    unfolding aead_open_eq [OF ok r(3)] by (auto split: if_splits)
  then have "aead_seal ?k ?h inner = (ct, tag)" using chachapoly.open_iff [OF ok r(3)] i(1) by blast
  then have "rec = rfc_record v1 v2 key (build_nonce iv seq) inner"
    unfolding rfc_record_def Let_def li by (simp add: r1)
  moreover obtain k where "strip_padding inner (length ct) = Suc k" using i(2) not0_implies_Suc by blast
  then have "t \<noteq> 0 \<and> length content = k \<and> (\<exists>n. inner = content @ t # replicate n 0)"
    using i li by (subst strip_padding_iff [symmetric]) simp
  then obtain n where n: "t \<noteq> 0" "inner = content @ t # replicate n 0" by blast
  moreover have "length content + 1 + n + 16 \<le> 0xffff" using n(2) li len(2) by simp
  ultimately show "t \<noteq> 0 \<and> (\<exists>v1 v2 n. length content + 1 + n + 16 \<le> 0xffff \<and>
       rec = rfc_record v1 v2 key (build_nonce iv seq) (content @ t # replicate n 0))"
    by blast
next
  let ?k = "(key, build_nonce iv seq)"
  assume "t \<noteq> 0 \<and> (\<exists>v1 v2 n. length content + 1 + n + 16 \<le> 0xffff \<and>
       rec = rfc_record v1 v2 key (build_nonce iv seq) (content @ t # replicate n 0))"
  then obtain v1 v2 n where t: "t \<noteq> 0" and l: "length content + 1 + n + 16 \<le> 0xffff"
    and r: "rec = rfc_record v1 v2 key (build_nonce iv seq) (content @ t # replicate n 0)" by blast
  let ?i = "content @ t # replicate n 0"
  let ?h = "record_hdr v1 v2 (length ?i + 16)"
  have li: "length ?i + 16 \<le> 0xffff" using l by simp
  have ok: "aead_ok ?h (length ?i)" using li by (intro aead_ok_hdr) linarith
  obtain ct tag where s: "aead_seal ?k ?h ?i = (ct, tag)" by (metis prod.exhaust)
  have lc: "length ct = length ?i" "length tag = 16" using chachapoly.seal_length [OF ok, of ?k] s by simp_all
  have o: "aead_open ?k ?h ct tag = Some ?i" using chachapoly.open_seal [OF ok, of ?k] s by simp
  have rec: "rec = record_hdr v1 v2 (length ct + 16) @ ct @ tag"
    unfolding r rfc_record_def Let_def s prod.case lc(1) by (rule refl)
  have p: "strip_padding ?i (length ?i) = Suc (length content) \<and> take (length content) ?i = content \<and>
      ?i ! length content = t"
    using t by (subst strip_padding_iff) auto
  have "glo_record_open (\<lambda>n. True) rec key iv seq =
      (case Some ?i of None \<Rightarrow> None
      | Some inner \<Rightarrow> (let n = strip_padding inner (length ct)
                    in if n = 0 then None else Some (take (n - 1) inner, inner ! (n - 1))))"
    unfolding rec using li o by (subst glo_record_open_parts) (simp_all only: lc)
  then show "glo_record_open (\<lambda>n. True) rec key iv seq = Some (content, t)"
    unfolding lc(1) option.case Let_def using p by simp
qed

text \<open>
  C18. \<open>glo_record_open\<close> accepts a record exactly if it is the protected form of some content, type
  and padding under this key, IV and sequence number, and then returns that content and type: no
  byte of the header, ciphertext or tag can change without the record being refused, and the
  only freedom is the two version bytes, which are authenticated but not compared.
\<close>

theorem glo_record_open_iff:
  "glo_record_open (\<lambda>n. True) rec key iv seq = Some (content, t) \<longleftrightarrow>
     t \<noteq> 0 \<and> (\<exists>v1 v2 n. length content + 1 + n + 16 \<le> 0xffff \<and>
       rec = rfc_record v1 v2 key (build_nonce iv seq) (content @ t # replicate n 0))"
  by (rule record_open_iff)

text \<open>
  C33. What \<open>glo_record_seal\<close> produces from a content of any length up to the 65518 bytes it accepts
  and a non-zero type is 22 bytes longer than the content, and \<open>glo_record_open\<close> with the same
  key, IV and sequence number gives back the content and the type. (The header's
  \<open>GLO_RECORD_OVERHEAD\<close> is 21.)
\<close>

theorem glo_record_roundtrip:
  assumes "t \<noteq> 0" and "length content + 17 \<le> 0xffff"
  shows "\<exists>record. glo_record_seal (\<lambda>n. True) content t key iv seq = (0, record) \<and>
    length record = length content + 22 \<and>
    glo_record_open (\<lambda>n. True) record key iv seq = Some (content, t)"
proof (intro exI conjI)
  let ?r = "rfc_record 3 3 key (build_nonce iv seq) (content @ [t])"
  let ?h = "record_hdr 3 3 (length (content @ [t]) + 16)"
  show "glo_record_seal (\<lambda>n. True) content t key iv seq = (0, ?r)"
    using assms(2) by (simp add: glo_record_seal_eq)
  have ok: "aead_ok ?h (length (content @ [t]))" using assms(2) by (intro aead_ok_hdr) simp
  show "length ?r = length content + 22"
    using chachapoly.seal_length [OF ok, of "(key, build_nonce iv seq)"]
    unfolding rfc_record_def Let_def by (auto split: prod.split)
  show "glo_record_open (\<lambda>n. True) ?r key iv seq = Some (content, t)"
    unfolding record_open_iff
    by (intro conjI exI [of _ 3] exI [of _ 0]) (use assms in simp_all)
qed

theorem glo_record_roundtrip_witness:
  "\<exists>record. glo_record_seal (\<lambda>n. True) [1, 2, 0] 23 (replicate 32 7) (replicate 12 9) 5 = (0, record) \<and>
    length record = 25 \<and>
    glo_record_open (\<lambda>n. True) record (replicate 32 7) (replicate 12 9) 5 = Some ([1, 2, 0], 23)"
  using glo_record_roundtrip [of 23 "[1, 2, 0]" "replicate 32 7" "replicate 12 9" 5] by simp

text \<open>
  Two records sealed under the same IV never use the same nonce, since the nonce determines
  the 64-bit sequence number.
\<close>

theorem record_nonces_distinct:
  assumes "length iv = 12"
  shows "build_nonce iv seq = build_nonce iv seq' \<longleftrightarrow> seq = seq'"
  using assms by (rule build_nonce_inject)

theorem record_nonces_distinct_witness:
  "build_nonce [1, 2, 3, 4, 5, 6, 7, 8, 9, 10, 11, 12] 0 \<noteq> build_nonce [1, 2, 3, 4, 5, 6, 7, 8, 9, 10, 11, 12] 256"
  using record_nonces_distinct [of "[1, 2, 3, 4, 5, 6, 7, 8, 9, 10, 11, 12]" 0 256] by simp

text \<open>
  C19. Sealing computes the ciphertext and the tag of RFC 8439; opening releases the plaintext
  exactly if the tag is the RFC 8439 tag of the associated data and ciphertext, and otherwise, or
  if memory runs out, returns -1 and leaves the output array as it was.
\<close>

theorem glo_aead_rfc8439:
  assumes "length aad \<le> 2 ^ 60" and "length ct \<le> 2 ^ 60" and "length tag = 16"
  shows "glo_aead_open (\<lambda>n. True) out ct tag aad key nonce =
      (if tag = rfc_tag key nonce aad ct then (0, glo_enc (key, nonce, 1) ct) else (-1, out)) \<and>
    glo_aead_open (\<lambda>n. False) out ct tag aad key nonce = (-1, out) \<and>
    glo_aead_seal (\<lambda>n. True) tag ct aad key nonce =
      (0, glo_enc (key, nonce, 1) ct, rfc_tag key nonce aad (glo_enc (key, nonce, 1) ct))"
proof (intro conjI)
  show "glo_aead_open (\<lambda>n. True) out ct tag aad key nonce =
      (if tag = rfc_tag key nonce aad ct then (0, glo_enc (key, nonce, 1) ct) else (-1, out))"
    using assms by (intro glo_aead_open_rfc) auto
  show "glo_aead_open (\<lambda>n. False) out ct tag aad key nonce = (-1, out)"
    by (simp add: glo_aead_open_def poly_tag_def)
  show "glo_aead_seal (\<lambda>n. True) tag ct aad key nonce =
      (0, glo_enc (key, nonce, 1) ct, rfc_tag key nonce aad (glo_enc (key, nonce, 1) ct))"
    using glo_aead_seal_rfc [of "\<lambda>n. True" aad ct tag key nonce] assms(1,2) unfolding Let_def by blast
qed

theorem glo_aead_rfc8439_witness:
  "glo_aead_open (\<lambda>n. True) [] [1, 2] (replicate 16 0) [3] (replicate 32 7) (replicate 12 9) =
      (if replicate 16 0 = rfc_tag (replicate 32 7) (replicate 12 9) [3] [1, 2]
       then (0, glo_enc (replicate 32 7, replicate 12 9, 1) [1, 2]) else (-1, []))"
  by (rule glo_aead_rfc8439 [THEN conjunct1]) simp_all

end
