(* ===== verification/Fe25519.thy ===== *)
theory Fe25519
  imports Bytes
begin

text \<open>
  fe.c and fe25519.c: integers modulo \<open>2 ^ 255 - 19\<close> in eight limbs of 32 bits, products in sixteen
  limbs of 64 bits. An array \<open>fe\<close> is a list of eight words. The loops are translated as recursions over
  the limbs; a result array may be one of the arguments, since every limb is read before the limb of the
  same index is written. Every place where a sum has to fit 64 bits is proved.
\<close>

unbundle bit_operations_syntax

type_synonym fe = "u32 list"
type_synonym fel = "u64 list"

section \<open>fe.c\<close>

definition fe_0 :: fe where
  "fe_0 = replicate 8 0"

definition fe_1 :: fe where
  "fe_1 = fe_0[0 := 1]"

definition fe_cswap :: "fe \<Rightarrow> fe \<Rightarrow> u32 \<Rightarrow> fe \<times> fe" where
  "fe_cswap f g b =
     (let b = - b; t = map2 (\<lambda>x y. b AND (x XOR y)) f g
      in (map2 (XOR) f t, map2 (XOR) g t))"

definition fe_cmov :: "fe \<Rightarrow> fe \<Rightarrow> u32 \<Rightarrow> fe" where
  "fe_cmov f g b = (let b = - b; t = map2 (\<lambda>x y. b AND (x XOR y)) f g in map2 (XOR) f t)"

text \<open>The macros \<open>M\<close>, \<open>M2\<close> and \<open>SQ\<close>, and the unrolled loops, in the order of the code.\<close>

definition M :: "fe \<Rightarrow> fe \<Rightarrow> nat \<times> nat \<Rightarrow> fel \<Rightarrow> fel" where
  "M a b = (\<lambda>(i, j) t.
     let u = ucast (a ! i) * ucast (b ! j) :: u64; t = t[i + j := t ! (i + j) + (u AND 0xffffffff)]
     in t[i + j + 1 := t ! (i + j + 1) + drop_bit 32 u])"

definition fe_mul :: "fe \<Rightarrow> fe \<Rightarrow> fel" where
  "fe_mul a b = fold (M a b) (List.product [0..<8] [0..<8]) (replicate 16 0)"

definition M2 :: "fe \<Rightarrow> nat \<times> nat \<Rightarrow> fel \<Rightarrow> fel" where
  "M2 a = (\<lambda>(i, j) t.
     let u = ucast (a ! i) * ucast (a ! j) :: u64; t = t[i + j := t ! (i + j) + 2 * (u AND 0xffffffff)]
     in t[i + j + 1 := t ! (i + j + 1) + 2 * drop_bit 32 u])"

definition SQ :: "fe \<Rightarrow> nat \<Rightarrow> fel \<Rightarrow> fel" where
  "SQ a i t =
     (let u = ucast (a ! i) * ucast (a ! i) :: u64; t = t[2 * i := t ! (2 * i) + (u AND 0xffffffff)]
      in t[2 * i + 1 := t ! (2 * i + 1) + drop_bit 32 u])"

definition fe_sq :: "fe \<Rightarrow> fel" where
  "fe_sq a = fold (SQ a) [0..<8] (fold (M2 a) (concat (map (\<lambda>i. map (Pair i) [Suc i..<8]) [0..<8])) (replicate 16 0))"

text \<open>The first loop of \<open>fe_reducesmall\<close>: a subtraction with borrow.\<close>

fun borrow_sub :: "u64 \<Rightarrow> u32 list \<Rightarrow> u32 list \<Rightarrow> u32 list \<times> u64" where
  "borrow_sub pb (r # rs) (q # qs) =
     (let pb = pb + ucast q; b = drop_bit 63 (ucast r - pb); t = ucast (ucast r - pb + push_bit 32 b);
          (ts, b) = borrow_sub b rs qs
      in (t # ts, b))"
| "borrow_sub pb _ _ = ([], pb)"

definition fe_reducesmall :: "fe \<Rightarrow> fe \<Rightarrow> u64 \<Rightarrow> fe" where
  "fe_reducesmall r q carry =
     (let (t, pb) = borrow_sub 0 r q; b = drop_bit 63 (carry - pb) - 1
      in map2 (\<lambda>x y. x XOR ucast (b AND ucast (x XOR y))) r t)"

section \<open>fe25519.c\<close>

definition fe_p :: fe where
  "fe_p = [0xffffffed, 0xffffffff, 0xffffffff, 0xffffffff, 0xffffffff, 0xffffffff, 0xffffffff, 0x7fffffff]"

definition p3 :: fel where
  "p3 = [0x2ffffffc7, 0x2fffffffd, 0x2fffffffd, 0x2fffffffd, 0x2fffffffd, 0x2fffffffd, 0x2fffffffd, 0x17ffffffd]"

text \<open>
  The loops \<open>u += .. ; o[i] = u & 0xffffffff; u >>= 32\<close> over the summands \<open>ts\<close>; and the two loops that
  \<open>fe25519_reducebig\<close>, \<open>fe25519_mul121666\<close>, \<open>fe25519_add\<close> and \<open>fe25519_sub\<close> have in common, with the
  reduction of what is above bit 255 between them.
\<close>

primrec carry32 :: "u64 \<Rightarrow> u64 list \<Rightarrow> u64 list \<times> u64" where
  "carry32 u [] = ([], u)"
| "carry32 u (t # ts) =
     (let u = u + t; (os, v) = carry32 (drop_bit 32 u) ts in ((u AND 0xffffffff) # os, v))"

definition reduce_words :: "u64 list \<Rightarrow> fe" where
  "reduce_words ts =
     (let (os, u) = carry32 0 (take 7 ts); u = u + ts ! 7; top = u AND 0x7fffffff; u = drop_bit 31 u; u = u * 19;
          (os, u) = carry32 u (os @ [top])
      in map ucast os)"

definition fe25519_reducebig :: "fel \<Rightarrow> fe" where
  "fe25519_reducebig t = reduce_words (map (\<lambda>i. t ! i + 38 * t ! (i + 8)) [0..<8])"

definition fe25519_mul :: "fe \<Rightarrow> fe \<Rightarrow> fe" where
  "fe25519_mul a b = fe25519_reducebig (fe_mul a b)"

definition fe25519_sq :: "fe \<Rightarrow> fe" where
  "fe25519_sq a = fe25519_reducebig (fe_sq a)"

definition fe25519_mul121666 :: "fe \<Rightarrow> fe" where
  "fe25519_mul121666 f = reduce_words (map (\<lambda>x. 121666 * ucast x) f)"

definition fe25519_add :: "fe \<Rightarrow> fe \<Rightarrow> fe" where
  "fe25519_add x y = reduce_words (map2 (\<lambda>x y. ucast x + ucast y) x y)"

definition fe25519_sub :: "fe \<Rightarrow> fe \<Rightarrow> fe" where
  "fe25519_sub x y = reduce_words (map2 (\<lambda>q (x, y). q - ucast y + ucast x) p3 (zip x y))"

definition fe25519_neg :: "fe \<Rightarrow> fe" where
  "fe25519_neg x = fe25519_sub fe_0 x"

text \<open>\<open>fe25519_sq(t, x); for (i = 1; i < n; ++i) fe25519_sq(t, t);\<close>\<close>

definition fe25519_sqn :: "nat \<Rightarrow> fe \<Rightarrow> fe" where
  "fe25519_sqn n x = (fe25519_sq ^^ (n - 1)) (fe25519_sq x)"

definition fe25519_inv :: "fe \<Rightarrow> fe" where
  "fe25519_inv z =
     (let t0 = fe25519_sqn 1 z; t1 = fe25519_sqn 2 t0; t1 = fe25519_mul z t1; t0 = fe25519_mul t0 t1;
          t2 = fe25519_sqn 1 t0; t1 = fe25519_mul t1 t2; t2 = fe25519_sqn 5 t1; t1 = fe25519_mul t2 t1;
          t2 = fe25519_sqn 10 t1; t2 = fe25519_mul t2 t1; t3 = fe25519_sqn 20 t2; t2 = fe25519_mul t3 t2;
          t2 = fe25519_sqn 10 t2; t1 = fe25519_mul t2 t1; t2 = fe25519_sqn 50 t1; t2 = fe25519_mul t2 t1;
          t3 = fe25519_sqn 100 t2; t2 = fe25519_mul t3 t2; t2 = fe25519_sqn 50 t2; t1 = fe25519_mul t2 t1;
          t1 = fe25519_sqn 5 t1
      in fe25519_mul t1 t0)"

definition fe25519_pow22523 :: "fe \<Rightarrow> fe" where
  "fe25519_pow22523 z =
     (let t0 = fe25519_sqn 1 z; t1 = fe25519_sqn 2 t0; t1 = fe25519_mul z t1; t0 = fe25519_mul t0 t1;
          t0 = fe25519_sqn 1 t0; t0 = fe25519_mul t1 t0; t1 = fe25519_sqn 5 t0; t0 = fe25519_mul t1 t0;
          t1 = fe25519_sqn 10 t0; t1 = fe25519_mul t1 t0; t2 = fe25519_sqn 20 t1; t1 = fe25519_mul t2 t1;
          t1 = fe25519_sqn 10 t1; t0 = fe25519_mul t1 t0; t1 = fe25519_sqn 50 t0; t1 = fe25519_mul t1 t0;
          t2 = fe25519_sqn 100 t1; t1 = fe25519_mul t2 t1; t1 = fe25519_sqn 50 t1; t0 = fe25519_mul t1 t0;
          t0 = fe25519_sqn 2 t0
      in fe25519_mul t0 z)"

definition fe25519_tobytes :: "fe \<Rightarrow> bytes" where
  "fe25519_tobytes f = concat (map uint32_pack (fe_reducesmall f fe_p 0))"

definition fe25519_frombytes :: "bytes \<Rightarrow> fe" where
  "fe25519_frombytes m =
     (let out = map (\<lambda>i. unpack_le (take 4 (drop (4 * i) m))) [0..<8] in out[7 := out ! 7 AND 0x7fffffff])"

definition fe25519_isnonzero :: "fe \<Rightarrow> int res" where
  "fe25519_isnonzero f = crypto_verify_32 (fe25519_tobytes f) (replicate 32 0)"

definition fe25519_isnegative :: "fe \<Rightarrow> u8" where
  "fe25519_isnegative f = fe25519_tobytes f ! 0 AND 1"

section \<open>Limbs as a number\<close>

text \<open>The number a list of limbs stands for, in base \<open>2 ^ 32\<close>; a limb may be larger than that.\<close>

primrec limbs_nat :: "'a::len word list \<Rightarrow> nat" where
  "limbs_nat [] = 0"
| "limbs_nat (x # xs) = unat x + 2 ^ 32 * limbs_nat xs"

lemma limbs_nat_append: "limbs_nat (xs @ ys) = limbs_nat xs + 2 ^ (32 * length xs) * limbs_nat ys"
  by (induction xs) (simp_all add: power_add algebra_simps)

lemma limbs_nat_replicate_0 [simp]: "limbs_nat (replicate n 0) = 0"
  by (induction n) simp_all

lemma limbs_nat_sum: "limbs_nat xs = (\<Sum>i<length xs. unat (xs ! i) * 2 ^ (32 * i))"
proof (induction xs)
  case (Cons x xs)
  have "(\<Sum>i<length (x # xs). unat ((x # xs) ! i) * 2 ^ (32 * i)) =
      unat x + (\<Sum>i<length xs. unat (xs ! i) * 2 ^ (32 + 32 * i))"
    by (simp add: sum.lessThan_Suc_shift algebra_simps del: sum.lessThan_Suc)
  also have "\<dots> = unat x + 2 ^ 32 * (\<Sum>i<length xs. unat (xs ! i) * 2 ^ (32 * i))"
    by (simp add: sum_distrib_left sum_distrib_right power_add algebra_simps)
  finally show ?case using Cons.IH by simp
qed simp

lemma limbs_nat_lt: "(\<And>x. x \<in> set xs \<Longrightarrow> unat x < 2 ^ 32) \<Longrightarrow> limbs_nat xs < 2 ^ (32 * length xs)"
proof (induction xs)
  case (Cons x xs)
  have "unat x < 2 ^ 32" "limbs_nat xs < 2 ^ (32 * length xs)" using Cons by simp_all
  moreover have "(2 :: nat) ^ (32 * length (x # xs)) = 2 ^ 32 * 2 ^ (32 * length xs)" by (simp add: power_add)
  ultimately show ?case by simp
qed simp

lemma limbs_nat_u32_lt: "limbs_nat (xs :: u32 list) < 2 ^ (32 * length xs)"
  by (rule limbs_nat_lt) (use unsigned_less [where 'a = nat and 'b = 32] in simp)

lemma limbs_nat_map_ucast: "(\<And>x. x \<in> set xs \<Longrightarrow> unat x < 2 ^ 32) \<Longrightarrow> limbs_nat (map ucast xs :: u32 list) = limbs_nat (xs :: u64 list)"
  by (induction xs) (simp_all add: unat_ucast_fits)

lemma limbs_nat_update:
  assumes "k < length xs" and "unat (xs ! k) + unat d < 2 ^ LENGTH('a)"
  shows "limbs_nat (xs[k := xs ! k + d]) = limbs_nat xs + unat (d :: 'a::len word) * 2 ^ (32 * k)"
  using assms
proof (induction xs arbitrary: k)
  case (Cons x xs)
  show ?case
  proof (cases k)
    case 0
    then show ?thesis using Cons.prems by (simp add: unat_add_fits)
  next
    case (Suc j)
    then show ?thesis using Cons by (simp add: power_add algebra_simps)
  qed
qed simp


section \<open>The product of two arrays\<close>

definition fits :: "nat \<Rightarrow> fel \<Rightarrow> bool" where
  "fits n t \<longleftrightarrow> length t = 16 \<and> (\<forall>x\<in>set t. unat x \<le> n * 2 ^ 32)"

text \<open>Adding the two halves of a product at two neighbouring limbs.\<close>

lemma add_halves:
  assumes fits: "fits n t" and k: "k + 1 < 16" and n: "n + c < 2 ^ 20"
    and lo: "unat lo \<le> c * 2 ^ 32" and hi: "unat hi \<le> c * 2 ^ 32"
    and t': "t' = t[k := t ! k + lo]" and t'': "t'' = t'[k + 1 := t' ! (k + 1) + hi]"
  shows "fits (n + c) t''" and "limbs_nat t'' = limbs_nat t + (unat lo + 2 ^ 32 * unat hi) * 2 ^ (32 * k)"
proof -
  have len: "length t = 16" and le: "\<And>i. i < 16 \<Longrightarrow> unat (t ! i) \<le> n * 2 ^ 32"
    using fits by (auto simp: fits_def)
  have "(n + c) * 2 ^ 32 < 2 ^ 20 * 2 ^ 32" using n by (intro mult_strict_right_mono) simp_all
  then have b: "n * 2 ^ 32 + c * 2 ^ 32 < 2 ^ 64" unfolding distrib_right by (rule less_le_trans) simp
  have m: "unat (t ! k) + unat lo \<le> n * 2 ^ 32 + c * 2 ^ 32" "unat (t ! (k + 1)) + unat hi \<le> n * 2 ^ 32 + c * 2 ^ 32"
    by (rule add_mono [OF le lo] add_mono [OF le hi], use k in simp)+
  have s1: "unat (t ! k) + unat lo < 2 ^ 64" and s2: "unat (t ! (k + 1)) + unat hi < 2 ^ 64"
    using m [THEN le_less_trans, OF b] by simp_all
  have nth: "t' ! (k + 1) = t ! (k + 1)" by (simp add: t')
  have "limbs_nat t'' = limbs_nat t' + unat hi * 2 ^ (32 * (k + 1))"
    unfolding t'' by (rule limbs_nat_update) (use k len s2 nth in \<open>simp_all add: t'\<close>)
  moreover have "limbs_nat t' = limbs_nat t + unat lo * 2 ^ (32 * k)"
    unfolding t' by (rule limbs_nat_update) (use k len s1 in simp_all)
  ultimately show "limbs_nat t'' = limbs_nat t + (unat lo + 2 ^ 32 * unat hi) * 2 ^ (32 * k)"
    by (simp add: power_add algebra_simps)
  have e: "unat (t ! k + lo) \<le> (n + c) * 2 ^ 32" "unat (t ! (k + 1) + hi) \<le> (n + c) * 2 ^ 32"
    using m s1 s2 by (simp_all add: unat_add_fits distrib_right)
  have o: "x \<in> set t \<Longrightarrow> unat x \<le> (n + c) * 2 ^ 32" for x
    using fits by (fastforce simp: fits_def)
  show "fits (n + c) t''"
    unfolding fits_def
  proof (intro conjI ballI)
    show "length t'' = 16" by (simp add: t'' t' len)
    fix x assume "x \<in> set t''"
    then have "x = t ! k + lo \<or> x = t ! (k + 1) + hi \<or> x \<in> set t"
      unfolding t'' nth by (auto simp: t' dest!: set_update_subset_insert [THEN subsetD])
    then show "unat x \<le> (n + c) * 2 ^ 32" using e o by blast
  qed
qed

lemma unat_low32: "unat (u AND 0xffffffff :: u64) = unat u mod 2 ^ 32"
proof -
  have "(0xffffffff :: u64) = mask 32" by (simp add: mask_eq_exp_minus_1)
  then show ?thesis by (simp only: unat_and_mask)
qed

text \<open>A product of two limbs does not wrap, and its halves add up to it.\<close>

lemma unat_limb_product: "unat (ucast (x :: u32) * ucast (y :: u32) :: u64) = unat x * unat y"
proof -
  have "unat x * unat y < 2 ^ 32 * 2 ^ 32"
    by (rule mult_strict_mono) (use unsigned_less [where 'a = nat, of x] unsigned_less [where 'a = nat, of y] in simp_all)
  then show ?thesis by (simp add: unat_mult_fits unat_ucast_up)
qed

lemma unat_double: "unat (h :: u64) < 2 ^ 32 \<Longrightarrow> unat (2 * h) = 2 * unat h"
  by (simp add: unat_mult_fits)

lemma halves:
  fixes u :: u64
  shows "unat (u AND 0xffffffff) < 2 ^ 32" and "unat (drop_bit 32 u) < 2 ^ 32"
    and "unat (u AND 0xffffffff) + 2 ^ 32 * unat (drop_bit 32 u) = unat u"
  using unsigned_less [where 'a = nat, of u] by (simp_all add: unat_low32 unat_drop_bit less_mult_imp_div_less)

lemma M_step:
  assumes "fits n t" and "i < 8" and "j < 8" and "n + 1 < 2 ^ 20"
  shows "fits (n + 1) (M a b (i, j) t)"
    and "limbs_nat (M a b (i, j) t) = limbs_nat t + unat (a ! i) * unat (b ! j) * 2 ^ (32 * (i + j))"
proof -
  define u where "u = (ucast (a ! i) * ucast (b ! j) :: u64)"
  note h = halves [of u]
  have c: "unat (u AND 0xffffffff) \<le> 1 * 2 ^ 32" "unat (drop_bit 32 u) \<le> 1 * 2 ^ 32" using h(1,2) by simp_all
  have k: "i + j + 1 < 16" using assms by simp
  note r = add_halves [OF assms(1) k assms(4) c refl refl]
  show "fits (n + 1) (M a b (i, j) t)" using r(1) by (simp add: M_def Let_def u_def)
  show "limbs_nat (M a b (i, j) t) = limbs_nat t + unat (a ! i) * unat (b ! j) * 2 ^ (32 * (i + j))"
    using r(2) unfolding h(3) by (simp add: M_def Let_def u_def unat_limb_product)
qed

lemma SQ_step:
  assumes "fits n t" and "i < 8" and "n + 1 < 2 ^ 20"
  shows "fits (n + 1) (SQ a i t)"
    and "limbs_nat (SQ a i t) = limbs_nat t + unat (a ! i) * unat (a ! i) * 2 ^ (32 * (i + i))"
proof -
  have "SQ a i t = M a a (i, i) t" by (simp add: SQ_def M_def mult_2)
  then show "fits (n + 1) (SQ a i t)"
    and "limbs_nat (SQ a i t) = limbs_nat t + unat (a ! i) * unat (a ! i) * 2 ^ (32 * (i + i))"
    using M_step [OF assms(1,2,2,3), of a a] by simp_all
qed

lemma M2_step:
  assumes "fits n t" and "i < 8" and "j < 8" and "n + 2 < 2 ^ 20"
  shows "fits (n + 2) (M2 a (i, j) t)"
    and "limbs_nat (M2 a (i, j) t) = limbs_nat t + 2 * (unat (a ! i) * unat (a ! j)) * 2 ^ (32 * (i + j))"
proof -
  define u where "u = (ucast (a ! i) * ucast (a ! j) :: u64)"
  note h = halves [of u]
  have c: "unat (2 * (u AND 0xffffffff)) \<le> 2 * 2 ^ 32" "unat (2 * drop_bit 32 u) \<le> 2 * 2 ^ 32"
    using h(1,2) by (simp_all add: unat_double)
  have k: "i + j + 1 < 16" using assms by simp
  have d: "unat (2 * (u AND 0xffffffff)) + 2 ^ 32 * unat (2 * drop_bit 32 u) = 2 * unat u"
    using h by (simp add: unat_double)
  note r = add_halves [OF assms(1) k assms(4) c refl refl]
  show "fits (n + 2) (M2 a (i, j) t)" using r(1) by (simp add: M2_def Let_def u_def)
  show "limbs_nat (M2 a (i, j) t) = limbs_nat t + 2 * (unat (a ! i) * unat (a ! j)) * 2 ^ (32 * (i + j))"
    using r(2) unfolding d by (simp add: M2_def Let_def u_def unat_limb_product)
qed

lemma fold_steps:
  assumes "\<And>x t n. x \<in> set xs \<Longrightarrow> fits n t \<Longrightarrow> n + c < 2 ^ 20 \<Longrightarrow> fits (n + c) (F x t) \<and> limbs_nat (F x t) = limbs_nat t + v x"
    and "fits n t" and "n + c * length xs < 2 ^ 20"
  shows "fits (n + c * length xs) (fold F xs t) \<and> limbs_nat (fold F xs t) = limbs_nat t + sum_list (map v xs)"
  using assms
proof (induction xs arbitrary: n t)
  case (Cons x xs)
  have s: "fits (n + c) (F x t)" "limbs_nat (F x t) = limbs_nat t + v x" using Cons.prems by simp_all
  have "fits (n + c + c * length xs) (fold F xs (F x t)) \<and>
      limbs_nat (fold F xs (F x t)) = limbs_nat (F x t) + sum_list (map v xs)"
    by (rule Cons.IH) (use Cons.prems s(1) in \<open>auto\<close>)
  then show ?case using s(2) by (simp add: algebra_simps)
qed simp

lemma sum_list_product:
  "sum_list (map (\<lambda>(i, j). f i * g j) (List.product xs ys)) = sum_list (map f xs) * sum_list (map g ys :: nat list)"
  by (induction xs) (simp_all add: comp_def sum_list_const_mult distrib_right)

lemma limbs_nat_upt: "limbs_nat xs = sum_list (map (\<lambda>i. unat (xs ! i) * 2 ^ (32 * i)) [0..<length xs])"
  by (simp add: limbs_nat_sum interv_sum_list_conv_sum_set_nat lessThan_atLeast0)

lemma fits_zero: "fits 0 (replicate 16 0)"
  by (simp add: fits_def)

lemma fe_mul_correct:
  assumes "length a = 8" and "length b = 8"
  shows "fits 64 (fe_mul a b)" and "limbs_nat (fe_mul a b) = limbs_nat a * limbs_nat b"
proof -
  have "fits (0 + 1 * length (List.product [0..<8] [0..<8])) (fe_mul a b) \<and>
      limbs_nat (fe_mul a b) = limbs_nat (replicate 16 0 :: fel) +
        sum_list (map (\<lambda>(i, j). unat (a ! i) * unat (b ! j) * 2 ^ (32 * (i + j))) (List.product [0..<8] [0..<8]))"
    unfolding fe_mul_def
  proof (rule fold_steps)
    fix x t n assume x: "x \<in> set (List.product [0..<8] [0..<8])" and n: "fits n t" "n + 1 < 2 ^ 20"
    have "fst x < 8" "snd x < 8" using x by auto
    from M_step [OF n(1) this n(2), of a b] show "fits (n + 1) (M a b x t) \<and> limbs_nat (M a b x t) =
        limbs_nat t + (case x of (i, j) \<Rightarrow> unat (a ! i) * unat (b ! j) * 2 ^ (32 * (i + j)))"
      by (cases x) simp
  qed (simp_all add: fits_zero)
  moreover have "(\<lambda>(i, j). unat (a ! i) * unat (b ! j) * 2 ^ (32 * (i + j))) =
      (\<lambda>(i, j). (unat (a ! i) * 2 ^ (32 * i)) * (unat (b ! j) * 2 ^ (32 * j)))"
    by (simp add: fun_eq_iff power_add algebra_simps)
  ultimately show "fits 64 (fe_mul a b)" and "limbs_nat (fe_mul a b) = limbs_nat a * limbs_nat b"
    by (simp_all add: sum_list_product limbs_nat_upt [of a] limbs_nat_upt [of b] assms)
qed

lemma square_of_sum:
  fixes x :: "nat \<Rightarrow> nat"
  shows "sum_list (map (\<lambda>(i, j). 2 * (x i * x j)) (concat (map (\<lambda>i. map (Pair i) [Suc i..<n]) [0..<n]))) +
     sum_list (map (\<lambda>i. x i * x i) [0..<n]) = sum_list (map x [0..<n]) * sum_list (map x [0..<n])"
proof (induction n)
  case (Suc n)
  have "sum_list (map (\<lambda>(i, j). 2 * (x i * x j)) (concat (map (\<lambda>i. map (Pair i) [Suc i..<Suc n]) [0..<m]))) =
      sum_list (map (\<lambda>(i, j). 2 * (x i * x j)) (concat (map (\<lambda>i. map (Pair i) [Suc i..<n]) [0..<m]))) +
      2 * (sum_list (map x [0..<m]) * x n)" if "m \<le> n" for m
    using that by (induction m) (simp_all add: algebra_simps)
  from this [of n] Suc show ?case by (simp add: algebra_simps)
qed simp

lemma fe_sq_correct:
  assumes "length a = 8"
  shows "fits 64 (fe_sq a)" and "limbs_nat (fe_sq a) = limbs_nat a * limbs_nat a"
proof -
  let ?ps = "concat (map (\<lambda>i. map (Pair i) [Suc i..<8]) [0..<8])"
  let ?t = "fold (M2 a) ?ps (replicate 16 0)"
  have len: "length ?ps = 28" by (simp add: upt_rec)
  have "fits (0 + 2 * length ?ps) ?t \<and> limbs_nat ?t = limbs_nat (replicate 16 0 :: fel) +
      sum_list (map (\<lambda>(i, j). 2 * (unat (a ! i) * unat (a ! j)) * 2 ^ (32 * (i + j))) ?ps)"
  proof (rule fold_steps)
    fix x t n assume x: "x \<in> set ?ps" and n: "fits n t" "n + 2 < 2 ^ 20"
    have "fst x < 8" "snd x < 8" using x by auto
    from M2_step [OF n(1) this n(2), of a]
    show "fits (n + 2) (M2 a x t) \<and> limbs_nat (M2 a x t) =
        limbs_nat t + (case x of (i, j) \<Rightarrow> 2 * (unat (a ! i) * unat (a ! j)) * 2 ^ (32 * (i + j)))"
      by (cases x) simp
  qed (use len in \<open>simp_all add: fits_zero\<close>)
  then have t: "fits 56 ?t" "limbs_nat ?t = sum_list (map (\<lambda>(i, j). 2 * (unat (a ! i) * unat (a ! j)) * 2 ^ (32 * (i + j))) ?ps)"
    unfolding len by simp_all
  have r: "fits (56 + 1 * length [0..<8]) (fold (SQ a) [0..<8] ?t) \<and> limbs_nat (fold (SQ a) [0..<8] ?t) =
      limbs_nat ?t + sum_list (map (\<lambda>i. unat (a ! i) * unat (a ! i) * 2 ^ (32 * (i + i))) [0..<8])"
  proof (rule fold_steps)
    fix i t n assume "i \<in> set [0..<8]" "fits n t" "n + 1 < 2 ^ 20"
    then show "fits (n + 1) (SQ a i t) \<and> limbs_nat (SQ a i t) =
        limbs_nat t + unat (a ! i) * unat (a ! i) * 2 ^ (32 * (i + i))"
      using SQ_step [of n t i a] by simp
  qed (simp_all add: t(1))
  then show "fits 64 (fe_sq a)" by (simp add: fe_sq_def)
  have "(\<lambda>(i, j). 2 * (unat (a ! i) * unat (a ! j)) * 2 ^ (32 * (i + j))) =
      (\<lambda>(i, j). 2 * ((unat (a ! i) * 2 ^ (32 * i)) * (unat (a ! j) * 2 ^ (32 * j))))"
    "(\<lambda>i. unat (a ! i) * unat (a ! i) * 2 ^ (32 * (i + i))) =
      (\<lambda>i. (unat (a ! i) * 2 ^ (32 * i)) * (unat (a ! i) * 2 ^ (32 * i)))"
    by (auto simp: fun_eq_iff power_add [symmetric] mult_ac distrib_left mult_2 [symmetric] simp del: One_nat_def)
  then show "limbs_nat (fe_sq a) = limbs_nat a * limbs_nat a"
    using r square_of_sum [of "\<lambda>i. unat (a ! i) * 2 ^ (32 * i)" 8]
    by (simp add: fe_sq_def t(2) limbs_nat_upt [of a] assms)
qed


section \<open>Carries and the reduction modulo \<open>2 ^ 255 - 19\<close>\<close>

lemma carry32_conj:
  assumes "carry32 u ts = (os, v)" and "unat u < 2 ^ 50" and "\<forall>t\<in>set ts. unat t < 2 ^ 50"
  shows "limbs_nat ts + unat u = limbs_nat os + 2 ^ (32 * length ts) * unat v \<and>
    length os = length ts \<and> (\<forall>x\<in>set os. unat x < 2 ^ 32) \<and> unat v < 2 ^ 50"
  using assms
proof (induction ts arbitrary: u os)
  case (Cons t ts)
  define w where "w = u + t"
  have w: "unat w = unat u + unat t" and w': "unat w < 2 ^ 51"
    using Cons.prems unfolding w_def by (simp_all add: unat_add_fits)
  obtain xs where os: "os = (w AND 0xffffffff) # xs" and c: "carry32 (drop_bit 32 w) ts = (xs, v)"
    using Cons.prems by (auto simp: w_def Let_def split: prod.splits)
  have d: "unat (drop_bit 32 w) < 2 ^ 50" using w' by (simp add: unat_drop_bit)
  have IH: "limbs_nat ts + unat w div 2 ^ 32 = limbs_nat xs + 2 ^ (32 * length ts) * unat v"
    "length xs = length ts" "\<forall>x\<in>set xs. unat x < 2 ^ 32" "unat v < 2 ^ 50"
    using Cons.IH [OF c d] Cons.prems by (simp_all add: unat_drop_bit)
  have "unat w = unat w mod 2 ^ 32 + 2 ^ 32 * (unat w div 2 ^ 32)" by simp
  then have "limbs_nat (t # ts) + unat u = unat w mod 2 ^ 32 + 2 ^ 32 * (limbs_nat xs + 2 ^ (32 * length ts) * unat v)"
    unfolding IH(1) [symmetric] limbs_nat.simps distrib_left using w by linarith
  then have "limbs_nat (t # ts) + unat u = limbs_nat os + 2 ^ (32 * length (t # ts)) * unat v"
    by (simp add: os unat_low32 power_add algebra_simps)
  then show ?case using IH(2-4) halves(1) [of w] by (simp add: os)
qed simp

lemmas carry32_correct = carry32_conj [THEN conjunct1] carry32_conj [THEN conjunct2, THEN conjunct1]
  carry32_conj [THEN conjunct2, THEN conjunct2, THEN conjunct1] carry32_conj [THEN conjunct2, THEN conjunct2, THEN conjunct2]

definition p25519 :: nat where
  "p25519 = 2 ^ 255 - 19"

lemma p25519_pos [simp]: "0 < p25519"
  by (simp add: p25519_def)

text \<open>What is above bit 255 comes back times 19.\<close>

lemma fold_above_255: "(a + 2 ^ 255 * w) mod p25519 = (a + 19 * w) mod p25519"
proof -
  have "2 ^ 255 = 19 + p25519" by (simp add: p25519_def)
  then have "a + 2 ^ 255 * w = a + 19 * w + p25519 * w" by (simp only: distrib_right add.assoc)
  then show ?thesis by (simp only: mod_mult_self2)
qed

lemma unat_low31: "unat (u AND 0x7fffffff :: u64) = unat u mod 2 ^ 31"
proof -
  have "(0x7fffffff :: u64) = mask 31" by (simp add: mask_eq_exp_minus_1)
  then show ?thesis by (simp only: unat_and_mask)
qed

lemma reduce_words_correct:
  assumes len: "length ts = 8" and ts: "\<forall>t\<in>set ts. unat t < 2 ^ 50"
  shows "length (reduce_words ts) = 8" and "limbs_nat (reduce_words ts) < 2 ^ 255 + 2 ^ 26"
    and "limbs_nat (reduce_words ts) mod p25519 = limbs_nat ts mod p25519"
proof -
  obtain os u where c: "carry32 0 (take 7 ts) = (os, u)" by force
  define t7 where "t7 = ts ! 7"
  define w where "w = u + t7"
  define h where "h = drop_bit 31 w * 19"
  obtain xs v where d: "carry32 h (os @ [w AND 0x7fffffff]) = (xs, v)" by force
  have r: "reduce_words ts = map ucast xs"
    unfolding reduce_words_def c Let_def prod.case t7_def [symmetric] w_def [symmetric] h_def [symmetric] d by simp
  have "\<forall>t\<in>set (take 7 ts). unat t < 2 ^ 50" using ts by (auto dest: in_set_takeD)
  note C = carry32_correct [OF c _ this, simplified]
  have split: "ts = take 7 ts @ [t7]"
    using len id_take_nth_drop [of 7 ts] by (simp add: t7_def)
  have t7: "unat t7 < 2 ^ 50" using ts len by (simp add: t7_def)
  have w: "unat w = unat u + unat t7" and w': "unat w < 2 ^ 51"
    using C(4) t7 by (simp_all add: w_def unat_add_fits)
  have h: "unat h = 19 * (unat w div 2 ^ 31)" and h': "unat h < 2 ^ 25"
    using w' by (simp_all add: h_def unat_mult_fits unat_drop_bit)
  have lens: "length os = 7" using C(2) len by simp
  have small: "\<forall>t\<in>set (os @ [w AND 0x7fffffff]). unat t < 2 ^ 50"
    using C(3) by (auto simp: unat_low31 intro: less_trans)
  note D = carry32_correct [OF d _ small]
  have os: "limbs_nat os < 2 ^ 224" using limbs_nat_lt [of os] C(3) lens by simp
  have ts_eq: "limbs_nat ts = limbs_nat os + 2 ^ 224 * unat w"
    using C(1) len w by (subst split) (simp add: limbs_nat_append algebra_simps)
  have top: "limbs_nat (os @ [w AND 0x7fffffff]) = limbs_nat os + 2 ^ 224 * (unat w mod 2 ^ 31)"
    using lens by (simp add: limbs_nat_append unat_low31)
  have w_split: "unat w = unat w mod 2 ^ 31 + 2 ^ 31 * (unat w div 2 ^ 31)" by simp
  have lt: "limbs_nat (os @ [w AND 0x7fffffff]) < 2 ^ 255"
  proof -
    have "unat w mod 2 ^ 31 < 2 ^ 31" by simp
    then have "2 ^ 224 * (unat w mod 2 ^ 31) \<le> 2 ^ 224 * (2 ^ 31 - 1)" by simp
    then show ?thesis unfolding top using os by simp
  qed
  have eq: "limbs_nat (os @ [w AND 0x7fffffff]) + unat h = limbs_nat xs + 2 ^ 256 * unat v"
    using D(1) h' lens by simp
  have v: "unat v = 0"
  proof (rule ccontr)
    assume "unat v \<noteq> 0"
    then have "2 ^ 256 \<le> 2 ^ 256 * unat v" by simp
    then show False using eq lt h' by simp
  qed
  have xs: "limbs_nat (map ucast xs :: u32 list) = limbs_nat xs"
    using D(3) h' by (intro limbs_nat_map_ucast) simp
  show "length (reduce_words ts) = 8" using D(2) h' lens by (simp add: r)
  show "limbs_nat (reduce_words ts) < 2 ^ 255 + 2 ^ 26" using eq v lt h' by (simp add: r xs)
  have "limbs_nat (reduce_words ts) = limbs_nat os + 2 ^ 224 * (unat w mod 2 ^ 31) + 19 * (unat w div 2 ^ 31)"
    using eq v top h by (simp add: r xs)
  also have "\<dots> mod p25519 = (limbs_nat os + 2 ^ 224 * (unat w mod 2 ^ 31) + 2 ^ 255 * (unat w div 2 ^ 31)) mod p25519"
    by (rule fold_above_255 [symmetric])
  also have "limbs_nat os + 2 ^ 224 * (unat w mod 2 ^ 31) + 2 ^ 255 * (unat w div 2 ^ 31) = limbs_nat ts"
  proof -
    have "(2 :: nat) ^ 255 = 2 ^ 224 * 2 ^ 31" by simp
    then show ?thesis unfolding ts_eq by (subst (3) w_split) (simp only: distrib_left mult.assoc add.assoc)
  qed
  finally show "limbs_nat (reduce_words ts) mod p25519 = limbs_nat ts mod p25519" .
qed


section \<open>The operations modulo \<open>2 ^ 255 - 19\<close>\<close>

abbreviation P25519 :: int where
  "P25519 \<equiv> int p25519"

definition fe_val :: "fe \<Rightarrow> int" where
  "fe_val f = int (limbs_nat f) mod P25519"

text \<open>What a reduction leaves: less than \<open>2 * p\<close>, so one conditional subtraction makes it canonical.\<close>

definition fe_reduced :: "fe \<Rightarrow> bool" where
  "fe_reduced f \<longleftrightarrow> length f = 8 \<and> limbs_nat f < 2 * p25519"

lemma fe_reduced_length: "fe_reduced f \<Longrightarrow> length f = 8"
  by (simp add: fe_reduced_def)

lemma fe_val_range: "0 \<le> fe_val f" "fe_val f < P25519"
  by (simp_all add: fe_val_def pos_mod_bound)

lemma fe_val_mod [simp]: "fe_val f mod P25519 = fe_val f"
  by (simp add: fe_val_def)

lemma reduce_words_val:
  assumes "length ts = 8" and "\<forall>t\<in>set ts. unat t < 2 ^ 50"
  shows "fe_reduced (reduce_words ts)" and "fe_val (reduce_words ts) = int (limbs_nat ts) mod P25519"
proof -
  note r = reduce_words_correct [OF assms]
  have "(2 :: nat) ^ 255 + 2 ^ 26 < 2 * p25519" by (simp add: p25519_def)
  then show "fe_reduced (reduce_words ts)" using r(1,2) by (simp add: fe_reduced_def del: power_numeral)
  show "fe_val (reduce_words ts) = int (limbs_nat ts) mod P25519"
    using r(3) by (simp add: fe_val_def flip: of_nat_mod)
qed

lemma reducebig_val:
  assumes "fits 64 t"
  shows "fe_reduced (fe25519_reducebig t)" and "fe_val (fe25519_reducebig t) = int (limbs_nat t) mod P25519"
proof -
  let ?ts = "map (\<lambda>i. t ! i + 38 * t ! (i + 8)) [0..<8]"
  have le: "unat (t ! i) \<le> 2 ^ 38" if "i < 16" for i
    using assms that by (auto simp: fits_def)
  have e: "unat (t ! i + 38 * t ! (i + 8)) = unat (t ! i) + 38 * unat (t ! (i + 8))" if "i < 8" for i
    using le [of i] le [of "i + 8"] that by (simp add: unat_add_fits unat_mult_fits)
  have "\<forall>x\<in>set ?ts. unat x < 2 ^ 50"
  proof
    fix x assume "x \<in> set ?ts"
    then obtain i where "i < 8" "x = t ! i + 38 * t ! (i + 8)" by auto
    then show "unat x < 2 ^ 50" using e [of i] le [of i] le [of "i + 8"] by simp
  qed
  note r = reduce_words_val [OF _ this, folded fe25519_reducebig_def, simplified]
  show "fe_reduced (fe25519_reducebig t)" by (rule r(1))
  have t: "t = map ((!) t) [0..<8] @ map (\<lambda>i. t ! (i + 8)) [0..<8]"
    using assms by (intro nth_equalityI) (auto simp: fits_def nth_append)
  define a where "a = limbs_nat (map ((!) t) [0..<8])"
  define b where "b = limbs_nat (map (\<lambda>i. t ! (i + 8)) [0..<8])"
  have eval: "limbs_nat (map f [0..<n]) = (\<Sum>i<n. unat (f i) * 2 ^ (32 * i))" for f :: "nat \<Rightarrow> u64" and n
    by (simp add: limbs_nat_sum)
  have ts: "limbs_nat ?ts = a + 38 * b"
    unfolding a_def b_def eval by (simp add: e distrib_right sum.distrib sum_distrib_left mult.assoc)
  have "limbs_nat t = a + 2 ^ 256 * b"
    by (subst t) (simp add: limbs_nat_append a_def b_def)
  then have "limbs_nat t = a + 38 * b + 2 * b * p25519" by (simp add: p25519_def)
  then show "fe_val (fe25519_reducebig t) = int (limbs_nat t) mod P25519"
    using r(2) ts by (simp flip: of_nat_mod)
qed

lemma fe25519_mul_val:
  assumes "length a = 8" and "length b = 8"
  shows "fe_reduced (fe25519_mul a b)" and "fe_val (fe25519_mul a b) = fe_val a * fe_val b mod P25519"
  using reducebig_val [OF fe_mul_correct(1) [OF assms]] fe_mul_correct(2) [OF assms]
  by (simp_all add: fe25519_mul_def fe_val_def mod_mult_eq)

lemma fe25519_sq_val:
  assumes "length a = 8"
  shows "fe_reduced (fe25519_sq a)" and "fe_val (fe25519_sq a) = fe_val a * fe_val a mod P25519"
  using reducebig_val [OF fe_sq_correct(1) [OF assms]] fe_sq_correct(2) [OF assms]
  by (simp_all add: fe25519_sq_def fe_val_def mod_mult_eq)

lemma limbs_nat_map2:
  assumes "length xs = length ys" and "\<And>i. i < length ys \<Longrightarrow> unat (g (xs ! i) (ys ! i)) = h (xs ! i) (ys ! i)"
  shows "limbs_nat (map2 g xs ys) = (\<Sum>i<length ys. h (xs ! i) (ys ! i) * 2 ^ (32 * i))"
  using assms by (simp add: limbs_nat_sum)

lemma unat_wide: "unat (ucast (x :: u32) :: u64) = unat x" "unat (x :: u32) < 2 ^ 32"
  using unsigned_less [where 'a = nat, of x] by (simp_all add: unat_ucast_up)

lemma fe25519_mul121666_val:
  assumes "length f = 8"
  shows "fe_reduced (fe25519_mul121666 f)" and "fe_val (fe25519_mul121666 f) = 121666 * fe_val f mod P25519"
proof -
  have e: "unat (121666 * ucast x :: u64) = 121666 * unat x" for x :: u32
    using unat_wide(2) [of x] by (simp add: unat_mult_fits unat_wide(1))
  have b: "\<forall>t\<in>set (map (\<lambda>x. 121666 * ucast x) f). unat (t :: u64) < 2 ^ 50"
  proof
    fix t :: u64 assume "t \<in> set (map (\<lambda>x. 121666 * ucast x) f)"
    then obtain x :: u32 where "t = 121666 * ucast x" by auto
    then show "unat t < 2 ^ 50" using e [of x] unat_wide(2) [of x] by simp
  qed
  have "limbs_nat (map (\<lambda>x. 121666 * ucast x :: u64) f) = 121666 * limbs_nat f"
    by (simp add: limbs_nat_sum e sum_distrib_left mult.assoc)
  then show "fe_reduced (fe25519_mul121666 f)" and "fe_val (fe25519_mul121666 f) = 121666 * fe_val f mod P25519"
    using reduce_words_val [OF _ b] assms by (simp_all add: fe25519_mul121666_def fe_val_def mod_mult_right_eq)
qed

lemma fe25519_add_val:
  assumes "length x = 8" and "length y = 8"
  shows "fe_reduced (fe25519_add x y)" and "fe_val (fe25519_add x y) = (fe_val x + fe_val y) mod P25519"
proof -
  let ?ts = "map2 (\<lambda>x y. ucast x + ucast y :: u64) x y"
  have e: "unat (ucast a + ucast b :: u64) = unat a + unat b" for a b :: u32
    using unat_wide(2) [of a] unat_wide(2) [of b] by (simp add: unat_add_fits unat_wide(1))
  have b: "\<forall>t\<in>set ?ts. unat t < 2 ^ 50"
  proof
    fix t assume "t \<in> set ?ts"
    then obtain a b :: u32 where "t = ucast a + ucast b" by auto
    then show "unat t < 2 ^ 50" using e [of a b] unat_wide(2) [of a] unat_wide(2) [of b] by simp
  qed
  have "limbs_nat ?ts = limbs_nat x + limbs_nat y"
    by (subst limbs_nat_map2 [where h = "\<lambda>a b. unat a + unat b"])
      (simp_all add: assms e limbs_nat_sum distrib_right sum.distrib)
  then show "fe_reduced (fe25519_add x y)" and "fe_val (fe25519_add x y) = (fe_val x + fe_val y) mod P25519"
    using reduce_words_val [OF _ b] assms by (simp_all add: fe25519_add_def fe_val_def mod_add_eq)
qed

lemma limbs_nat_p3: "limbs_nat p3 = 3 * p25519"
  by (simp add: p3_def p25519_def)

lemma p3_limb: "i < 8 \<Longrightarrow> 2 ^ 32 \<le> unat (p3 ! i) \<and> unat (p3 ! i) < 2 ^ 34"
proof -
  have "\<forall>x\<in>set p3. 2 ^ 32 \<le> unat x \<and> unat x < 2 ^ 34" by (simp add: p3_def)
  then show "i < 8 \<Longrightarrow> 2 ^ 32 \<le> unat (p3 ! i) \<and> unat (p3 ! i) < 2 ^ 34"
    unfolding all_set_conv_all_nth by (simp add: p3_def)
qed

lemma fe25519_sub_val:
  assumes "length x = 8" and "length y = 8"
  shows "fe_reduced (fe25519_sub x y)" and "fe_val (fe25519_sub x y) = (fe_val x - fe_val y) mod P25519"
proof -
  let ?ts = "map2 (\<lambda>q (x, y). q - ucast y + ucast x :: u64) p3 (zip x y)"
  have e: "unat (p3 ! i - ucast b + ucast a) + unat b = unat (p3 ! i) + unat a" "unat (p3 ! i - ucast b + ucast a) < 2 ^ 50"
    if "i < 8" for a b :: u32 and i
  proof -
    note p = p3_limb [OF that] and ab = unat_wide(2) [of a] unat_wide(2) [of b]
    have "unat (p3 ! i - ucast b) = unat (p3 ! i) - unat b"
      using p ab by (subst unat_sub) (simp_all add: word_le_nat_alt unat_wide(1))
    then have "unat (p3 ! i - ucast b + ucast a) = unat (p3 ! i) - unat b + unat a"
      using p ab by (subst unat_add_fits) (simp_all only: unat_wide(1) len_of_numeral_defs, simp_all, linarith)
    then show "unat (p3 ! i - ucast b + ucast a) + unat b = unat (p3 ! i) + unat a" "unat (p3 ! i - ucast b + ucast a) < 2 ^ 50"
      using p ab by (simp_all, linarith)
  qed
  have len: "length p3 = 8" by (simp add: p3_def)
  have b: "\<forall>t\<in>set ?ts. unat t < 2 ^ 50"
    unfolding all_set_conv_all_nth using e(2) assms len by simp
  have "limbs_nat ?ts + limbs_nat y = limbs_nat p3 + limbs_nat x"
    using assms len e(1) by (simp add: limbs_nat_sum sum.distrib [symmetric] distrib_right [symmetric])
  then have "int (limbs_nat ?ts) = int (limbs_nat x) - int (limbs_nat y) + 3 * P25519"
    unfolding limbs_nat_p3 by linarith
  then show "fe_reduced (fe25519_sub x y)" and "fe_val (fe25519_sub x y) = (fe_val x - fe_val y) mod P25519"
    using reduce_words_val [OF _ b] assms len by (simp_all add: fe25519_sub_def fe_val_def mod_diff_eq)
qed

lemma length_fe_0 [simp]: "length fe_0 = 8" "length fe_1 = 8"
  by (simp_all add: fe_0_def fe_1_def)

lemma limbs_nat_0_1: "limbs_nat fe_0 = 0" "limbs_nat fe_1 = 1"
  using limbs_nat_update [of 0 fe_0 1] by (simp_all add: fe_1_def fe_0_def)

lemma fe_reduced_0_1 [simp]: "fe_reduced fe_0" "fe_reduced fe_1"
proof -
  show "fe_reduced fe_0" "fe_reduced fe_1" by (simp_all add: limbs_nat_0_1 fe_reduced_def p25519_def)
qed

lemma fe_val_0_1 [simp]: "fe_val fe_0 = 0" "fe_val fe_1 = 1"
proof -
  show "fe_val fe_0 = 0" "fe_val fe_1 = 1" by (simp_all add: limbs_nat_0_1 fe_val_def p25519_def)
qed

lemma fe25519_neg_val:
  assumes "length x = 8"
  shows "fe_reduced (fe25519_neg x)" and "fe_val (fe25519_neg x) = - fe_val x mod P25519"
  using fe25519_sub_val [OF length_fe_0(1) assms] by (simp_all add: fe25519_neg_def)

section \<open>Conditional swaps and moves\<close>

lemma cond_xor: "(x :: u32) XOR (0 AND y) = x" "x XOR (- 1 AND (x XOR y)) = y" "y XOR (- 1 AND (x XOR y)) = x"
  by (simp_all add: xor.assoc [symmetric]) (simp_all add: xor.commute [of y] xor.assoc)

lemma xor_back: "y XOR (x XOR y) = (x :: u32)" "x XOR (x XOR y) = y"
  by (simp_all add: xor.left_commute [of y] xor.left_commute [of x])

lemma fe_cswap_correct:
  assumes "length f = length g" and "b = 0 \<or> b = 1"
  shows "fe_cswap f g b = (if b = 1 then (g, f) else (f, g))"
proof -
  have "map2 (XOR) f (map2 (\<lambda>x y. c AND (x XOR y)) f g) = (if c = 0 then f else g) \<and>
      map2 (XOR) g (map2 (\<lambda>x y. c AND (x XOR y)) f g) = (if c = 0 then g else f)" if "c = 0 \<or> c = - 1" for c
    using that assms(1) by (auto intro!: nth_equalityI simp: cond_xor xor_back)
  from this [of "- b"] assms(2) show ?thesis by (auto simp: fe_cswap_def Let_def)
qed

lemma fe_cmov_correct:
  assumes "length f = length g" and "b = 0 \<or> b = 1"
  shows "fe_cmov f g b = (if b = 1 then g else f)"
proof -
  have "fe_cmov f g b = fst (fe_cswap f g b)" by (simp add: fe_cmov_def fe_cswap_def Let_def)
  then show ?thesis using fe_cswap_correct [OF assms] by simp
qed


section \<open>Bytes\<close>

lemma borrow_step:
  assumes pb: "unat (pb :: u64) \<le> 1" and w: "w = pb + ucast (q :: u32)" and b: "b = drop_bit 63 (ucast (r :: u32) - w)"
    and t: "t = (ucast (ucast r - w + push_bit 32 b) :: u32)"
  shows "unat t + unat q + unat pb = unat r + 2 ^ 32 * unat b" and "unat b \<le> 1"
proof -
  note lt = unat_wide(2) [of q] unat_wide(2) [of r]
  have w': "unat w = unat pb + unat q" unfolding w by (subst unat_add_fits) (use pb lt in \<open>simp_all add: unat_wide(1)\<close>)
  have v: "unat (ucast r - w) = (if unat w \<le> unat r then unat r - unat w else unat r + 2 ^ 64 - unat w)"
    using unat_sub_if_size [of "ucast r" w] by (simp add: unat_wide(1) word_size)
  have e: "unat b = (if unat w \<le> unat r then 0 else 1)"
    unfolding b using v w' pb lt by (auto simp: unat_drop_bit div_nat_eqI)
  then show "unat b \<le> 1" by simp
  have b01: "b = (if unat w \<le> unat r then 0 else 1)"
    using e unsigned_word_eqI [of b 1, where 'a = nat] unsigned_word_eqI [of b 0, where 'a = nat] by (auto split: if_splits)
  have u: "unat t = unat (ucast r - w + push_bit 32 b) mod 2 ^ 32"
    by (simp add: t unsigned_ucast_eq unsigned_take_bit_eq take_bit_eq_mod)
  show "unat t + unat q + unat pb = unat r + 2 ^ 32 * unat b"
  proof (cases "unat w \<le> unat r")
    case True
    then show ?thesis using u v w' lt by (simp add: b01)
  next
    case False
    have "unat (ucast r - w + push_bit 32 b) = (unat r + 2 ^ 64 - unat w + 2 ^ 32) mod 2 ^ 64"
      using v False by (simp add: b01 unat_word_ariths)
    also have "\<dots> = 2 ^ 32 + unat r - unat w"
    proof -
      have "unat r + 2 ^ 64 - unat w + 2 ^ 32 = 2 ^ 32 + unat r - unat w + 2 ^ 64" using w' pb lt by simp
      moreover have "2 ^ 32 + unat r - unat w < 2 ^ 64" using lt by simp
      ultimately show ?thesis by (simp only: mod_add_self2 mod_less)
    qed
    finally show ?thesis using u False w' pb lt by (simp add: e)
  qed
qed

lemma borrow_sub_correct:
  assumes "borrow_sub pb rs qs = (ts, b)" and "unat pb \<le> 1" and "length rs = length qs"
  shows "limbs_nat ts + limbs_nat qs + unat pb = limbs_nat rs + 2 ^ (32 * length qs) * unat b \<and>
    unat b \<le> 1 \<and> length ts = length qs"
  using assms
proof (induction pb rs qs arbitrary: ts rule: borrow_sub.induct)
  case (1 pb r rs q qs)
  define c where "c = drop_bit 63 (ucast r - (pb + ucast q))"
  define t where "t = (ucast (ucast r - (pb + ucast q) + push_bit 32 c) :: u32)"
  obtain xs where ts: "ts = t # xs" and x: "borrow_sub c rs qs = (xs, b)"
    using "1.prems"(1) by (auto simp: Let_def t_def c_def split: prod.splits)
  note s = borrow_step [OF "1.prems"(2) refl c_def t_def]
  have IH: "limbs_nat xs + limbs_nat qs + unat c = limbs_nat rs + 2 ^ (32 * length qs) * unat b"
    "unat b \<le> 1" "length xs = length qs"
    using "1.IH" [OF refl c_def _ x s(2)] "1.prems"(3) by (simp_all add: t_def)
  have "limbs_nat (t # xs) + limbs_nat (q # qs) + unat pb =
      unat t + unat q + unat pb + 2 ^ 32 * (limbs_nat xs + limbs_nat qs)"
    by simp
  also have "\<dots> = unat r + 2 ^ 32 * (limbs_nat xs + limbs_nat qs + unat c)"
    unfolding s(1) by (simp add: algebra_simps)
  also have "\<dots> = limbs_nat (r # rs) + 2 ^ (32 * length (q # qs)) * unat b"
    unfolding IH(1) by (simp add: power_add algebra_simps)
  finally show ?case using IH(2,3) by (simp add: ts)
qed auto

lemma ucast_all_ones: "(ucast ((- 1 :: u64) AND ucast (x :: u32)) :: u32) = x" "(ucast (ucast (x :: u32) :: u64) :: u32) = x"
  by (rule bit_word_eqI, auto simp: bit_simps dest: bit_imp_le_length)+

lemma fe_reducesmall_correct:
  assumes len: "length r = 8" "length q = 8"
  shows "limbs_nat (fe_reducesmall r q 0) = (if limbs_nat q \<le> limbs_nat r then limbs_nat r - limbs_nat q else limbs_nat r)"
    and "length (fe_reducesmall r q 0) = 8"
proof -
  obtain t pb where t: "borrow_sub 0 r q = (t, pb)" by force
  have s: "limbs_nat t + limbs_nat q = limbs_nat r + 2 ^ 256 * unat pb" "unat pb \<le> 1" "length t = 8"
    using borrow_sub_correct [OF t] len by simp_all
  have bounds: "limbs_nat r < 2 ^ 256" "limbs_nat t < 2 ^ 256"
    using limbs_nat_u32_lt [of r] limbs_nat_u32_lt [of t] len s(3) by simp_all
  have "pb = 0 \<or> pb = 1" using s(2) by (metis One_nat_def le_Suc_eq le_zero_eq unsigned_0 unsigned_1 unsigned_word_eqI)
  then show "limbs_nat (fe_reducesmall r q 0) = (if limbs_nat q \<le> limbs_nat r then limbs_nat r - limbs_nat q else limbs_nat r)"
  proof
    assume "pb = 0"
    then have "fe_reducesmall r q 0 = t"
      using len s(3) by (auto simp: fe_reducesmall_def t ucast_all_ones xor_back intro!: nth_equalityI)
    moreover have "limbs_nat q \<le> limbs_nat r" "limbs_nat t = limbs_nat r - limbs_nat q" using s(1) \<open>pb = 0\<close> by simp_all
    ultimately show ?thesis by simp
  next
    assume pb: "pb = 1"
    have "drop_bit 63 (0 - 1 :: u64) - 1 = 0" by (simp add: word_eq_iff_unsigned unat_drop_bit)
    then have "fe_reducesmall r q 0 = r"
      using len s(3) pb by (auto simp: fe_reducesmall_def t intro!: nth_equalityI)
    moreover have "\<not> limbs_nat q \<le> limbs_nat r" using s(1) pb bounds by simp
    ultimately show ?thesis by simp
  qed
  show "length (fe_reducesmall r q 0) = 8" using len s(3) by (simp add: fe_reducesmall_def t)
qed

lemma le_nat_concat_pack: "le_nat (concat (map uint32_pack xs)) = limbs_nat xs"
  by (induction xs) (simp_all add: le_nat_append uint32_pack_def le_nat_pack_le)

lemma limbs_nat_fe_p: "limbs_nat fe_p = p25519"
  by (simp add: fe_p_def p25519_def)

theorem fe25519_tobytes_val:
  assumes "fe_reduced f"
  shows "fe25519_tobytes f = le_bytes 32 (nat (fe_val f))"
proof -
  have len: "length f = 8" "length fe_p = 8" and lt: "limbs_nat f < 2 * p25519"
    using assms by (simp_all add: fe_reduced_def fe_p_def)
  note r = fe_reducesmall_correct [OF len]
  have "le_nat (fe25519_tobytes f) = limbs_nat f mod p25519"
    using lt by (auto simp: fe25519_tobytes_def le_nat_concat_pack r limbs_nat_fe_p mod_if le_mod_geq)
  moreover have "length (fe25519_tobytes f) = 32"
    using r(2) by (simp add: fe25519_tobytes_def length_concat comp_def map_replicate_const sum_list_replicate)
  moreover have "nat (fe_val f) = limbs_nat f mod p25519"
    by (simp add: fe_val_def flip: of_nat_mod)
  ultimately show ?thesis using le_bytes_le_nat [of "fe25519_tobytes f"] by simp
qed

lemma length_fe25519_frombytes [simp]: "length (fe25519_frombytes m) = 8"
  by (simp add: fe25519_frombytes_def Let_def)

lemma fe25519_frombytes_val:
  assumes "32 \<le> length m"
  shows "limbs_nat (fe25519_frombytes m) = le_nat (take 32 m) mod 2 ^ 255"
proof -
  define N where "N = le_nat (take 32 m)"
  define out where "out = map (\<lambda>i. unpack_le (take 4 (drop (4 * i) m)) :: u32) [0..<8]"
  have o: "unat (unpack_le (take 4 (drop (4 * i) m)) :: u32) = N div 2 ^ (32 * i) mod 2 ^ 32" if "i < 8" for i
  proof -
    have "take 4 (drop (4 * i) m) = take 4 (drop (4 * i) (take 32 m))"
      using that by (simp add: drop_take min_def)
    then show ?thesis
      using that assms le_nat_take_drop [of "4 * i" 4 "take 32 m"]
      by (simp add: unat_unpack_le N_def min_absorb2)
  qed
  have "limbs_nat (map (\<lambda>i. unpack_le (take 4 (drop (4 * i) m)) :: u32) [0..<k]) = N mod 2 ^ (32 * k)" if "k \<le> 8" for k
    using that
  proof (induction k)
    case (Suc k)
    have "N mod 2 ^ (32 * Suc k) = N mod 2 ^ (32 * k) + 2 ^ (32 * k) * (N div 2 ^ (32 * k) mod 2 ^ 32)"
      using mod_mult2_eq [of N "2 ^ (32 * k)" "2 ^ 32"] by (simp only: mult_Suc_right power_add mult.commute [of "2 ^ 32"])
    then show ?case using Suc o [of k] by (simp add: limbs_nat_append)
  qed simp
  note this [of 7]
  moreover have "out[7 := out ! 7 AND 0x7fffffff] =
      map (\<lambda>i. unpack_le (take 4 (drop (4 * i) m))) [0..<7] @ [out ! 7 AND 0x7fffffff]"
    by (simp add: out_def upt_rec)
  moreover have "unat (out ! 7 AND 0x7fffffff) = N div 2 ^ 224 mod 2 ^ 31"
  proof -
    have "(0x7fffffff :: u32) = mask 31" by (simp add: mask_eq_exp_minus_1)
    then have "unat (out ! 7 AND 0x7fffffff) = N div 2 ^ 224 mod 2 ^ 32 mod 2 ^ 31"
      using o [of 7] by (simp only: unat_and_mask) (simp add: out_def)
    then show ?thesis by (simp only: mod_mod_cancel le_imp_power_dvd)
  qed
  moreover have "N mod 2 ^ 255 = N mod 2 ^ 224 + 2 ^ 224 * (N div 2 ^ 224 mod 2 ^ 31)"
    using mod_mult2_eq [of N "2 ^ 224" "2 ^ 31"] by simp
  ultimately show ?thesis
    by (simp add: fe25519_frombytes_def Let_def N_def [symmetric] out_def [symmetric] limbs_nat_append)
qed


lemma crypto_verify_32_iff:
  "length a = 32 \<Longrightarrow> length b = 32 \<Longrightarrow> crypto_verify_32 a b = Inr (if a = b then 0 else - 1)"
  using verify_eq [of 32 a b] by (simp add: crypto_verify_32_def)

lemma fe25519_isnonzero_iff:
  assumes "fe_reduced f"
  shows "fe25519_isnonzero f = Inr (if fe_val f = 0 then 0 else - 1)"
proof -
  have "le_bytes 32 (nat (fe_val f)) = replicate 32 0 \<longleftrightarrow> nat (fe_val f) mod 2 ^ 256 = 0"
    using le_nat_le_bytes [of 32 "nat (fe_val f)"] le_nat_inject [of "le_bytes 32 (nat (fe_val f))" "replicate 32 0"] by simp
  also have "\<dots> \<longleftrightarrow> fe_val f = 0"
    using fe_val_range [of f] by (simp add: p25519_def)
  finally show ?thesis
    unfolding fe25519_isnonzero_def fe25519_tobytes_val [OF assms] by (simp add: crypto_verify_32_iff)
qed

lemma fe25519_isnegative_iff:
  assumes "fe_reduced f"
  shows "int (unat (fe25519_isnegative f)) = fe_val f mod 2"
proof -
  have "fe25519_tobytes f ! 0 = word_of_nat (nat (fe_val f) mod 256)"
    unfolding fe25519_tobytes_val [OF assms] using le_bytes.simps(2) [of 31] by simp
  moreover have "unat (b AND 1) = unat b mod 2" for b :: u8
    using unat_and_mask [of b 1] by simp
  ultimately have "unat (fe25519_isnegative f) = nat (fe_val f) mod 256 mod 2"
    unfolding fe25519_isnegative_def by (simp add: unat_of_nat del: and_one_eq)
  then show ?thesis using fe_val_range [of f] by (simp add: mod_mod_cancel zmod_int)
qed

section \<open>Powers: the inverse and the square root exponent\<close>

text \<open>\<open>x\<close> holds the \<open>e\<close>-th power of \<open>z\<close>.\<close>

definition fe_pow :: "fe \<Rightarrow> nat \<Rightarrow> fe \<Rightarrow> bool" where
  "fe_pow z e x \<longleftrightarrow> length x = 8 \<and> fe_val x = fe_val z ^ e mod P25519"

lemma fe_pow_self: "length z = 8 \<Longrightarrow> fe_pow z 1 z"
  by (simp add: fe_pow_def)

lemma fe_pow_mul: "fe_pow z a x \<Longrightarrow> fe_pow z b y \<Longrightarrow> fe_pow z (a + b) (fe25519_mul x y)"
  by (simp add: fe_pow_def fe25519_mul_val fe_reduced_length power_add mod_mult_eq)

lemma fe_pow_sq: "fe_pow z a x \<Longrightarrow> fe_pow z (2 * a) (fe25519_sq x)"
  by (simp add: fe_pow_def fe25519_sq_val fe_reduced_length mult_2 power_add mod_mult_eq)

lemma fe_pow_sqn:
  assumes "fe_pow z a x" and "0 < n"
  shows "fe_pow z (2 ^ n * a) (fe25519_sqn n x)"
proof -
  have "fe_pow z (2 ^ k * (2 * a)) ((fe25519_sq ^^ k) (fe25519_sq x))" for k
    by (induction k) (auto dest: fe_pow_sq simp: fe_pow_sq [OF assms(1)] mult.assoc)
  from this [of "n - 1"] show ?thesis
    using assms(2) by (cases n) (simp_all add: fe25519_sqn_def ac_simps)
qed

text \<open>\<open>fe25519_inv\<close> is the power \<open>p - 2\<close>, the inverse by Fermat's theorem.\<close>

lemma fe_pow_inv:
  assumes "length z = 8"
  shows "fe_pow z (p25519 - 2) (fe25519_inv z)"
  unfolding fe25519_inv_def Let_def
  by (rule back_subst [of "\<lambda>e. fe_pow z e _"], (rule fe_pow_mul fe_pow_sqn fe_pow_self [OF assms] | simp)+)
    (simp add: p25519_def)

lemma fe_pow_pow22523:
  assumes "length z = 8"
  shows "fe_pow z (2 ^ 252 - 3) (fe25519_pow22523 z)"
  unfolding fe25519_pow22523_def Let_def
  by (rule back_subst [of "\<lambda>e. fe_pow z e _"], (rule fe_pow_mul fe_pow_sqn fe_pow_self [OF assms] | simp)+)

lemma fe25519_inv_val:
  assumes "length z = 8"
  shows "fe_val (fe25519_inv z) = fe_val z ^ (p25519 - 2) mod P25519" and "fe_reduced (fe25519_inv z)"
proof -
  show "fe_val (fe25519_inv z) = fe_val z ^ (p25519 - 2) mod P25519"
    using fe_pow_inv [OF assms] by (simp only: fe_pow_def)
  have l: "length (fe25519_mul a b) = 8" if "length a = 8" "length b = 8" for a b
    using fe25519_mul_val(1) [OF that] by (rule fe_reduced_length)
  have q: "length (fe25519_sqn n a) = 8" if "length a = 8" "0 < n" for n a
    using fe_pow_sqn [OF fe_pow_self [OF that(1)] that(2)] by (simp add: fe_pow_def)
  show "fe_reduced (fe25519_inv z)"
    unfolding fe25519_inv_def Let_def by (rule fe25519_mul_val(1)) (simp_all add: l q assms)
qed

end
