(* ===== verification/Ge25519.thy ===== *)
theory Ge25519
  imports Fe25519
begin

text \<open>
  ge25519.c: the group of Ed25519 in extended coordinates. The array \<open>ge25519\<close> of four field elements is a
  tuple. Addition and doubling are compared with the formulas of RFC 8032, section 5.1.4, over residues and
  with the addition law of the twisted Edwards curve; the windowed multiplication with sums and doublings of
  the point; decoding with the equation of the curve.
\<close>

unbundle bit_operations_syntax

section \<open>ge25519.c\<close>

type_synonym ge = "fe \<times> fe \<times> fe \<times> fe"

definition D :: fe where
  "D = [0x135978a3, 0x75eb4dca, 0x4141d8ab, 0x00700a4d, 0x7779e898, 0x8cc74079, 0x2b6ffe73, 0x52036cee]"

definition D2 :: fe where
  "D2 = [0x26b2f159, 0xebd69b94, 0x8283b156, 0x00e0149a, 0xeef3d130, 0x198e80f2, 0x56dffce7, 0x2406d9dc]"

definition sqrtm1 :: fe where
  "sqrtm1 = [0x4a0ea0b0, 0xc4ee1b27, 0xad2fe478, 0x2f431806, 0x3dfbd7a7, 0x2b4d0099, 0x4fc1df0b, 0x2b832480]"

definition neutral :: ge where
  "neutral = (fe_0, fe_1, fe_1, fe_0)"

definition cmov :: "ge \<Rightarrow> ge \<Rightarrow> u32 \<Rightarrow> ge" where
  "cmov = (\<lambda>(p0, p1, p2, p3) (q0, q1, q2, q3) b. (fe_cmov p0 q0 b, fe_cmov p1 q1 b, fe_cmov p2 q2 b, fe_cmov p3 q3 b))"

definition ge25519_add :: "ge \<Rightarrow> ge \<Rightarrow> ge" where
  "ge25519_add = (\<lambda>(p0, p1, p2, p3) (q0, q1, q2, q3).
     let a = fe25519_sub p1 p0; t = fe25519_sub q1 q0; a = fe25519_mul a t;
         b = fe25519_add p0 p1; t = fe25519_add q0 q1; b = fe25519_mul b t;
         c = fe25519_mul p3 q3; c = fe25519_mul c D2;
         d = fe25519_mul p2 q2; d = fe25519_add d d;
         e = fe25519_sub b a; f = fe25519_sub d c; g = fe25519_add d c; h = fe25519_add b a
     in (fe25519_mul e f, fe25519_mul h g, fe25519_mul g f, fe25519_mul e h))"

definition dbl :: "ge \<Rightarrow> ge" where
  "dbl = (\<lambda>(p0, p1, p2, p3).
     let a = fe25519_sq p0; b = fe25519_sq p1; c = fe25519_sq p2; c = fe25519_add c c; d = fe25519_neg a;
         e = fe25519_add p0 p1; e = fe25519_sq e; e = fe25519_sub e a; e = fe25519_sub e b;
         g = fe25519_add d b; f = fe25519_sub g c; h = fe25519_sub d b
     in (fe25519_mul e f, fe25519_mul g h, fe25519_mul f g, fe25519_mul e h))"

definition ge25519_tobytes :: "ge \<Rightarrow> bytes" where
  "ge25519_tobytes = (\<lambda>(h0, h1, h2, h3).
     let z = fe25519_inv h2; x = fe25519_mul h0 z; y = fe25519_mul h1 z; s = fe25519_tobytes y
     in s[31 := s ! 31 XOR push_bit 7 (fe25519_isnegative x)])"

text \<open>The value None is the return value -1; the point is not used then.\<close>

definition ge25519_frombytes_negate_vartime :: "bytes \<Rightarrow> ge option res" where
  "ge25519_frombytes_negate_vartime s =
     (let h1 = fe25519_frombytes s; h2 = fe_1; u = fe25519_sq h1; v = fe25519_mul u D;
          u = fe25519_sub u h2; v = fe25519_add v h2;
          v3 = fe25519_sq v; v3 = fe25519_mul v3 v; h0 = fe25519_sq v3; h0 = fe25519_mul h0 v; h0 = fe25519_mul h0 u;
          h0 = fe25519_pow22523 h0; h0 = fe25519_mul h0 v3; h0 = fe25519_mul h0 u;
          vxx = fe25519_sq h0; vxx = fe25519_mul vxx v; check = fe25519_sub vxx u;
          sign = (\<lambda>h0. let h0 = (if fe25519_isnegative h0 = drop_bit 7 (s ! 31) then fe25519_neg h0 else h0)
                       in Inr (Some (h0, h1, h2, fe25519_mul h0 h1)))
      in bindr (fe25519_isnonzero check) (\<lambda>r.
         if r \<noteq> 0 then
           let check = fe25519_add vxx u
           in bindr (fe25519_isnonzero check) (\<lambda>r. if r \<noteq> 0 then Inr None else sign (fe25519_mul h0 sqrtm1))
         else sign h0))"

definition equal_byte :: "u8 \<Rightarrow> u8 \<Rightarrow> u8" where
  "equal_byte a b = (let x = a XOR b; y = ucast x :: u32; y = y - 1; y = drop_bit 31 y in ucast y)"

text \<open>The digits of the scalar, the table \<open>t\<close>, filled in the order of the loop, and one round of the main loop;
  \<open>sp\<close> is not initialised, its first value is an argument.\<close>

definition nibbles :: "bytes \<Rightarrow> u8 list" where
  "nibbles a = concat (map (\<lambda>i. [drop_bit 0 (a ! i) AND 0x0f, drop_bit 4 (a ! i) AND 0x0f]) [0..<32])"

definition window_table :: "ge \<Rightarrow> ge list" where
  "window_table q =
     fold (\<lambda>i t. t @ [if (i AND 1) = 0 then dbl (t ! (i div 2)) else ge25519_add (t ! (i - 1)) q]) [2..<16] [neutral, q]"

definition window_step :: "ge list \<Rightarrow> u8 list \<Rightarrow> nat \<Rightarrow> ge \<times> ge \<Rightarrow> ge \<times> ge" where
  "window_step t e i = (\<lambda>(p, sp).
     let p = (dbl ^^ 4) p; sp = fold (\<lambda>j sp. cmov sp (t ! j) (ucast (equal_byte (e ! i) (word_of_nat j)))) [0..<16] sp
     in (ge25519_add p sp, sp))"

definition ge25519_scalarmult :: "ge \<Rightarrow> ge \<Rightarrow> bytes \<Rightarrow> ge" where
  "ge25519_scalarmult junk q a = fst (fold (window_step (window_table q) (nibbles a)) (rev [0..<64]) (neutral, junk))"

definition baseq :: ge where
  "baseq =
    ([0x8f25d51a, 0xc9562d60, 0x9525a7b2, 0x692cc760, 0xfdd6dc5c, 0xc0a4e231, 0xcd6e53fe, 0x216936d3],
     [0x66666658, 0x66666666, 0x66666666, 0x66666666, 0x66666666, 0x66666666, 0x66666666, 0x66666666],
     [0x00000001, 0x00000000, 0x00000000, 0x00000000, 0x00000000, 0x00000000, 0x00000000, 0x00000000],
     [0xa5b7dda3, 0x6dde8ab3, 0x775152f5, 0x20f09f80, 0x64abe37d, 0x66ea4e8e, 0xd78b7665, 0x67875f0f])"

definition ge25519_scalarmult_base :: "ge \<Rightarrow> bytes \<Rightarrow> ge" where
  "ge25519_scalarmult_base junk a = ge25519_scalarmult junk baseq a"

section \<open>The group operations of RFC 8032 over residues\<close>

type_synonym ext = "int \<times> int \<times> int \<times> int"

definition ed_d :: int where
  "ed_d = 37095705934669439343138083508754565189542113879843219016388785533085940283555"

definition ed_add :: "ext \<Rightarrow> ext \<Rightarrow> ext" where
  "ed_add = (\<lambda>(X1, Y1, Z1, T1) (X2, Y2, Z2, T2).
     let A = (Y1 - X1) * (Y2 - X2); B = (Y1 + X1) * (Y2 + X2); C = T1 * 2 * ed_d * T2; D = Z1 * 2 * Z2;
         E = B - A; F = D - C; G = D + C; H = B + A
     in (E * F mod P25519, G * H mod P25519, F * G mod P25519, E * H mod P25519))"

definition ed_double :: "ext \<Rightarrow> ext" where
  "ed_double = (\<lambda>(X1, Y1, Z1, T1).
     let A = X1 * X1; B = Y1 * Y1; C = 2 * (Z1 * Z1); H = A + B; E = H - (X1 + Y1) * (X1 + Y1); G = A - B; F = C + G
     in (E * F mod P25519, G * H mod P25519, F * G mod P25519, E * H mod P25519))"

definition ge_val :: "ge \<Rightarrow> ext" where
  "ge_val = (\<lambda>(p0, p1, p2, p3). (fe_val p0, fe_val p1, fe_val p2, fe_val p3))"

definition ge_ok :: "ge \<Rightarrow> bool" where
  "ge_ok = (\<lambda>(p0, p1, p2, p3). length p0 = 8 \<and> length p1 = 8 \<and> length p2 = 8 \<and> length p3 = 8)"

lemmas fe_op_vals = fe25519_mul_val fe25519_sq_val fe25519_add_val fe25519_sub_val fe25519_neg_val
lemmas fe_op_lengths = fe_op_vals(1,3,5,7,9) [THEN fe_reduced_length]

text \<open>\<open>D\<close> is \<open>- 121665 / 121666\<close> and \<open>D2\<close> twice that.\<close>

lemma ed_d_quotient: "121666 * ed_d mod P25519 = - 121665 mod P25519"
  by (simp add: ed_d_def p25519_def)

lemma fe_val_D: "length D = 8" "fe_val D = ed_d" "length D2 = 8" "fe_val D2 = 2 * ed_d mod P25519"
  by (simp_all add: D_def D2_def fe_val_def ed_d_def p25519_def)

lemma fe_val_sqrtm1: "length sqrtm1 = 8" "fe_val sqrtm1 * fe_val sqrtm1 mod P25519 = - 1 mod P25519"
  by (simp_all add: sqrtm1_def fe_val_def p25519_def)

lemma ge25519_add_val:
  assumes "ge_ok p" and "ge_ok q"
  shows "ge_ok (ge25519_add p q)" and "ge_val (ge25519_add p q) = ed_add (ge_val p) (ge_val q)"
proof -
  obtain p0 p1 p2 p3 q0 q1 q2 q3 where pq: "p = (p0, p1, p2, p3)" "q = (q0, q1, q2, q3)" by (metis surj_pair)
  show "ge_ok (ge25519_add p q)"
    using assms by (simp add: pq ge_ok_def ge25519_add_def Let_def fe_op_lengths fe_val_D)
  show "ge_val (ge25519_add p q) = ed_add (ge_val p) (ge_val q)"
    using assms
    by (simp add: pq ge_ok_def ge_val_def ge25519_add_def ed_add_def Let_def fe_op_lengths fe_op_vals fe_val_D mod_simps)
      (simp add: algebra_simps)
qed

lemma dbl_val:
  assumes "ge_ok p"
  shows "ge_ok (dbl p)" and "ge_val (dbl p) = ed_double (ge_val p)"
proof -
  obtain p0 p1 p2 p3 where p: "p = (p0, p1, p2, p3)" by (metis surj_pair)
  show "ge_ok (dbl p)"
    using assms by (simp add: p ge_ok_def dbl_def Let_def fe_op_lengths)
  show "ge_val (dbl p) = ed_double (ge_val p)"
    using assms
    by (simp add: p ge_ok_def ge_val_def dbl_def ed_double_def Let_def fe_op_lengths fe_op_vals mod_simps)
      (simp add: algebra_simps)
qed

section \<open>The addition law of the curve\<close>

text \<open>Points of the twisted Edwards curve \<open>- x ^ 2 + y ^ 2 = 1 + d * x ^ 2 * y ^ 2\<close>, their sum by the addition
  law, cleared of denominators, and the extended coordinates of a point.\<close>

definition on_curve :: "int \<times> int \<Rightarrow> bool" where
  "on_curve = (\<lambda>(x, y). (y * y - x * x) mod P25519 = (1 + ed_d * (x * x) * (y * y)) mod P25519)"

definition ed_sum :: "int \<times> int \<Rightarrow> int \<times> int \<Rightarrow> int \<times> int \<Rightarrow> bool" where
  "ed_sum = (\<lambda>(x1, y1) (x2, y2) (x3, y3).
     x3 * (1 + ed_d * x1 * x2 * y1 * y2) mod P25519 = (x1 * y2 + x2 * y1) mod P25519 \<and>
     y3 * (1 - ed_d * x1 * x2 * y1 * y2) mod P25519 = (y1 * y2 + x1 * x2) mod P25519)"

definition represents :: "ext \<Rightarrow> int \<times> int \<Rightarrow> bool" where
  "represents = (\<lambda>(X, Y, Z, T) (x, y).
     X mod P25519 = x * Z mod P25519 \<and> Y mod P25519 = y * Z mod P25519 \<and> T mod P25519 = x * y * Z mod P25519)"

text \<open>Congruence of integers, as a relation to calculate with.\<close>

definition eqp :: "int \<Rightarrow> int \<Rightarrow> bool" where
  "eqp a b \<longleftrightarrow> a mod P25519 = b mod P25519"

lemma eqp_refl: "eqp a a"
  by (simp add: eqp_def)

lemma eqp_trans [trans]: "eqp a b \<Longrightarrow> eqp b c \<Longrightarrow> eqp a c"
  by (simp add: eqp_def)

lemma eqp_sym: "eqp a b \<Longrightarrow> eqp b a"
  by (simp add: eqp_def)

lemma eqp_mult: "eqp a b \<Longrightarrow> eqp c d \<Longrightarrow> eqp (a * c) (b * d)"
  unfolding eqp_def by (rule mod_mult_cong)

lemma eqp_add: "eqp a b \<Longrightarrow> eqp c d \<Longrightarrow> eqp (a + c) (b + d)"
  unfolding eqp_def by (rule mod_add_cong)

lemma eqp_diff: "eqp a b \<Longrightarrow> eqp c d \<Longrightarrow> eqp (a - c) (b - d)"
  unfolding eqp_def by (rule mod_diff_cong)

lemma eqp_eq: "eqp a b \<Longrightarrow> a = a' \<Longrightarrow> b = b' \<Longrightarrow> eqp a' b'"
  by simp

lemma represents_of_factors:
  assumes "eqp E (x * G)" and "eqp H (y * F)"
  shows "represents (E * F mod P25519, G * H mod P25519, F * G mod P25519, E * H mod P25519) (x, y)"
proof -
  have "eqp (E * F) (x * (F * G))" using eqp_mult [OF assms(1) eqp_refl [of F]] by (rule eqp_eq) simp_all
  moreover have "eqp (G * H) (y * (F * G))" using eqp_mult [OF eqp_refl [of G] assms(2)] by (rule eqp_eq) simp_all
  moreover have "eqp (E * H) (x * y * (F * G))" using eqp_mult [OF assms] by (rule eqp_eq) simp_all
  ultimately show ?thesis by (simp add: represents_def eqp_def mod_mult_right_eq)
qed

lemma ed_add_represents:
  assumes "represents p a" and "represents q b" and "ed_sum a b c"
  shows "represents (ed_add p q) c"
proof -
  obtain X1 Y1 Z1 T1 X2 Y2 Z2 T2 where p: "p = (X1, Y1, Z1, T1)" and q: "q = (X2, Y2, Z2, T2)" by (metis surj_pair)
  obtain x1 y1 x2 y2 x y where abc: "a = (x1, y1)" "b = (x2, y2)" "c = (x, y)" by (metis surj_pair)
  have r: "eqp X1 (x1 * Z1)" "eqp Y1 (y1 * Z1)" "eqp T1 (x1 * y1 * Z1)" "eqp X2 (x2 * Z2)" "eqp Y2 (y2 * Z2)" "eqp T2 (x2 * y2 * Z2)"
    using assms(1,2) by (simp_all add: p q abc represents_def eqp_def)
  have s: "eqp (x * (1 + ed_d * x1 * x2 * y1 * y2)) (x1 * y2 + x2 * y1)" "eqp (y * (1 - ed_d * x1 * x2 * y1 * y2)) (y1 * y2 + x1 * x2)"
    using assms(3) by (simp_all add: abc ed_sum_def eqp_def)
  define E where "E = (Y1 + X1) * (Y2 + X2) - (Y1 - X1) * (Y2 - X2)"
  define H where "H = (Y1 + X1) * (Y2 + X2) + (Y1 - X1) * (Y2 - X2)"
  define F where "F = Z1 * 2 * Z2 - T1 * 2 * ed_d * T2"
  define G where "G = Z1 * 2 * Z2 + T1 * 2 * ed_d * T2"
  have "eqp (2 * (X1 * Y2 + Y1 * X2)) (2 * ((x1 * Z1) * (y2 * Z2) + (y1 * Z1) * (x2 * Z2)))"
    by (intro eqp_mult eqp_add eqp_refl r)
  then have e: "eqp E (2 * Z1 * Z2 * (x1 * y2 + x2 * y1))"
    by (rule eqp_eq) (simp_all add: E_def algebra_simps)
  have "eqp (2 * (Y1 * Y2 + X1 * X2)) (2 * ((y1 * Z1) * (y2 * Z2) + (x1 * Z1) * (x2 * Z2)))"
    by (intro eqp_mult eqp_add eqp_refl r)
  then have h: "eqp H (2 * Z1 * Z2 * (y1 * y2 + x1 * x2))"
    by (rule eqp_eq) (simp_all add: H_def algebra_simps)
  have t: "eqp (T1 * 2 * ed_d * T2) ((x1 * y1 * Z1) * 2 * ed_d * (x2 * y2 * Z2))"
    by (intro eqp_mult eqp_refl r)
  have "eqp G (Z1 * 2 * Z2 + (x1 * y1 * Z1) * 2 * ed_d * (x2 * y2 * Z2))"
    unfolding G_def by (intro eqp_add eqp_refl t)
  from eqp_mult [OF eqp_refl [of x] this]
  have g: "eqp (x * G) (2 * Z1 * Z2 * (x * (1 + ed_d * x1 * x2 * y1 * y2)))"
    by (rule eqp_eq) (simp_all add: algebra_simps)
  have "eqp F (Z1 * 2 * Z2 - (x1 * y1 * Z1) * 2 * ed_d * (x2 * y2 * Z2))"
    unfolding F_def by (intro eqp_diff eqp_refl t)
  from eqp_mult [OF eqp_refl [of y] this]
  have f: "eqp (y * F) (2 * Z1 * Z2 * (y * (1 - ed_d * x1 * x2 * y1 * y2)))"
    by (rule eqp_eq) (simp_all add: algebra_simps)
  have "eqp E (x * G)"
    using e eqp_mult [OF eqp_refl s(1)] g by (meson eqp_sym eqp_trans)
  moreover have "eqp H (y * F)"
    using h eqp_mult [OF eqp_refl s(2)] f by (meson eqp_sym eqp_trans)
  ultimately have "represents (E * F mod P25519, G * H mod P25519, F * G mod P25519, E * H mod P25519) (x, y)"
    by (rule represents_of_factors)
  then show ?thesis by (simp add: p q abc ed_add_def Let_def E_def F_def G_def H_def)
qed

lemma ed_double_represents:
  assumes "represents p a" and "on_curve a" and "ed_sum a a c"
  shows "represents (ed_double p) c"
proof -
  obtain X Y Z T where p: "p = (X, Y, Z, T)" by (metis surj_pair)
  obtain x1 y1 x y where ac: "a = (x1, y1)" "c = (x, y)" by (metis surj_pair)
  have r: "eqp X (x1 * Z)" "eqp Y (y1 * Z)" using assms(1) by (simp_all add: p ac represents_def eqp_def)
  define d where "d = ed_d * (x1 * x1) * (y1 * y1)"
  have curve: "eqp (y1 * y1 - x1 * x1) (1 + d)" using assms(2) by (simp add: ac on_curve_def eqp_def d_def)
  have dd: "ed_d * x1 * x1 * y1 * y1 = d" by (simp add: d_def)
  have s: "eqp (x * (1 + d)) (x1 * y1 + x1 * y1)" "eqp (y * (1 - d)) (y1 * y1 + x1 * x1)"
    using assms(3) unfolding ac ed_sum_def prod.case dd eqp_def by simp_all
  define E where "E = X * X + Y * Y - (X + Y) * (X + Y)"
  define H where "H = X * X + Y * Y"
  define G where "G = X * X - Y * Y"
  define F where "F = 2 * (Z * Z) + G"
  have xx: "eqp (X * X) (x1 * Z * (x1 * Z))" "eqp (Y * Y) (y1 * Z * (y1 * Z))" "eqp (X * Y) (x1 * Z * (y1 * Z))"
    by (intro eqp_mult r)+
  have "eqp (0 - 2 * (X * Y)) (0 - 2 * (x1 * Z * (y1 * Z)))" by (intro eqp_diff eqp_mult eqp_refl r)
  then have e: "eqp E (- (Z * Z) * (x1 * y1 + x1 * y1))" by (rule eqp_eq) (simp_all add: E_def algebra_simps)
  have h: "eqp H (Z * Z * (y1 * y1 + x1 * x1))"
    using eqp_add [OF xx(1,2)] by (rule eqp_eq) (simp_all add: H_def algebra_simps)
  have "eqp (X * X - Y * Y) (- (Z * Z) * (y1 * y1 - x1 * x1))"
    using eqp_diff [OF xx(1,2)] by (rule eqp_eq) (simp_all add: algebra_simps)
  then have g: "eqp G (- (Z * Z) * (1 + d))"
    unfolding G_def using eqp_mult [OF eqp_refl curve] by (rule eqp_trans)
  then have "eqp F (2 * (Z * Z) + - (Z * Z) * (1 + d))" unfolding F_def by (intro eqp_add eqp_refl)
  then have f: "eqp F (Z * Z * (1 - d))" by (rule eqp_eq) (simp_all add: algebra_simps)
  have "eqp (x * G) (- (Z * Z) * (x * (1 + d)))"
    using eqp_mult [OF eqp_refl [of x] g] by (rule eqp_eq) (simp_all add: algebra_simps)
  then have "eqp E (x * G)" using e eqp_mult [OF eqp_refl s(1)] by (meson eqp_sym eqp_trans)
  moreover have "eqp (y * F) (Z * Z * (y * (1 - d)))"
    using eqp_mult [OF eqp_refl [of y] f] by (rule eqp_eq) (simp_all add: algebra_simps)
  then have "eqp H (y * F)" using h eqp_mult [OF eqp_refl s(2)] by (meson eqp_sym eqp_trans)
  ultimately have "represents (E * F mod P25519, G * H mod P25519, F * G mod P25519, E * H mod P25519) (x, y)"
    by (rule represents_of_factors)
  then show ?thesis by (simp add: p ac ed_double_def Let_def E_def F_def G_def H_def)
qed

section \<open>The windowed multiplication\<close>

text \<open>\<open>R\<close> is reached from \<open>Q\<close> by additions and doublings that count to \<open>n\<close>: \<open>R\<close> is the \<open>n\<close>-th multiple of \<open>Q\<close>.\<close>

inductive ed_multiple :: "ext \<Rightarrow> nat \<Rightarrow> ext \<Rightarrow> bool" for Q where
  zero: "ed_multiple Q 0 (0, 1, 1, 0)"
| one: "ed_multiple Q 1 Q"
| add: "ed_multiple Q a A \<Longrightarrow> ed_multiple Q b B \<Longrightarrow> ed_multiple Q (a + b) (ed_add A B)"
| double: "ed_multiple Q a A \<Longrightarrow> ed_multiple Q (2 * a) (ed_double A)"

text \<open>The multiples of \<open>Q\<close> among the points of the code.\<close>

definition ge_multiple :: "ge \<Rightarrow> nat \<Rightarrow> ge \<Rightarrow> bool" where
  "ge_multiple q n p \<longleftrightarrow> ge_ok p \<and> ed_multiple (ge_val q) n (ge_val p)"

lemma ge_multiple_neutral: "ge_multiple q 0 neutral"
  by (simp add: ge_multiple_def ge_ok_def ge_val_def neutral_def ed_multiple.zero)

lemma ge_multiple_self: "ge_ok q \<Longrightarrow> ge_multiple q 1 q"
  using ed_multiple.one by (simp add: ge_multiple_def)

lemma ge_multiple_add: "ge_multiple q a x \<Longrightarrow> ge_multiple q b y \<Longrightarrow> ge_multiple q (a + b) (ge25519_add x y)"
  by (simp add: ge_multiple_def ge25519_add_val ed_multiple.add)

lemma ge_multiple_dbl: "ge_multiple q a x \<Longrightarrow> ge_multiple q (2 * a) (dbl x)"
  by (simp add: ge_multiple_def dbl_val ed_multiple.double)

lemma ge_multiple_dbls: "ge_multiple q a x \<Longrightarrow> ge_multiple q (2 ^ n * a) ((dbl ^^ n) x)"
  by (induction n) (auto dest: ge_multiple_dbl simp: mult.assoc)

lemma window_table_correct:
  assumes "ge_ok q"
  shows "length (window_table q) = 16" and "j < 16 \<Longrightarrow> ge_multiple q j (window_table q ! j)"
proof -
  define f where "f = (\<lambda>i t. t @ [if (i AND 1) = 0 then dbl (t ! (i div 2)) else ge25519_add (t ! (i - 1)) q])"
  have "length (fold f [2..<n + 2] [neutral, q]) = n + 2 \<and> (\<forall>j<n + 2. ge_multiple q j (fold f [2..<n + 2] [neutral, q] ! j))" for n
  proof (induction n)
    case 0
    show ?case using ge_multiple_self [OF assms] by (auto simp: less_Suc_eq ge_multiple_neutral)
  next
    case (Suc n)
    define t where "t = fold f [2..<n + 2] [neutral, q]"
    have t: "length t = n + 2" "\<And>j. j < n + 2 \<Longrightarrow> ge_multiple q j (t ! j)" using Suc by (simp_all add: t_def)
    have s: "fold f [2..<Suc n + 2] [neutral, q] = f (n + 2) t" by (simp add: t_def)
    have new: "ge_multiple q (n + 2) (if ((n + 2) AND 1) = 0 then dbl (t ! ((n + 2) div 2)) else ge25519_add (t ! (n + 2 - 1)) q)"
    proof (cases "even n")
      case True
      then have "ge_multiple q (2 * ((n + 2) div 2)) (dbl (t ! ((n + 2) div 2)))" by (intro ge_multiple_dbl t(2)) simp
      then show ?thesis using True by (simp add: and_one_eq)
    next
      case False
      have "ge_multiple q (n + 1 + 1) (ge25519_add (t ! (n + 1)) q)"
        by (intro ge_multiple_add t(2) ge_multiple_self assms) simp
      moreover have "(n + 2) mod 2 = 1" using False by presburger
      ultimately show ?thesis unfolding and_one_eq by simp
    qed
    have ext: "length (t @ [e]) = Suc n + 2 \<and> (\<forall>j<Suc n + 2. ge_multiple q j ((t @ [e]) ! j))" if "ge_multiple q (n + 2) e" for e
    proof (intro conjI allI impI)
      fix j assume "j < Suc n + 2"
      then consider "j < n + 2" | "j = n + 2" by linarith
      then show "ge_multiple q j ((t @ [e]) ! j)" by cases (use t that in \<open>simp_all add: nth_append\<close>)
    qed (use t in simp)
    show ?case unfolding s unfolding f_def by (rule ext [OF new])
  qed
  from this [of 14] have "length (window_table q) = 16 \<and> (\<forall>j<16. ge_multiple q j (window_table q ! j))"
    by (simp add: window_table_def f_def del: upt_rec_numeral)
  then show "length (window_table q) = 16" and "j < 16 \<Longrightarrow> ge_multiple q j (window_table q ! j)" by simp_all
qed

lemma equal_byte_eq: "equal_byte a b = (if a = b then 1 else 0)"
proof (cases "a = b")
  case True
  have "drop_bit 31 (- 1 :: u32) = 1" by (rule bit_word_eqI) (auto simp: bit_simps)
  with True show ?thesis by (simp add: equal_byte_def)
next
  case False
  then have "unat (a XOR b) \<noteq> 0" by (metis unat_eq_zero xor_zero_iff)
  moreover have "unat (a XOR b) < 256" using unsigned_less [of "a XOR b", where 'a = nat] by simp
  ultimately have "unat (ucast (a XOR b) - 1 :: u32) < 2 ^ 31"
    by (subst unat_sub) (simp_all add: word_le_nat_alt unat_ucast_up)
  then have "drop_bit 31 (ucast (a XOR b) - 1 :: u32) = 0" by (rule unat_small_drop_bit)
  then show ?thesis using False by (simp add: equal_byte_def)
qed

lemma cmov_eq: "ge_ok p \<Longrightarrow> ge_ok q \<Longrightarrow> b = 0 \<or> b = 1 \<Longrightarrow> cmov p q b = (if b = 1 then q else p)"
  by (cases p; cases q) (auto simp: ge_ok_def cmov_def fe_cmov_correct)

text \<open>The scan of the table selects the entry of the digit, whatever was in \<open>sp\<close>.\<close>

lemma scan_table:
  assumes "ge_ok sp" and "\<And>j. j < 16 \<Longrightarrow> ge_ok (t ! j)" and "unat d < 16"
  shows "fold (\<lambda>j sp. cmov sp (t ! j) (ucast (equal_byte d (word_of_nat j)))) [0..<16] sp = t ! unat d"
proof -
  have "fold (\<lambda>j sp. cmov sp (t ! j) (ucast (equal_byte d (word_of_nat j)))) [0..<n] sp = (if unat d < n then t ! unat d else sp)"
    if "n \<le> 16" for n
    using that
  proof (induction n)
    case (Suc n)
    define x where "x = (if unat d < n then t ! unat d else sp)"
    have ok: "ge_ok x" "ge_ok (t ! n)" using assms Suc.prems by (simp_all add: x_def)
    have "d = word_of_nat n \<longleftrightarrow> unat d = n"
      using Suc.prems by (auto simp: word_eq_iff_unsigned unat_of_nat)
    then have "cmov x (t ! n) (ucast (equal_byte d (word_of_nat n))) = (if unat d = n then t ! n else x)"
      using ok by (simp add: cmov_eq equal_byte_eq)
    then show ?case using Suc by (auto simp: x_def less_Suc_eq)
  qed simp
  from this [of 16] show ?thesis using assms(3) by (simp del: upt_rec_numeral)
qed

text \<open>The digits in base 16, least significant first.\<close>

primrec nibbles_nat :: "u8 list \<Rightarrow> nat" where
  "nibbles_nat [] = 0"
| "nibbles_nat (e # es) = unat e + 16 * nibbles_nat es"

lemma nibbles_of_bytes:
  assumes "32 \<le> length a"
  shows "nibbles a = concat (map (\<lambda>b. [b AND 0x0f, drop_bit 4 b AND 0x0f]) (take 32 a))"
proof -
  have "take 32 a = map ((!) a) [0..<32]" using assms by (intro nth_equalityI) simp_all
  then show ?thesis by (simp add: nibbles_def comp_def del: upt_rec_numeral)
qed

lemma nibble_split: "unat (b AND 0x0f :: u8) + 16 * unat (drop_bit 4 b AND 0x0f) = unat b" "unat (b AND 0x0f :: u8) < 16"
proof -
  have "(0x0f :: u8) = mask 4" by (simp add: mask_eq_exp_minus_1)
  then have m: "unat (x AND 0x0f :: u8) = unat x mod 16" for x :: u8 by (simp only: unat_and_mask) simp
  have "unat b < 16 * 16" using unsigned_less [of b, where 'a = nat] by simp
  then show "unat (b AND 0x0f :: u8) + 16 * unat (drop_bit 4 b AND 0x0f) = unat b"
    by (simp add: m unat_drop_bit less_mult_imp_div_less)
  show "unat (b AND 0x0f :: u8) < 16" by (simp add: m)
qed

lemma nibbles_correct:
  assumes "32 \<le> length a"
  shows "length (nibbles a) = 64" and "nibbles_nat (nibbles a) = le_nat (take 32 a)" and "\<forall>e\<in>set (nibbles a). unat e < 16"
proof -
  show "length (nibbles a) = 64"
    unfolding nibbles_of_bytes [OF assms] using assms by (simp add: length_concat comp_def map_replicate_const sum_list_replicate)
  have "nibbles_nat (concat (map (\<lambda>b. [b AND 0x0f, drop_bit 4 b AND 0x0f]) bs)) = le_nat bs" for bs :: bytes
  proof (induction bs)
    case (Cons b bs)
    have "nibbles_nat (concat (map (\<lambda>b. [b AND 0x0f, drop_bit 4 b AND 0x0f]) (b # bs))) =
        unat (b AND 0x0f) + 16 * unat (drop_bit 4 b AND 0x0f) + 256 * le_nat bs"
      using Cons by simp
    then show ?case unfolding nibble_split(1) by simp
  qed simp
  then show "nibbles_nat (nibbles a) = le_nat (take 32 a)" unfolding nibbles_of_bytes [OF assms] .
  show "\<forall>e\<in>set (nibbles a). unat e < 16"
    unfolding nibbles_of_bytes [OF assms] using nibble_split(2) by auto
qed

lemma window_step_correct:
  assumes q: "ge_ok q" and p: "ge_multiple q k p" and sp: "ge_ok sp" and e: "unat (es ! i) < 16"
    and r: "window_step (window_table q) es i (p, sp) = (p', sp')"
  shows "ge_multiple q (16 * k + unat (es ! i)) p'" and "ge_ok sp'"
proof -
  note t = window_table_correct(2) [OF q]
  have ok: "ge_ok (window_table q ! j)" if "j < 16" for j using t [OF that] by (simp add: ge_multiple_def)
  have "p' = ge25519_add ((dbl ^^ 4) p) (window_table q ! unat (es ! i))" "sp' = window_table q ! unat (es ! i)"
    using r by (auto simp: window_step_def Let_def scan_table [OF sp ok e] simp del: upt_rec_numeral funpow.simps)
  moreover have "ge_multiple q (2 ^ 4 * k) ((dbl ^^ 4) p)" by (rule ge_multiple_dbls [OF p])
  ultimately show "ge_multiple q (16 * k + unat (es ! i)) p'" and "ge_ok sp'"
    using ge_multiple_add [OF _ t [OF e]] ok [OF e] by simp_all
qed

lemma ge25519_scalarmult_multiple:
  assumes q: "ge_ok q" and a: "32 \<le> length a" and junk: "ge_ok junk"
  shows "ge_multiple q (le_nat (take 32 a)) (ge25519_scalarmult junk q a)"
proof -
  define es where "es = nibbles a"
  note n = nibbles_correct [OF a, folded es_def]
  have "case fold (window_step (window_table q) es) (rev [64 - m..<64]) (neutral, junk) of
      (p, sp) \<Rightarrow> ge_multiple q (nibbles_nat (drop (64 - m) es)) p \<and> ge_ok sp" if "m \<le> 64" for m
    using that
  proof (induction m)
    case 0
    then show ?case using n(1) junk by (simp add: ge_multiple_neutral)
  next
    case (Suc m)
    obtain p sp where p: "fold (window_step (window_table q) es) (rev [64 - m..<64]) (neutral, junk) = (p, sp)" by (metis surj_pair)
    define i where "i = 63 - m"
    have i: "64 - m = Suc i" "64 - Suc m = i" "i < 64" using Suc.prems by (simp_all add: i_def)
    have IH: "ge_multiple q (nibbles_nat (drop (Suc i) es)) p" "ge_ok sp" using Suc p i by simp_all
    have upt: "rev [64 - Suc m..<64] = rev [64 - m..<64] @ [i]" unfolding i using i(3) by (simp only: upt_conv_Cons rev.simps)
    obtain p' sp' where s: "window_step (window_table q) es i (p, sp) = (p', sp')" by (metis surj_pair)
    have "unat (es ! i) < 16" using n i by simp
    from window_step_correct [OF q IH this s]
    have "ge_multiple q (nibbles_nat (drop i es)) p'" "ge_ok sp'"
      using Cons_nth_drop_Suc [of i es] n(1) i(3) by (simp_all add: add.commute flip: Cons_nth_drop_Suc)
    then show ?case unfolding upt using p s i by simp
  qed
  from this [of 64] show ?thesis
    by (simp add: ge25519_scalarmult_def es_def [symmetric] n(2) split: prod.splits del: upt_rec_numeral)
qed

section \<open>Encoding and decoding\<close>

definition ed_encode :: "ext \<Rightarrow> bytes" where
  "ed_encode = (\<lambda>(X, Y, Z, T).
     let zi = Z ^ (p25519 - 2) mod P25519; x = X * zi mod P25519; y = Y * zi mod P25519
     in le_bytes 32 (nat (y + 2 ^ 255 * (x mod 2))))"

lemma flip_top_bit:
  fixes s :: bytes
  assumes len: "length s = 32" and lt: "le_nat s < 2 ^ 255" and b: "b = 0 \<or> b = 1"
  shows "le_nat (s[31 := s ! 31 XOR push_bit 7 b]) = le_nat s + 2 ^ 255 * unat (b :: u8)"
proof -
  have split: "le_nat (s[31 := c]) = le_nat (take 31 s) + 2 ^ 248 * unat c" for c
    using len le_nat_append [of "take 31 s" "[c]"] upd_conv_take_nth_drop [of 31 s c] by simp
  have s: "le_nat s = le_nat (take 31 s) + 2 ^ 248 * unat (s ! 31)" using split [of "s ! 31"] by simp
  have "unat (s ! 31) < 128" using s lt by simp
  have "unat (s ! 31 XOR push_bit 7 b) = unat (s ! 31) + 128 * unat b"
  proof (cases "b = 0")
    case False
    have b1: "b = 1" using False b by simp
    have "\<not> bit (s ! 31) 7"
    proof
      assume "bit (s ! 31) 7"
      then have "bit (unat (s ! 31)) 7" by (simp add: bit_unsigned_iff)
      then have "odd (unat (s ! 31) div 2 ^ 7)" unfolding bit_iff_odd .
      moreover have "unat (s ! 31) div 2 ^ 7 = 0" using \<open>unat (s ! 31) < 128\<close> by simp
      ultimately show False by simp
    qed
    define m :: u8 where "m = push_bit 7 1"
    have m: "bit m n \<longleftrightarrow> n = 7" for n by (auto simp only: m_def bit_push_bit_iff bit_1_iff) auto
    have "s ! 31 XOR m = s ! 31 OR m" using \<open>\<not> bit (s ! 31) 7\<close> by (intro bit_word_eqI) (auto simp: bit_xor_iff bit_or_iff m)
    also have "\<dots> = s ! 31 + m"
      by (rule disjunctive_add [symmetric]) (use \<open>\<not> bit (s ! 31) 7\<close> m in auto)
    also have "unat \<dots> = unat (s ! 31) + 128"
      using \<open>unat (s ! 31) < 128\<close> by (subst unat_add_fits) (simp_all add: m_def)
    finally show ?thesis by (simp add: b1 m_def)
  qed simp
  then show ?thesis using split s by simp
qed

lemma ge25519_tobytes_val:
  assumes "ge_ok p"
  shows "ge25519_tobytes p = ed_encode (ge_val p)"
proof -
  obtain h0 h1 h2 h3 where p: "p = (h0, h1, h2, h3)" by (metis surj_pair)
  have len: "length h0 = 8" "length h1 = 8" "length h2 = 8" using assms by (simp_all add: p ge_ok_def)
  define z where "z = fe25519_inv h2"
  have z: "length z = 8" "fe_val z = fe_val h2 ^ (p25519 - 2) mod P25519"
    using fe25519_inv_val [OF len(3)] by (simp_all add: z_def fe_reduced_length)
  define x where "x = fe25519_mul h0 z"
  define y where "y = fe25519_mul h1 z"
  note X = fe25519_mul_val [OF len(1) z(1), folded x_def]
  note Y = fe25519_mul_val [OF len(2) z(1), folded y_def]
  define s where "s = fe25519_tobytes y"
  have yr: "0 \<le> fe_val y" "fe_val y < 2 ^ 255" using fe_val_range [of y] by (simp_all add: p25519_def)
  have s: "s = le_bytes 32 (nat (fe_val y))" unfolding s_def by (rule fe25519_tobytes_val [OF Y(1)])
  have ls: "le_nat s = nat (fe_val y)" using yr by (simp add: s le_nat_le_bytes)
  have neg: "uint (fe25519_isnegative x) = fe_val x mod 2"
    using fe25519_isnegative_iff [OF X(1)] by simp
  have neg': "unat (fe25519_isnegative x) = nat (fe_val x mod 2)"
    using fe25519_isnegative_iff [OF X(1)] by (metis nat_int)
  have b: "fe25519_isnegative x = 0 \<or> fe25519_isnegative x = 1"
  proof -
    have "uint (fe25519_isnegative x) = 0 \<or> uint (fe25519_isnegative x) = 1" unfolding neg by presburger
    then show ?thesis by (metis unsigned_0 unsigned_1 unsigned_word_eqI)
  qed
  have "le_nat (ge25519_tobytes p) = nat (fe_val y + 2 ^ 255 * (fe_val x mod 2))"
    using flip_top_bit [of s "fe25519_isnegative x"] b ls yr neg'
    by (simp add: nat_add_distrib nat_mult_distrib p ge25519_tobytes_def Let_def z_def [symmetric] x_def [symmetric] y_def [symmetric] s_def [symmetric] s)
  moreover have "length (ge25519_tobytes p) = 32"
    by (simp add: p ge25519_tobytes_def Let_def z_def [symmetric] y_def [symmetric] s_def [symmetric] s)
  ultimately show ?thesis
    using le_bytes_le_nat [of "ge25519_tobytes p"] X(2) Y(2) z(2)
    by (simp add: p ed_encode_def ge_val_def Let_def)
qed

definition ed_sqrtm1 :: int where
  "ed_sqrtm1 = 19681161376707505956807079304988542015446066515923890162744021073123829784752"

text \<open>Decoding as in RFC 8032, section 5.1.3, with the negated x; unlike there y may be any number below
  \<open>2 ^ 255\<close>, and x = 0 is accepted with either sign.\<close>

definition ed_decode_negate :: "bytes \<Rightarrow> (int \<times> int) option" where
  "ed_decode_negate s =
     (let y = int (le_nat (take 32 s) mod 2 ^ 255) mod P25519; u = (y * y - 1) mod P25519; v = (ed_d * (y * y) + 1) mod P25519;
          x = u * v ^ 3 * (u * v ^ 7) ^ (2 ^ 252 - 3) mod P25519;
          sign = (\<lambda>x. Some (if x mod 2 = int (unat (s ! 31) div 128) then - x mod P25519 else x, y))
      in if v * (x * x) mod P25519 = u then sign x
         else if v * (x * x) mod P25519 = - u mod P25519 then sign (x * ed_sqrtm1 mod P25519) else None)"

lemma fe25519_pow22523_val:
  assumes "length z = 8"
  shows "length (fe25519_pow22523 z) = 8" and "fe_val (fe25519_pow22523 z) = fe_val z ^ (2 ^ 252 - 3) mod P25519"
  using fe_pow_pow22523 [OF assms] by (simp_all only: fe_pow_def)

lemma fe_val_sqrtm1_eq: "fe_val sqrtm1 = ed_sqrtm1"
  by (simp add: sqrtm1_def fe_val_def p25519_def ed_sqrtm1_def)

lemma ge25519_frombytes_val:
  assumes "32 \<le> length s"
  shows "\<exists>r. ge25519_frombytes_negate_vartime s = Inr r \<and>
    (case ed_decode_negate s of None \<Rightarrow> r = None
     | Some (x, y) \<Rightarrow> \<exists>h. r = Some h \<and> ge_ok h \<and> ge_val h = (x, y, 1, x * y mod P25519))"
proof -
  define h1 where "h1 = fe25519_frombytes s"
  define u where "u = fe25519_sub (fe25519_sq h1) fe_1"
  define v where "v = fe25519_add (fe25519_mul (fe25519_sq h1) D) fe_1"
  define v3 where "v3 = fe25519_mul (fe25519_sq v) v"
  define w where "w = fe25519_mul (fe25519_mul (fe25519_sq v3) v) u"
  define h0 where "h0 = fe25519_mul (fe25519_mul (fe25519_pow22523 w) v3) u"
  define vxx where "vxx = fe25519_mul (fe25519_sq h0) v"
  have len: "length h1 = 8" "length u = 8" "length v = 8" "length v3 = 8" "length w = 8" "length h0 = 8" "length vxx = 8"
    by (simp_all add: h1_def u_def v_def v3_def w_def h0_def vxx_def fe_op_lengths fe_val_D fe25519_pow22523_val)
  define y where "y = int (le_nat (take 32 s) mod 2 ^ 255) mod P25519"
  have y: "fe_val h1 = y" using assms by (simp add: h1_def y_def fe_val_def fe25519_frombytes_val)
  have uv: "fe_val u = (y * y - 1) mod P25519" "fe_val v = (ed_d * (y * y) + 1) mod P25519"
    by (simp_all add: u_def v_def fe_op_vals fe_op_lengths len y fe_val_D mod_simps mult.commute)
  define x where "x = fe_val u * fe_val v ^ 3 * (fe_val u * fe_val v ^ 7) ^ (2 ^ 252 - 3) mod P25519"
  have v3: "fe_val v3 = fe_val v ^ 3 mod P25519"
    by (simp add: v3_def fe_op_vals fe_op_lengths len mod_simps power3_eq_cube)
  have w: "fe_val w = fe_val u * fe_val v ^ 7 mod P25519"
  proof -
    have "fe_val w = fe_val v ^ 3 * fe_val v ^ 3 * fe_val v * fe_val u mod P25519"
      by (simp only: w_def fe_op_vals fe_op_lengths len v3 mod_simps)
    also have "fe_val v ^ 3 * fe_val v ^ 3 * fe_val v * fe_val u = fe_val u * fe_val v ^ 7" by (simp add: eval_nat_numeral)
    finally show ?thesis .
  qed
  have "fe_val (fe25519_pow22523 w) = (fe_val u * fe_val v ^ 7) ^ (2 ^ 252 - 3) mod P25519"
    unfolding fe25519_pow22523_val(2) [OF len(5)] w by (rule power_mod)
  then have "fe_val h0 = (fe_val u * fe_val v ^ 7) ^ (2 ^ 252 - 3) * fe_val v ^ 3 * fe_val u mod P25519"
    by (simp only: h0_def fe_op_vals fe_op_lengths len v3 fe25519_pow22523_val(1) mod_simps)
  then have x: "fe_val h0 = x"
    unfolding x_def by (simp only: mult.commute mult.left_commute mult.assoc)
  have vx: "fe_val vxx = fe_val v * (x * x) mod P25519"
    by (simp add: vxx_def fe_op_vals fe_op_lengths len x mod_simps mult.commute)
  have nz: "fe25519_isnonzero (fe25519_sub vxx u) = Inr (if fe_val v * (x * x) mod P25519 = fe_val u then 0 else - 1)"
    "fe25519_isnonzero (fe25519_add vxx u) = Inr (if fe_val v * (x * x) mod P25519 = - fe_val u mod P25519 then 0 else - 1)"
  proof -
    have "(a - b) mod P25519 = 0 \<longleftrightarrow> a mod P25519 = b mod P25519" for a b
      by (simp add: mod_eq_dvd_iff dvd_eq_mod_eq_0)
    from this [of "fe_val v * (x * x)" "fe_val u"] this [of "fe_val v * (x * x)" "- fe_val u"]
    show "fe25519_isnonzero (fe25519_sub vxx u) = Inr (if fe_val v * (x * x) mod P25519 = fe_val u then 0 else - 1)"
      "fe25519_isnonzero (fe25519_add vxx u) = Inr (if fe_val v * (x * x) mod P25519 = - fe_val u mod P25519 then 0 else - 1)"
      by (simp_all add: fe25519_isnonzero_iff fe_op_vals len vx mod_simps)
  qed
  have sign: "ge_ok (k', h1, fe_1, fe25519_mul k' h1) \<and>
      ge_val (k', h1, fe_1, fe25519_mul k' h1) = (x', y, 1, x' * y mod P25519)"
    if "fe_reduced k" "k' = (if fe25519_isnegative k = drop_bit 7 (s ! 31) then fe25519_neg k else k)"
      "x' = (if fe_val k mod 2 = int (unat (s ! 31) div 128) then - fe_val k mod P25519 else fe_val k)" for k k' x'
  proof -
    have "fe25519_isnegative k = drop_bit 7 (s ! 31) \<longleftrightarrow> fe_val k mod 2 = int (unat (s ! 31) div 128)"
      unfolding fe25519_isnegative_iff [OF that(1), symmetric] word_eq_iff_unsigned [where 'a = nat] unat_drop_bit of_nat_eq_iff by simp
    then have "length k' = 8" "fe_val k' = x'" using that fe25519_neg_val [of k] by (auto simp: fe_reduced_length)
    then show ?thesis by (simp add: ge_ok_def ge_val_def len fe_op_lengths fe_op_vals y)
  qed
  have red: "fe_reduced h0" "fe_reduced (fe25519_mul h0 sqrtm1)"
    by (simp_all add: h0_def fe_op_vals fe_op_lengths len fe25519_pow22523_val fe_val_sqrtm1)
  let ?x = "if fe_val v * (x * x) mod P25519 = fe_val u then Some x else if fe_val v * (x * x) mod P25519 = - fe_val u mod P25519 then Some (x * ed_sqrtm1 mod P25519) else None"
  let ?h = "\<lambda>k. (let k' = (if fe25519_isnegative k = drop_bit 7 (s ! 31) then fe25519_neg k else k) in (k', h1, fe_1, fe25519_mul k' h1))"
  have code: "ge25519_frombytes_negate_vartime s =
      Inr (if fe_val v * (x * x) mod P25519 = fe_val u then Some (?h h0)
        else if fe_val v * (x * x) mod P25519 = - fe_val u mod P25519 then Some (?h (fe25519_mul h0 sqrtm1)) else None)"
    unfolding ge25519_frombytes_negate_vartime_def Let_def h1_def [symmetric] u_def [symmetric] v_def [symmetric] v3_def [symmetric]
      w_def [symmetric] h0_def [symmetric] vxx_def [symmetric] nz bindr_Inr by (simp cong: if_cong)
  have spec: "ed_decode_negate s = (case ?x of None \<Rightarrow> None
      | Some k \<Rightarrow> Some (if k mod 2 = int (unat (s ! 31) div 128) then - k mod P25519 else k, y))"
    unfolding ed_decode_negate_def Let_def y_def [symmetric] uv [symmetric] x_def [symmetric] by (simp cong: if_cong)
  have k2: "fe_val (fe25519_mul h0 sqrtm1) = x * ed_sqrtm1 mod P25519"
    by (simp add: fe_op_vals len fe_val_sqrtm1 fe_val_sqrtm1_eq x)
  show ?thesis
    using sign [OF red(1) refl refl] sign [OF red(2) refl refl] unfolding code spec x k2 Let_def
    by (auto split: if_split)
qed

text \<open>The decoded point is on the curve, and its x has the other sign than the encoding says.\<close>

lemma ed_root_on_curve:
  assumes "eqp ((ed_d * (y * y) + 1) * (x * x)) (y * y - 1)"
  shows "on_curve (x, y)"
proof -
  have "eqp ((ed_d * (y * y) + 1) * (x * x) - x * x + 1) (y * y - 1 - x * x + 1)"
    by (intro eqp_add eqp_diff eqp_refl assms)
  then have "eqp (1 + ed_d * (x * x) * (y * y)) (y * y - x * x)"
    by (rule eqp_eq) (simp_all add: algebra_simps)
  then show ?thesis by (simp add: on_curve_def eqp_def)
qed

lemma eqp_mod: "eqp (a mod P25519) a"
  by (simp add: eqp_def)

lemma ed_sqrtm1_square: "eqp (ed_sqrtm1 * ed_sqrtm1) (- 1)"
  by (simp add: eqp_def ed_sqrtm1_def p25519_def)

lemma ed_decode_sound:
  assumes "ed_decode_negate s = Some (x, y)"
  shows "on_curve (x, y)" and "0 \<le> x" "x < P25519" and "y = int (le_nat (take 32 s) mod 2 ^ 255) mod P25519"
    and "x = 0 \<or> x mod 2 \<noteq> int (unat (s ! 31) div 128)"
proof -
  define y' where "y' = int (le_nat (take 32 s) mod 2 ^ 255) mod P25519"
  define u where "u = (y' * y' - 1) mod P25519"
  define v where "v = (ed_d * (y' * y') + 1) mod P25519"
  define r where "r = u * v ^ 3 * (u * v ^ 7) ^ (2 ^ 252 - 3) mod P25519"
  define sgn where "sgn = int (unat (s ! 31) div 128)"
  have dec: "(if v * (r * r) mod P25519 = u then Some (if r mod 2 = sgn then - r mod P25519 else r, y')
      else if v * (r * r) mod P25519 = - u mod P25519
        then Some (if r * ed_sqrtm1 mod P25519 mod 2 = sgn then - (r * ed_sqrtm1 mod P25519) mod P25519 else r * ed_sqrtm1 mod P25519, y')
      else None) = Some (x, y)"
    using assms unfolding ed_decode_negate_def Let_def y'_def [symmetric] u_def [symmetric] v_def [symmetric] r_def [symmetric] sgn_def [symmetric] .
  have uv: "eqp u (y' * y' - 1)" "eqp v (ed_d * (y' * y') + 1)" by (simp_all add: u_def v_def eqp_mod)
  obtain k where k: "0 \<le> k" "k < P25519" "eqp (v * (k * k)) u" "x = (if k mod 2 = sgn then - k mod P25519 else k)" "y = y'"
  proof (cases "v * (r * r) mod P25519 = u")
    case True
    then have "eqp (v * (r * r)) u" by (simp add: eqp_def u_def)
    then show ?thesis using that [of r] dec True by (simp add: r_def pos_mod_bound)
  next
    case False
    then have n: "v * (r * r) mod P25519 = - u mod P25519" using dec by (simp split: if_splits)
    define k where "k = r * ed_sqrtm1 mod P25519"
    have "eqp (v * (k * k)) (v * (r * ed_sqrtm1 * (r * ed_sqrtm1)))" unfolding k_def by (intro eqp_mult eqp_mod eqp_refl)
    also have "v * (r * ed_sqrtm1 * (r * ed_sqrtm1)) = v * (r * r) * (ed_sqrtm1 * ed_sqrtm1)" by simp
    also have "eqp (v * (r * r) * (ed_sqrtm1 * ed_sqrtm1)) (- u * - 1)"
      by (intro eqp_mult ed_sqrtm1_square) (use n in \<open>simp add: eqp_def\<close>)
    finally have "eqp (v * (k * k)) u" by simp
    moreover have "Some (if k mod 2 = sgn then - k mod P25519 else k, y') = Some (x, y)"
      using dec unfolding if_not_P [OF False] if_P [OF n] k_def [symmetric] .
    moreover have "0 \<le> k" "k < P25519" by (simp_all add: k_def pos_mod_bound)
    ultimately show ?thesis using that [of k] by simp
  qed
  show "0 \<le> x" "x < P25519" "y = int (le_nat (take 32 s) mod 2 ^ 255) mod P25519"
    using k by (auto simp: y'_def pos_mod_bound)
  have "eqp (x * x) (k * k)"
  proof (cases "k mod 2 = sgn")
    case True
    then have "eqp x (- k)" using k(4) by (simp add: eqp_mod)
    then have "eqp (x * x) (- k * - k)" by (intro eqp_mult)
    then show ?thesis by simp
  qed (use k(4) in \<open>simp add: eqp_refl\<close>)
  then have "eqp (v * (x * x)) u" using eqp_mult [OF eqp_refl] k(3) eqp_trans by blast
  moreover have "eqp (v * (x * x)) ((ed_d * (y * y) + 1) * (x * x))" using uv(2) by (intro eqp_mult eqp_refl) (simp add: k(5))
  ultimately have "eqp ((ed_d * (y * y) + 1) * (x * x)) (y * y - 1)" using uv(1) eqp_sym eqp_trans unfolding k(5) by blast
  then show "on_curve (x, y)" by (rule ed_root_on_curve)
  have "x \<noteq> 0 \<Longrightarrow> x mod 2 \<noteq> sgn"
  proof (cases "k mod 2 = sgn")
    case True
    assume "x \<noteq> 0"
    then have "k \<noteq> 0" using k(4) True by auto
    then have "x = P25519 - k" using k True by (simp add: zmod_zminus1_eq_if)
    then show ?thesis using True by (simp add: p25519_def) presburger
  qed (use k(4) in simp)
  then show "x = 0 \<or> x mod 2 \<noteq> int (unat (s ! 31) div 128)" by (auto simp: sgn_def)
qed

section \<open>Properties\<close>

text \<open>
  C27. The group operations of Ed25519 are the addition law of the twisted Edwards curve: whenever the two
  arguments stand for points of the plane in extended coordinates, and c satisfies the addition law for
  them, the sum of the code stands for c, and the double for the sum of a point of the curve with itself.
  The coordinates are those of the formulas of RFC 8032, section 5.1.4, for any eight-limb arrays.
\<close>

theorem ge25519_edwards_law:
  assumes "ge_ok p" and "ge_ok q"
  shows "ge_val (ge25519_add p q) = ed_add (ge_val p) (ge_val q) \<and> ge_val (dbl p) = ed_double (ge_val p) \<and>
    (represents (ge_val p) a \<and> represents (ge_val q) b \<and> ed_sum a b c \<longrightarrow> represents (ge_val (ge25519_add p q)) c) \<and>
    (represents (ge_val p) a \<and> on_curve a \<and> ed_sum a a c \<longrightarrow> represents (ge_val (dbl p)) c)"
  using assms by (auto simp: ge25519_add_val dbl_val intro: ed_add_represents ed_double_represents)

theorem ge25519_edwards_law_witness:
  "represents (ge_val (ge25519_add neutral neutral)) (0, 1) \<and> represents (ge_val (dbl neutral)) (0, 1)"
proof -
  have n: "ge_ok neutral" "ge_val neutral = (0, 1, 1, 0)" by (simp_all add: ge_ok_def ge_val_def neutral_def)
  have "represents (ge_val neutral) (0, 1)" "ed_sum (0, 1) (0, 1) (0, 1)" "on_curve (0, 1)"
    by (simp_all add: n represents_def ed_sum_def on_curve_def)
  then show ?thesis using ge25519_edwards_law [OF n(1) n(1), of "(0, 1)" "(0, 1)" "(0, 1)"] by blast
qed

text \<open>
  C28. Scalar multiplication: for every 32-byte scalar, for every point and whatever is in the memory the
  table entries are selected into, the result is reached from the point by additions and doublings of
  RFC 8032 that count to the scalar; its encoding is the one of RFC 8032, the canonical y with the sign of x.
\<close>

theorem ge25519_scalarmult_correct:
  assumes "ge_ok q" and "length a = 32" and "ge_ok junk"
  shows "ed_multiple (ge_val q) (le_nat a) (ge_val (ge25519_scalarmult junk q a)) \<and>
    ge25519_tobytes (ge25519_scalarmult junk q a) = ed_encode (ge_val (ge25519_scalarmult junk q a))"
  using ge25519_scalarmult_multiple [OF assms(1) _ assms(3), of a] assms(2)
  by (simp add: ge_multiple_def ge25519_tobytes_val)

theorem ge25519_scalarmult_witness:
  "ed_multiple (ge_val baseq) (le_nat (replicate 32 1)) (ge_val (ge25519_scalarmult neutral baseq (replicate 32 1)))"
proof -
  have "ge_ok baseq" "ge_ok neutral" by (simp_all add: ge_ok_def baseq_def neutral_def)
  then show ?thesis using ge25519_scalarmult_correct [of baseq "replicate 32 1" neutral] by simp
qed



end
