(* ===== verification/Sc25519.thy ===== *)
theory Sc25519
  imports Fe25519
begin

text \<open>
  sc25519.c: scalars modulo the order of the group of Ed25519. The digits of \<open>modL\<close> are \<open>crypto_int64\<close>,
  words of 64 bits that are read as signed; a product with \<open>L\<close>, which is unsigned, is the same word. Both
  functions are proved to return the canonical residue, and no digit comes near the bounds of 64 bits.
\<close>

unbundle bit_operations_syntax

section \<open>sc25519.c\<close>

definition L_bytes :: "u64 list" where
  "L_bytes = [0xed, 0xd3, 0xf5, 0x5c, 0x1a, 0x63, 0x12, 0x58, 0xd6, 0x9c, 0xf7, 0xa2, 0xde, 0xf9, 0xde, 0x14,
    0, 0, 0, 0, 0, 0, 0, 0, 0, 0, 0, 0, 0, 0, 0, 0x10]"

definition modL_digit :: "nat \<Rightarrow> nat \<Rightarrow> u64 list \<times> u64 \<Rightarrow> u64 list \<times> u64" where
  "modL_digit i j = (\<lambda>(x, carry).
     let x = x[j := x ! j + (carry - 16 * x ! i * L_bytes ! (j - (i - 32)))];
         carry = signed_drop_bit 8 (x ! j + 128); x = x[j := x ! j - push_bit 8 carry]
     in (x, carry))"

definition modL_row :: "nat \<Rightarrow> u64 list \<Rightarrow> u64 list" where
  "modL_row i x =
     (let (x, carry) = fold (modL_digit i) [i - 32..<i - 12] (x, 0); x = x[i - 12 := x ! (i - 12) + carry]
      in x[i := 0])"

definition modL_sub :: "nat \<Rightarrow> u64 list \<times> u64 \<Rightarrow> u64 list \<times> u64" where
  "modL_sub j = (\<lambda>(x, carry).
     let x = x[j := x ! j + (carry - signed_drop_bit 4 (x ! 31) * L_bytes ! j)]; carry = signed_drop_bit 8 (x ! j)
     in (x[j := x ! j AND 255], carry))"

definition modL_out :: "nat \<Rightarrow> u64 list \<times> bytes \<Rightarrow> u64 list \<times> bytes" where
  "modL_out i = (\<lambda>(x, r).
     let x = x[i + 1 := x ! (i + 1) + signed_drop_bit 8 (x ! i)] in (x, r[i := ucast (x ! i AND 255)]))"

definition modL :: "bytes \<Rightarrow> u64 list \<Rightarrow> bytes" where
  "modL r x =
     (let x = fold modL_row (rev [32..<64]) x; (x, carry) = fold modL_sub [0..<32] (x, 0);
          x = fold (\<lambda>j x. x[j := x ! j - carry * L_bytes ! j]) [0..<32] x; (x, r) = fold modL_out [0..<32] (x, r)
      in r)"

definition sc25519_reduce :: "bytes \<Rightarrow> bytes" where
  "sc25519_reduce s = modL (replicate 64 0) (map (\<lambda>i. ucast (s ! i)) [0..<64])"

definition sc25519_muladd :: "bytes \<Rightarrow> bytes \<Rightarrow> bytes \<Rightarrow> bytes \<Rightarrow> bytes" where
  "sc25519_muladd s a b c =
     (let t = replicate 64 0;
          t = fold (\<lambda>(i, j) t. t[i + j := t ! (i + j) + ucast (a ! i) * ucast (b ! j)]) (List.product [0..<32] [0..<32]) t;
          t = fold (\<lambda>i t. t[i := t ! i + ucast (c ! i)]) [0..<32] t
      in modL s t)"

section \<open>Signed words\<close>

named_theorems sint_nowrap \<open>sint of an operation whose result fits the word\<close>

definition fits64 :: "int \<Rightarrow> bool" where
  "fits64 k \<longleftrightarrow> - (2 ^ 63) \<le> k \<and> k < 2 ^ 63"

lemma fits64_abs: "\<bar>k\<bar> \<le> 2 ^ 62 \<Longrightarrow> fits64 k"
  by (auto simp: fits64_def)

lemma sint_of_int: "fits64 k \<Longrightarrow> sint (word_of_int k :: u64) = k"
  by (simp add: fits64_def signed_of_int signed_take_bit_int_eq_self)

lemma sint_add_fits [sint_nowrap]: "fits64 (sint a + sint b) \<Longrightarrow> sint (a + b :: u64) = sint a + sint b"
  using sint_of_int [of "sint a + sint b"] by simp

lemma sint_sub_fits [sint_nowrap]: "fits64 (sint a - sint b) \<Longrightarrow> sint (a - b :: u64) = sint a - sint b"
  using sint_of_int [of "sint a - sint b"] by simp

lemma sint_mult_fits [sint_nowrap]: "fits64 (sint a * sint b) \<Longrightarrow> sint (a * b :: u64) = sint a * sint b"
  using sint_of_int [of "sint a * sint b"] by simp

lemma sint_asr [sint_nowrap]: "sint (signed_drop_bit n (a :: u64)) = sint a div 2 ^ n"
  by (simp add: sint_signed_drop_bit_eq drop_bit_eq_div)

lemma sint_push_bit8 [sint_nowrap]: "fits64 (256 * sint a) \<Longrightarrow> sint (push_bit 8 (a :: u64)) = 256 * sint a"
  using sint_of_int [of "256 * sint a"] by (simp add: push_bit_eq_mult mult.commute)

lemma sint_mod256: "sint (a :: u64) mod 256 = int (unat a mod 256)"
proof -
  have "take_bit 8 (sint a) = take_bit 8 (uint a)"
    by (simp add: sint_uint take_bit_signed_take_bit)
  then show ?thesis by (simp add: take_bit_eq_mod zmod_int)
qed

lemma unat_low8: "unat (a AND 255 :: u64) = unat a mod 256"
proof -
  have "(255 :: u64) = mask 8" by (simp add: mask_eq_exp_minus_1)
  then show ?thesis by (simp only: unat_and_mask) simp
qed

lemma unat_ucast_low8: "unat (ucast (a AND 255 :: u64) :: u8) = unat a mod 256"
  by (simp add: unsigned_ucast_eq unsigned_take_bit_eq take_bit_eq_mod unat_low8)

lemma sint_low8: "sint (a AND 255 :: u64) = sint a mod 256"
proof -
  define k where "k = unat (a AND 255)"
  have k: "k = unat a mod 256" by (simp add: k_def unat_low8)
  then have "sint (word_of_int (int k) :: u64) = int k" by (intro sint_of_int fits64_abs) simp
  then have "sint (a AND 255) = int k" by (simp add: k_def)
  then show ?thesis by (simp only: k sint_mod256)
qed

text \<open>The number the digits stand for.\<close>

primrec digits_int :: "u64 list \<Rightarrow> int" where
  "digits_int [] = 0"
| "digits_int (x # xs) = sint x + 256 * digits_int xs"

lemma digits_int_update: "k < length xs \<Longrightarrow> digits_int (xs[k := w]) = digits_int xs + (sint w - sint (xs ! k)) * 256 ^ k"
proof (induction xs arbitrary: k)
  case (Cons x xs)
  show ?case
  proof (cases k)
    case (Suc j)
    then show ?thesis using Cons.IH [of j] Cons.prems by (simp add: distrib_left mult.left_commute)
  qed simp
qed simp

lemma digits_int_append: "digits_int (xs @ ys) = digits_int xs + 256 ^ length xs * digits_int ys"
  by (induction xs) (simp_all add: algebra_simps)

section \<open>One digit and one row\<close>

definition L25519 :: int where
  "L25519 = 2 ^ 252 + 27742317777372353535851937790883648493"

lemma L_bytes_sint: "l < 32 \<Longrightarrow> 0 \<le> sint (L_bytes ! l) \<and> sint (L_bytes ! l) \<le> 255"
proof -
  have "\<forall>x\<in>set L_bytes. 0 \<le> sint x \<and> sint x \<le> 255" by (simp add: L_bytes_def)
  then show "l < 32 \<Longrightarrow> 0 \<le> sint (L_bytes ! l) \<and> sint (L_bytes ! l) \<le> 255"
    unfolding all_set_conv_all_nth by (simp add: L_bytes_def)
qed

lemma L_bytes_0:
  assumes "16 \<le> l" and "l < 20"
  shows "L_bytes ! l = 0"
proof -
  have "l = 16 \<or> l = 17 \<or> l = 18 \<or> l = 19" using assms by linarith
  then show ?thesis by (elim disjE) (simp_all add: L_bytes_def)
qed

lemma digits_int_L: "digits_int L_bytes = L25519"
  by (simp add: L_bytes_def L25519_def)

lemma modL_digit_correct:
  assumes b: "length x = 64" "i < 64" "32 \<le> i" "l < 20"
    and xj: "\<bar>sint (x ! (i - 32 + l))\<bar> \<le> 2 ^ 22" and xi: "\<bar>sint (x ! i)\<bar> \<le> 2 ^ 22" and c: "\<bar>sint c\<bar> \<le> 2 ^ 27"
    and r: "modL_digit i (i - 32 + l) (x, c) = (x', c')"
    and v: "v = sint (x ! (i - 32 + l)) + sint c - 16 * sint (x ! i) * sint (L_bytes ! l)"
  shows "sint c' = (v + 128) div 256" and "\<exists>w. x' = x[i - 32 + l := w] \<and> sint w = v - 256 * ((v + 128) div 256)"
proof -
  define j where "j = i - 32 + l"
  have j: "j < 64" "j - (i - 32) = l" using b by (simp_all add: j_def)
  define w where "w = x ! j + (c - 16 * x ! i * L_bytes ! l)"
  have Lb: "\<bar>sint (L_bytes ! l)\<bar> \<le> 255" using L_bytes_sint [of l] b by simp
  have p: "\<bar>sint (x ! i) * sint (L_bytes ! l)\<bar> \<le> 2 ^ 22 * 255"
    unfolding abs_mult by (rule mult_mono) (use xi Lb in simp_all)
  have p16: "\<bar>16 * sint (x ! i) * sint (L_bytes ! l)\<bar> \<le> 16 * (2 ^ 22 * 255)" using p by (simp add: abs_mult mult_ac)
  have s1: "sint (16 * x ! i) = 16 * sint (x ! i)"
    using xi by (subst sint_mult_fits) (auto simp: fits64_def)
  have s2: "sint (16 * x ! i * L_bytes ! l) = 16 * sint (x ! i) * sint (L_bytes ! l)"
    by (subst sint_mult_fits, rule fits64_abs) (use p16 in \<open>simp_all add: s1\<close>)
  have s3: "sint (c - 16 * x ! i * L_bytes ! l) = sint c - 16 * sint (x ! i) * sint (L_bytes ! l)"
    by (subst sint_sub_fits, rule fits64_abs) (use p16 c in \<open>simp_all add: s2\<close>)
  have vb: "\<bar>v\<bar> \<le> 2 ^ 35" using p c xj by (simp add: v j_def [symmetric] mult.assoc)
  have w: "sint w = v"
    unfolding w_def by (subst sint_add_fits, rule fits64_abs) (use p16 c xj in \<open>simp_all only: s3 v j_def [symmetric], simp_all\<close>)
  have w2: "sint (signed_drop_bit 8 (w + 128)) = (v + 128) div 256"
    unfolding sint_asr by (subst sint_add_fits, rule fits64_abs) (use vb in \<open>simp_all add: w\<close>)
  have q: "\<bar>(v + 128) div 256\<bar> \<le> 2 ^ 35" using vb by linarith
  have w3: "sint (w - push_bit 8 (signed_drop_bit 8 (w + 128))) = v - 256 * ((v + 128) div 256)"
  proof -
    have "sint (push_bit 8 (signed_drop_bit 8 (w + 128))) = 256 * ((v + 128) div 256)"
      by (subst sint_push_bit8, rule fits64_abs) (use q in \<open>simp_all add: w2\<close>)
    then show ?thesis by (subst sint_sub_fits, intro fits64_abs) (use vb q in \<open>simp_all add: w\<close>)
  qed
  have "x' = x[j := w - push_bit 8 (signed_drop_bit 8 (w + 128))]" "c' = signed_drop_bit 8 (w + 128)"
    using r b j by (auto simp: modL_digit_def Let_def j_def [symmetric] w_def)
  then show "sint c' = (v + 128) div 256" "\<exists>w. x' = x[i - 32 + l := w] \<and> sint w = v - 256 * ((v + 128) div 256)"
    using w2 w3 by (auto simp: j_def [symmetric])
qed


text \<open>
  A row: \<open>16 * x[i]\<close> times the lower digits of L is taken away. The carry is as large as a product while the
  digits of L last; the four zero digits that follow bring it down to the size of the digits there.
\<close>

definition carry_bound :: "int \<Rightarrow> nat \<Rightarrow> int" where
  "carry_bound E n = (if n \<le> 16 then 2 ^ 27 else E div 128 + 2 ^ (7 * (20 - n)))"

lemma modL_carry_step:
  assumes "0 \<le> E" "E \<le> 2 ^ 22" "\<bar>xj\<bar> \<le> E" "\<bar>c\<bar> \<le> carry_bound E n" "16 \<le> n" "n < 20" "128 \<le> E"
  shows "\<bar>(xj + c + 128) div 256\<bar> \<le> carry_bound E (Suc n)"
proof -
  have "n = 16 \<or> n = 17 \<or> n = 18 \<or> n = 19" using assms by linarith
  then show ?thesis using assms by (elim disjE) (simp_all add: carry_bound_def)
qed

lemma modL_carry_step_low:
  assumes "\<bar>xj\<bar> \<le> 2 ^ 22" "\<bar>c\<bar> \<le> 2 ^ 27" "\<bar>xi\<bar> \<le> 2 ^ 22" "0 \<le> l" "l \<le> 255"
  shows "\<bar>(xj + c - 16 * xi * l + 128) div 256\<bar> \<le> (2 ^ 27 :: int)"
proof -
  have "\<bar>xi * l\<bar> \<le> 2 ^ 22 * 255" unfolding abs_mult by (rule mult_mono) (use assms in simp_all)
  then show ?thesis using assms by (simp add: mult.assoc)
qed

definition row_state :: "nat \<Rightarrow> u64 list \<Rightarrow> int \<Rightarrow> nat \<Rightarrow> u64 list \<times> u64 \<Rightarrow> bool" where
  "row_state b x E n = (\<lambda>(y, c). length y = 64 \<and> (\<forall>k. k < b \<or> b + n \<le> k \<longrightarrow> y ! k = x ! k) \<and>
     (\<forall>k. b \<le> k \<and> k < b + n \<longrightarrow> - 128 \<le> sint (y ! k) \<and> sint (y ! k) \<le> 127) \<and> \<bar>sint c\<bar> \<le> carry_bound E n \<and>
     digits_int y + sint c * 256 ^ (b + n) =
       digits_int x - 16 * sint (x ! (b + 32)) * (\<Sum>l<n. sint (L_bytes ! l) * 256 ^ (b + l)))"

lemma row_state_fold:
  assumes len: "length x = 64" and i: "i = b + 32" "i < 64" and xi: "\<bar>sint (x ! i)\<bar> \<le> 2 ^ 22"
    and E: "128 \<le> E" "E \<le> 2 ^ 22" and low: "\<forall>l<16. \<bar>sint (x ! (b + l))\<bar> \<le> 2 ^ 22"
    and high: "\<forall>l<20. 16 \<le> l \<longrightarrow> \<bar>sint (x ! (b + l))\<bar> \<le> E" and n: "n \<le> 20"
  shows "row_state b x E n (fold (modL_digit i) [b..<b + n] (x, 0))"
  using n
proof (induction n)
  case 0
  then show ?case using len by (simp add: row_state_def carry_bound_def)
next
  case (Suc n)
  obtain y c where y: "fold (modL_digit i) [b..<b + n] (x, 0) = (y, c)" by force
  obtain y' c' where d: "modL_digit i (b + n) (y, c) = (y', c')" by force
  have st: "length y = 64" "\<And>k. k < b \<or> b + n \<le> k \<Longrightarrow> y ! k = x ! k"
    "\<And>k. b \<le> k \<Longrightarrow> k < b + n \<Longrightarrow> - 128 \<le> sint (y ! k) \<and> sint (y ! k) \<le> 127" "\<bar>sint c\<bar> \<le> carry_bound E n"
    "digits_int y + sint c * 256 ^ (b + n) = digits_int x - 16 * sint (x ! i) * (\<Sum>l<n. sint (L_bytes ! l) * 256 ^ (b + l))"
    using Suc y i by (auto simp: row_state_def)
  have n: "n < 20" using Suc.prems by simp
  have yn: "y ! (b + n) = x ! (b + n)" "y ! i = x ! i" using st(2) i n by simp_all
  have xb: "\<bar>sint (x ! (b + n))\<bar> \<le> (if n < 16 then 2 ^ 22 else E)"
    using low high n by simp
  then have xb': "\<bar>sint (x ! (b + n))\<bar> \<le> 2 ^ 22" using E by (simp split: if_splits)
  have cb: "\<bar>sint c\<bar> \<le> 2 ^ 27"
  proof -
    have "carry_bound E n \<le> 2 ^ 27"
    proof (cases "n \<le> 16")
      case False
      then have "n = 17 \<or> n = 18 \<or> n = 19" using n by linarith
      then show ?thesis using E by (elim disjE) (simp_all add: carry_bound_def)
    qed (simp add: carry_bound_def)
    then show ?thesis using st(4) by simp
  qed
  define v where "v = sint (x ! (b + n)) + sint c - 16 * sint (x ! i) * sint (L_bytes ! n)"
  have ib: "i - 32 + n = b + n" "32 \<le> i" using i by simp_all
  note D = modL_digit_correct [OF st(1) i(2) ib(2) n, unfolded ib(1) yn, OF xb' xi cb d v_def]
  obtain w where w: "y' = y[b + n := w]" "sint w = v - 256 * ((v + 128) div 256)" using D(2) by blast
  have c': "\<bar>sint c'\<bar> \<le> carry_bound E (Suc n)"
  proof (cases "n < 16")
    case True
    then show ?thesis
      using modL_carry_step_low [OF xb' cb xi, of "sint (L_bytes ! n)"] L_bytes_sint [of n] D(1)
      by (simp add: v_def carry_bound_def)
  next
    case False
    then have "v = sint (x ! (b + n)) + sint c" using L_bytes_0 [of n] n by (simp add: v_def)
    then show ?thesis using modL_carry_step [OF _ E(2) _ st(4), of "sint (x ! (b + n))"] False xb n D(1) E by simp
  qed
  have bn: "b + n < length y" using i n st(1) by simp
  have val: "digits_int y' = digits_int y + (sint w - sint (x ! (b + n))) * 256 ^ (b + n)"
    unfolding w(1) digits_int_update [OF bn] yn ..
  have "digits_int y' + sint c' * 256 ^ (b + Suc n) = digits_int y + (sint w - sint (x ! (b + n)) + 256 * sint c') * 256 ^ (b + n)"
    unfolding val by (simp add: algebra_simps)
  also have "\<dots> = digits_int y + (sint c - 16 * sint (x ! i) * sint (L_bytes ! n)) * 256 ^ (b + n)"
    unfolding w(2) D(1) v_def by simp
  also have "\<dots> = digits_int x - 16 * sint (x ! i) * (\<Sum>l<Suc n. sint (L_bytes ! l) * 256 ^ (b + l))"
    using st(5) by (simp add: algebra_simps)
  finally have "digits_int y' + sint c' * 256 ^ (b + Suc n) =
    digits_int x - 16 * sint (x ! i) * (\<Sum>l<Suc n. sint (L_bytes ! l) * 256 ^ (b + l))" .
  moreover have "- 128 \<le> sint w \<and> sint w \<le> 127" unfolding w(2) by presburger
  ultimately have "row_state b x E (Suc n) (y', c')"
    using st(1-3) bn c' i by (auto simp: row_state_def w(1) nth_list_update)
  then show ?case using y d by simp
qed


text \<open>What holds before the row of digit \<open>i\<close>: from the second row on the digits that are added to are
  normalised, and the ones behind them, up to digit 50, a carry away from it.\<close>

definition rows_inv :: "nat \<Rightarrow> u64 list \<Rightarrow> bool" where
  "rows_inv i x \<longleftrightarrow> length x = 64 \<and> (\<forall>k<64. \<bar>sint (x ! k)\<bar> \<le> (if i = 63 then 2 ^ 21 else 2 ^ 22)) \<and>
     (i < 63 \<longrightarrow> (\<forall>k. i < k + 32 \<and> k < 51 \<longrightarrow> \<bar>sint (x ! k)\<bar> \<le> (if k \<le> i - 12 then 128 else 130)))"

lemma digits_int_take: "n \<le> length xs \<Longrightarrow> digits_int (take n xs) = (\<Sum>l<n. sint (xs ! l) * 256 ^ l)"
  by (induction n) (simp_all add: take_Suc_conv_app_nth digits_int_append mult.commute)

lemma sum_L: "(\<Sum>l<20. sint (L_bytes ! l) * 256 ^ l) = L25519 - 2 ^ 252"
  using digits_int_take [of 20 L_bytes] by (simp add: L_bytes_def L25519_def)

lemma modL_row_correct:
  assumes inv: "rows_inv (b + 32) x" and b: "b < 32"
  shows "length (modL_row (b + 32) x) = 64"
    and "digits_int (modL_row (b + 32) x) = digits_int x - 16 * sint (x ! (b + 32)) * 256 ^ b * L25519"
    and "modL_row (b + 32) x ! (b + 32) = 0"
    and "k < 64 \<Longrightarrow> k \<noteq> b + 32 \<Longrightarrow> (if k < b then modL_row (b + 32) x ! k = x ! k
      else if k < b + 20 then \<bar>sint (modL_row (b + 32) x ! k)\<bar> \<le> 128
      else if k = b + 20 then \<bar>sint (modL_row (b + 32) x ! k)\<bar> \<le> (if k < 51 then 130 else 2 ^ 22)
      else modL_row (b + 32) x ! k = x ! k)"
proof -
  define E :: int where "E = (if b = 31 then 2 ^ 21 else 128)"
  have x: "length x = 64" "\<And>k. k < 64 \<Longrightarrow> \<bar>sint (x ! k)\<bar> \<le> 2 ^ 22"
    using inv by (fastforce simp: rows_inv_def split: if_splits)+
  have high: "\<bar>sint (x ! (b + l))\<bar> \<le> E" if "16 \<le> l" "l \<le> 20" for l
  proof (cases "b = 31")
    case False
    then have "b < 31" "b + l < 51" "b + l \<le> b + 20" "b < b + l" using b that by simp_all
    moreover have "\<forall>k. b < k \<and> k < 51 \<longrightarrow> \<bar>sint (x ! k)\<bar> \<le> (if k \<le> b + 20 then 128 else 130)"
      using inv \<open>b < 31\<close> by (simp add: rows_inv_def add.commute)
    ultimately show ?thesis by (auto simp: E_def dest: spec [of _ "b + l"])
  qed (use inv that in \<open>simp add: rows_inv_def E_def\<close>)
  have E: "128 \<le> E" "E \<le> 2 ^ 22" by (simp_all add: E_def)
  obtain y c where y: "fold (modL_digit (b + 32)) [b..<b + 20] (x, 0) = (y, c)" by force
  have st: "row_state b x E 20 (y, c)"
    unfolding y [symmetric] by (rule row_state_fold) (use x b E high in simp_all)
  have len: "length y = 64" and same: "\<And>k. k < b \<or> b + 20 \<le> k \<Longrightarrow> y ! k = x ! k"
    and norm: "\<And>k. b \<le> k \<Longrightarrow> k < b + 20 \<Longrightarrow> - 128 \<le> sint (y ! k) \<and> sint (y ! k) \<le> 127"
    and c: "\<bar>sint c\<bar> \<le> E div 128 + 1"
    and val: "digits_int y + sint c * 256 ^ (b + 20) = digits_int x - 16 * sint (x ! (b + 32)) * (\<Sum>l<20. sint (L_bytes ! l) * 256 ^ (b + l))"
    using st by (auto simp: row_state_def carry_bound_def)
  define z where "z = y[b + 20 := y ! (b + 20) + c]"
  have row: "modL_row (b + 32) x = z[b + 32 := 0]"
    by (simp add: modL_row_def y z_def add.commute)
  show "length (modL_row (b + 32) x) = 64" by (simp add: row z_def len)
  show "modL_row (b + 32) x ! (b + 32) = 0" using b by (simp add: row z_def len)
  have s: "sint (y ! (b + 20) + c) = sint (x ! (b + 20)) + sint c"
  proof -
    have "y ! (b + 20) = x ! (b + 20)" "\<bar>sint (x ! (b + 20))\<bar> \<le> 2 ^ 22" using x(2) [of "b + 20"] b same [of "b + 20"] by simp_all
    moreover have "\<bar>sint c\<bar> \<le> 2 ^ 22" using c E by linarith
    ultimately show ?thesis by (subst sint_add_fits, intro fits64_abs) simp_all
  qed
  have z: "digits_int z = digits_int y + sint c * 256 ^ (b + 20)"
    unfolding z_def using b len s same [of "b + 20"] by (simp add: digits_int_update)
  have "digits_int (modL_row (b + 32) x) = digits_int z - sint (x ! (b + 32)) * 256 ^ (b + 32)"
    unfolding row using b len same [of "b + 32"] by (simp add: digits_int_update z_def)
  also have "\<dots> = digits_int x - 16 * sint (x ! (b + 32)) * ((\<Sum>l<20. sint (L_bytes ! l) * 256 ^ (b + l)) + 2 ^ 252 * 256 ^ b)"
    unfolding z val by (simp add: power_add algebra_simps)
  also have "(\<Sum>l<20. sint (L_bytes ! l) * 256 ^ (b + l)) = 256 ^ b * (L25519 - 2 ^ 252)"
    unfolding sum_L [symmetric] sum_distrib_left by (simp add: power_add mult.left_commute)
  also have "256 ^ b * (L25519 - 2 ^ 252) + 2 ^ 252 * 256 ^ b = 256 ^ b * L25519" by (simp add: algebra_simps)
  finally show "digits_int (modL_row (b + 32) x) = digits_int x - 16 * sint (x ! (b + 32)) * 256 ^ b * L25519"
    by (simp only: mult.assoc)
  assume k: "k < 64" "k \<noteq> b + 32"
  have rk: "modL_row (b + 32) x ! k = (if k = b + 20 then y ! (b + 20) + c else y ! k)"
    using k b by (simp add: row z_def len)
  have x20: "\<bar>sint (x ! (b + 20)) + sint c\<bar> \<le> (if b + 20 < 51 then 130 else 2 ^ 22)"
    using c high [of 20] b by (cases "b = 31") (auto simp: E_def)
  show "(if k < b then modL_row (b + 32) x ! k = x ! k
      else if k < b + 20 then \<bar>sint (modL_row (b + 32) x ! k)\<bar> \<le> 128
      else if k = b + 20 then \<bar>sint (modL_row (b + 32) x ! k)\<bar> \<le> (if k < 51 then 130 else 2 ^ 22)
      else modL_row (b + 32) x ! k = x ! k)"
    using same [of k] norm [of k] s x20 unfolding rk by (auto simp: abs_le_iff)
qed


lemma modL_row_inv:
  assumes inv: "rows_inv (b + 32) x" and b: "b < 32"
  shows "rows_inv (b + 31) (modL_row (b + 32) x)"
proof -
  note r = modL_row_correct [OF inv b]
  have k: "\<bar>sint (modL_row (b + 32) x ! k)\<bar> \<le> 2 ^ 22" if "k < 64" for k
  proof (cases "k = b + 32")
    case False
    moreover have "\<bar>sint (x ! k)\<bar> \<le> 2 ^ 22" using inv that by (auto simp: rows_inv_def split: if_splits)
    ultimately show ?thesis using r(4) [OF that False] by (auto split: if_splits)
  qed (use r(3) in simp)
  have "\<bar>sint (modL_row (b + 32) x ! k)\<bar> \<le> (if k \<le> b + 31 - 12 then 128 else 130)" if "b + 31 < k + 32" "k < 51" for k
  proof (cases "k = b + 32")
    case False
    have "b + 20 < k \<Longrightarrow> b < 31 \<and> \<bar>sint (x ! k)\<bar> \<le> 130"
      using inv that by (auto simp: rows_inv_def split: if_splits)
    then show ?thesis using r(4) [of k] False that by (auto split: if_splits)
  qed (use r(3) in simp)
  then show ?thesis using r(1) k b by (auto simp: rows_inv_def)
qed

text \<open>After the last row the digits 0 to 31 are at most 130, the others 0.\<close>

lemma rows_correct:
  assumes "length x = 64" and "\<forall>k<64. \<bar>sint (x ! k)\<bar> \<le> 2 ^ 21"
  defines "y \<equiv> fold modL_row (rev [32..<64]) x"
  shows "length y = 64" and "\<forall>k<32. \<bar>sint (y ! k)\<bar> \<le> 130" and "\<forall>k<64. 32 \<le> k \<longrightarrow> y ! k = 0"
    and "digits_int y mod L25519 = digits_int x mod L25519"
proof -
  have "rows_inv (63 - n) z \<and> (\<forall>k<64. 63 - n < k \<longrightarrow> z ! k = 0) \<and> digits_int z mod L25519 = digits_int x mod L25519"
    if "n \<le> 32" "z = fold modL_row (rev [64 - n..<64]) x" for n z
    using that
  proof (induction n arbitrary: z)
    case 0
    then show ?case using assms by (simp add: rows_inv_def)
  next
    case (Suc n)
    define w where "w = fold modL_row (rev [64 - n..<64]) x"
    define b where "b = 31 - n"
    have b: "63 - n = b + 32" "b < 32" "63 - Suc n = b + 31" using Suc.prems by (simp_all add: b_def)
    have IH: "rows_inv (b + 32) w" "\<forall>k<64. b + 32 < k \<longrightarrow> w ! k = 0" "digits_int w mod L25519 = digits_int x mod L25519"
      using Suc.IH [OF _ w_def] Suc.prems b by simp_all
    have "64 - Suc n = 63 - n" "Suc (63 - n) = 64 - n" "63 - n < 64" using Suc.prems by simp_all
    then have "rev [64 - Suc n..<64] = rev [64 - n..<64] @ [63 - n]" by (simp only: upt_conv_Cons rev.simps)
    then have z: "z = modL_row (b + 32) w" using Suc.prems b by (simp add: w_def)
    note r = modL_row_correct [OF IH(1) b(2), folded z]
    have "digits_int z mod L25519 = (digits_int w + (- 16 * sint (w ! (b + 32)) * 256 ^ b) * L25519) mod L25519"
      using r(2) by simp
    also have "\<dots> = digits_int w mod L25519" by (rule mod_mult_self1)
    finally have val: "digits_int z mod L25519 = digits_int x mod L25519" using IH(3) by simp
    have "z ! k = 0" if "k < 64" "b + 31 < k" for k
      using r(3) r(4) [OF that(1)] IH(2) that by (cases "k = b + 32") auto
    then show ?case using val modL_row_inv [OF IH(1) b(2), folded z] unfolding b(3) by simp
  qed
  note all = this
  have "y = fold modL_row (rev [64 - 32..<64]) x" by (simp add: y_def)
  note y = all [OF _ this, simplified]
  have "\<bar>sint (y ! k)\<bar> \<le> 130" if "k < 32" for k
  proof -
    have "\<bar>sint (y ! k)\<bar> \<le> (if k \<le> 19 then 128 else 130)" using y that by (simp add: rows_inv_def)
    then show ?thesis by (simp split: if_splits)
  qed
  then show "length y = 64" "\<forall>k<32. \<bar>sint (y ! k)\<bar> \<le> 130" "\<forall>k<64. 32 \<le> k \<longrightarrow> y ! k = 0"
    "digits_int y mod L25519 = digits_int x mod L25519"
    using y by (simp_all add: rows_inv_def)
qed

section \<open>The last subtraction\<close>

text \<open>The loop of the multiple \<open>x[31] >> 4\<close>: the digits become bytes, the carry is what is above them.\<close>

lemma modL_sub_step:
  assumes len: "length x = 64" "j < 32" and xj: "\<bar>sint (x ! j)\<bar> \<le> 130" and x31: "\<bar>sint (x ! 31)\<bar> \<le> 130" and c: "\<bar>sint c\<bar> \<le> 2 ^ 20"
    and r: "modL_sub j (x, c) = (x', c')"
    and v: "v = sint (x ! j) + sint c - sint (x ! 31) div 16 * sint (L_bytes ! j)"
  shows "sint c' = v div 256" and "\<exists>w. x' = x[j := w] \<and> sint w = v mod 256" and "\<bar>sint c'\<bar> \<le> 2 ^ 20"
proof -
  have Lb: "\<bar>sint (L_bytes ! j)\<bar> \<le> 255" using L_bytes_sint [of j] len by simp
  have q: "\<bar>sint (x ! 31) div 16\<bar> \<le> 9" using x31 by linarith
  have p: "\<bar>sint (x ! 31) div 16 * sint (L_bytes ! j)\<bar> \<le> 9 * 255"
    unfolding abs_mult by (rule mult_mono) (use q Lb in simp_all)
  define w where "w = x ! j + (c - signed_drop_bit 4 (x ! 31) * L_bytes ! j)"
  have s1: "sint (signed_drop_bit 4 (x ! 31) * L_bytes ! j) = sint (x ! 31) div 16 * sint (L_bytes ! j)"
    by (subst sint_mult_fits, rule fits64_abs) (use p in \<open>simp_all add: sint_asr\<close>)
  have s2: "sint (c - signed_drop_bit 4 (x ! 31) * L_bytes ! j) = sint c - sint (x ! 31) div 16 * sint (L_bytes ! j)"
    by (subst sint_sub_fits, rule fits64_abs) (use p c in \<open>simp_all add: s1\<close>)
  have w: "sint w = v"
    unfolding w_def by (subst sint_add_fits, rule fits64_abs) (use p c xj in \<open>simp_all add: s2 v\<close>)
  have "x' = x[j := w AND 255]" "c' = signed_drop_bit 8 w"
    using r len by (auto simp: modL_sub_def Let_def w_def)
  then show "sint c' = v div 256" "\<exists>w. x' = x[j := w] \<and> sint w = v mod 256"
    using w sint_low8 [of w] by (auto simp: sint_asr)
  have "\<bar>v\<bar> \<le> 2 ^ 21" using p c xj by (simp add: v)
  then show "\<bar>sint c'\<bar> \<le> 2 ^ 20" unfolding \<open>sint c' = v div 256\<close> by simp
qed

definition sub_state :: "u64 list \<Rightarrow> nat \<Rightarrow> u64 list \<times> u64 \<Rightarrow> bool" where
  "sub_state x n = (\<lambda>(y, c). length y = 64 \<and> (\<forall>k. n \<le> k \<longrightarrow> y ! k = x ! k) \<and>
     (\<forall>k<n. 0 \<le> sint (y ! k) \<and> sint (y ! k) < 256) \<and> \<bar>sint c\<bar> \<le> 2 ^ 20 \<and>
     digits_int y + sint c * 256 ^ n = digits_int x - sint (x ! 31) div 16 * (\<Sum>l<n. sint (L_bytes ! l) * 256 ^ l))"

lemma modL_sub_fold:
  assumes len: "length x = 64" and xb: "\<forall>k<32. \<bar>sint (x ! k)\<bar> \<le> 130" and n: "n \<le> 32"
  shows "sub_state x n (fold modL_sub [0..<n] (x, 0))"
  using n
proof (induction n)
  case (Suc n)
  obtain z d where z: "fold modL_sub [0..<n] (x, 0) = (z, d)" by force
  obtain y c where y: "modL_sub n (z, d) = (y, c)" by force
  have n: "n < 32" using Suc.prems by simp
  have IH: "length z = 64" "\<And>k. n \<le> k \<Longrightarrow> z ! k = x ! k" "\<And>k. k < n \<Longrightarrow> 0 \<le> sint (z ! k) \<and> sint (z ! k) < 256"
    "\<bar>sint d\<bar> \<le> 2 ^ 20"
    "digits_int z + sint d * 256 ^ n = digits_int x - sint (x ! 31) div 16 * (\<Sum>l<n. sint (L_bytes ! l) * 256 ^ l)"
    using Suc n by (auto simp: sub_state_def z)
  have zn: "z ! n = x ! n" "z ! 31 = x ! 31" using IH(2) n by simp_all
  define v where "v = sint (x ! n) + sint d - sint (x ! 31) div 16 * sint (L_bytes ! n)"
  have xn: "\<bar>sint (x ! n)\<bar> \<le> 130" "\<bar>sint (x ! 31)\<bar> \<le> 130" using xb n by simp_all
  note D = modL_sub_step [OF IH(1) n, unfolded zn, OF xn IH(4) y v_def]
  obtain w where w: "y = z[n := w]" "sint w = v mod 256" using D(2) by blast
  have v: "sint w + 256 * sint c = v" unfolding w(2) D(1) by simp
  have "digits_int y + sint c * 256 ^ Suc n = digits_int z + (sint w + 256 * sint c - sint (x ! n)) * 256 ^ n"
    using n IH(1) by (simp add: w(1) digits_int_update zn algebra_simps)
  also have "\<dots> = digits_int z + sint d * 256 ^ n - sint (x ! 31) div 16 * (sint (L_bytes ! n) * 256 ^ n)"
    unfolding v v_def by (simp add: algebra_simps)
  finally have "digits_int y + sint c * 256 ^ Suc n =
      digits_int x - sint (x ! 31) div 16 * (\<Sum>l<Suc n. sint (L_bytes ! l) * 256 ^ l)"
    using IH(5) by (simp add: algebra_simps)
  then have "sub_state x (Suc n) (y, c)"
    using IH(1-3) w(2) n D(3) by (auto simp: sub_state_def w(1) nth_list_update less_Suc_eq)
  then show ?case by (simp add: z y)
qed (simp add: len sub_state_def)

lemma digits_int_bounds: "\<forall>x\<in>set xs. 0 \<le> sint x \<and> sint x < 256 \<Longrightarrow> 0 \<le> digits_int xs \<and> digits_int xs < 256 ^ length xs"
proof (induction xs)
  case (Cons x xs)
  then have "0 \<le> digits_int xs" "digits_int xs < 256 ^ length xs" "0 \<le> sint x" "sint x < 256" by simp_all
  then show ?case by simp
qed simp

lemma digits_int_abs: "\<forall>x\<in>set xs. \<bar>sint x\<bar> \<le> 130 \<Longrightarrow> 255 * \<bar>digits_int xs\<bar> \<le> 130 * (256 ^ length xs - 1)"
proof (induction xs)
  case (Cons x xs)
  then have "255 * \<bar>digits_int xs\<bar> \<le> 130 * (256 ^ length xs - 1)" "\<bar>sint x\<bar> \<le> 130" by simp_all
  moreover have "\<bar>digits_int (x # xs)\<bar> \<le> \<bar>sint x\<bar> + 256 * \<bar>digits_int xs\<bar>" by simp
  ultimately have "255 * \<bar>digits_int (x # xs)\<bar> \<le> 255 * 130 + 256 * (130 * (256 ^ length xs - 1))" by linarith
  then show ?case by simp
qed simp

text \<open>So the carry is -1 if the value without the multiple of L is negative, and 0 otherwise, and adding L
  back in the first case leaves a value below L.\<close>

lemma sub_carry:
  assumes len: "length x = 64" and xb: "\<forall>k<32. \<bar>sint (x ! k)\<bar> \<le> 130" and top: "\<forall>k<64. 32 \<le> k \<longrightarrow> x ! k = 0"
    and r: "fold modL_sub [0..<32] (x, 0) = (y, c)"
  defines "V \<equiv> digits_int x - sint (x ! 31) div 16 * L25519"
  shows "sint c = (if V < 0 then - 1 else 0)" and "0 \<le> V - sint c * L25519" and "V - sint c * L25519 < L25519"
    and "digits_int y = V - sint c * 2 ^ 256"
proof -
  have st: "sub_state x 32 (y, c)" using modL_sub_fold [OF len xb, of 32] r by simp
  have leny: "length y = 64" and same: "\<And>k. 32 \<le> k \<Longrightarrow> y ! k = x ! k" and ybyte: "\<And>k. k < 32 \<Longrightarrow> 0 \<le> sint (y ! k) \<and> sint (y ! k) < 256"
    and val: "digits_int y + sint c * 256 ^ 32 = digits_int x - sint (x ! 31) div 16 * (\<Sum>l<32. sint (L_bytes ! l) * 256 ^ l)"
    using st by (auto simp: sub_state_def)
  have "(\<Sum>l<32. sint (L_bytes ! l) * 256 ^ l) = L25519"
    using digits_int_take [of 32 L_bytes] digits_int_L by (simp add: L_bytes_def)
  then show yv: "digits_int y = V - sint c * 2 ^ 256" using val by (simp add: V_def)
  have zeros: "digits_int (drop 32 z) = 0" if "length z = 64" "\<And>k. 32 \<le> k \<Longrightarrow> k < 64 \<Longrightarrow> z ! k = 0" for z
  proof -
    have "drop 32 z = replicate 32 0" by (rule nth_equalityI) (use that in simp_all)
    moreover have "digits_int (replicate m 0) = 0" for m by (induction m) simp_all
    ultimately show ?thesis by simp
  qed
  have split: "digits_int z = digits_int (take 32 z)" if "length z = 64" "\<And>k. 32 \<le> k \<Longrightarrow> k < 64 \<Longrightarrow> z ! k = 0" for z
    using digits_int_append [of "take 32 z" "drop 32 z"] zeros [OF that] by simp
  have y32: "digits_int y = digits_int (take 32 y)" using leny same top by (intro split) simp_all
  have "\<forall>w\<in>set (take 32 y). 0 \<le> sint w \<and> sint w < 256" using ybyte leny by (auto simp: in_set_conv_nth)
  from digits_int_bounds [OF this] have yb: "0 \<le> digits_int y" "digits_int y < 2 ^ 256" using y32 leny by simp_all
  have x32: "digits_int x = digits_int (take 31 x) + 2 ^ 248 * sint (x ! 31)"
  proof -
    have "take 32 x = take 31 x @ [x ! 31]" using len take_Suc_conv_app_nth [of 31 x] by simp
    then show ?thesis using split [OF len] top len by (simp add: digits_int_append)
  qed
  have "\<forall>w\<in>set (take 31 x). \<bar>sint w\<bar> \<le> 130" using xb len by (auto simp: in_set_conv_nth)
  from digits_int_abs [OF this] have low: "255 * \<bar>digits_int (take 31 x)\<bar> \<le> 130 * (2 ^ 248 - 1)" using len by simp
  define q where "q = sint (x ! 31) div 16"
  define rho where "rho = sint (x ! 31) mod 16"
  have "\<bar>sint (x ! 31)\<bar> \<le> 130" using xb by simp
  then have q: "- 9 \<le> q" "q \<le> 8" "sint (x ! 31) = 16 * q + rho" "0 \<le> rho" "rho \<le> 15"
    unfolding q_def rho_def by presburger+
  have V: "V = digits_int (take 31 x) + 2 ^ 248 * rho - q * (L25519 - 2 ^ 252)"
    unfolding V_def q_def [symmetric] unfolding x32 unfolding q(3) by (simp add: algebra_simps)
  have "- 9 * (L25519 - 2 ^ 252) \<le> q * (L25519 - 2 ^ 252)" "q * (L25519 - 2 ^ 252) \<le> 8 * (L25519 - 2 ^ 252)"
    using q(1,2) by (intro mult_right_mono; simp add: L25519_def)+
  then have Vb: "- (2 ^ 248) < V" "V < 2 ^ 252" unfolding V using low q(4,5) by (simp_all add: L25519_def)
  have "sint c * 2 ^ 256 = V - digits_int y" using yv by simp
  then have c: "sint c = (if V < 0 then - 1 else 0)"
    using yb Vb by (simp split: if_splits)
  then show "sint c = (if V < 0 then - 1 else 0)" .
  show "0 \<le> V - sint c * L25519" "V - sint c * L25519 < L25519"
    using Vb unfolding c by (auto simp: L25519_def)
qed


section \<open>The result\<close>

text \<open>The loop that adds L back, and the loop that writes the bytes.\<close>

lemma add_L_fold:
  assumes "length y = 64" and "n \<le> 32" and "\<forall>k<32. \<bar>sint (y ! k)\<bar> \<le> 255" and "sint c = 0 \<or> sint c = - 1"
  defines "z \<equiv> fold (\<lambda>j x. x[j := x ! j - c * L_bytes ! j]) [0..<n] y"
  shows "length z = 64 \<and> (\<forall>k. n \<le> k \<longrightarrow> z ! k = y ! k) \<and> (\<forall>k<n. \<bar>sint (z ! k)\<bar> \<le> 510) \<and>
    digits_int z = digits_int y - sint c * (\<Sum>l<n. sint (L_bytes ! l) * 256 ^ l)"
  using assms(2) unfolding z_def
proof (induction n)
  case 0
  then show ?case using assms by simp
next
  case (Suc n)
  define x where "x = fold (\<lambda>j x. x[j := x ! j - c * L_bytes ! j]) [0..<n] y"
  have IH: "length x = 64" "\<And>k. n \<le> k \<Longrightarrow> x ! k = y ! k" "\<And>k. k < n \<Longrightarrow> \<bar>sint (x ! k)\<bar> \<le> 510"
    "digits_int x = digits_int y - sint c * (\<Sum>l<n. sint (L_bytes ! l) * 256 ^ l)"
    using Suc by (simp_all add: x_def)
  have n: "n < 32" using Suc.prems by simp
  have m: "sint (c * L_bytes ! n) = sint c * sint (L_bytes ! n)"
    using assms(4) L_bytes_sint [OF n] by (subst sint_mult_fits, intro fits64_abs) auto
  have yn: "\<bar>sint (y ! n)\<bar> \<le> 255" "\<bar>sint c * sint (L_bytes ! n)\<bar> \<le> 255" using assms(3,4) n L_bytes_sint [OF n] by auto
  have w: "sint (x ! n - c * L_bytes ! n) = sint (y ! n) - sint c * sint (L_bytes ! n)"
    using yn IH(2) [of n] by (subst sint_sub_fits, intro fits64_abs) (simp_all add: m)
  have "digits_int (x[n := x ! n - c * L_bytes ! n]) = digits_int x - sint c * sint (L_bytes ! n) * 256 ^ n"
    using n IH(1) IH(2) [of n] w by (simp add: digits_int_update)
  also have "\<dots> = digits_int y - sint c * (\<Sum>l<Suc n. sint (L_bytes ! l) * 256 ^ l)"
    unfolding IH(4) by (simp add: algebra_simps)
  finally show ?case
    using IH(1-3) n yn w by (auto simp: x_def [symmetric] nth_list_update less_Suc_eq)
qed

lemma out_fold:
  assumes "length z = 64" and "\<forall>k<33. \<bar>sint (z ! k)\<bar> \<le> 510" and "32 \<le> length r" and "n \<le> 32"
    and "fold modL_out [0..<n] (z, r) = (x, s)"
  shows "length x = 64 \<and> length s = length r \<and> (\<forall>k. n < k \<longrightarrow> x ! k = z ! k) \<and> (\<forall>k. n \<le> k \<longrightarrow> s ! k = r ! k) \<and>
    \<bar>sint (x ! n)\<bar> \<le> 520 \<and> int (le_nat (take n s)) + sint (x ! n) * 256 ^ n = digits_int (take (Suc n) z)"
  using assms(4,5)
proof (induction n arbitrary: x s)
  case 0
  then show ?case using assms(1,2) by (auto simp: take_Suc_conv_app_nth dest: spec [of _ 0])
next
  case (Suc n)
  obtain y t where y: "fold modL_out [0..<n] (z, r) = (y, t)" by force
  have n: "n < 32" using Suc.prems by simp
  have IH: "length y = 64" "length t = length r" "\<And>k. n < k \<Longrightarrow> y ! k = z ! k" "\<And>k. n \<le> k \<Longrightarrow> t ! k = r ! k"
    "\<bar>sint (y ! n)\<bar> \<le> 520" "int (le_nat (take n t)) + sint (y ! n) * 256 ^ n = digits_int (take (Suc n) z)"
    using Suc.IH [OF _ y] n by simp_all
  have x: "x = y[n + 1 := y ! (n + 1) + signed_drop_bit 8 (y ! n)]" and s: "s = t[n := ucast (y ! n AND 255)]"
  proof -
    have "modL_out n (y, t) = (x, s)" using Suc.prems(2) by (simp add: y)
    then show "x = y[n + 1 := y ! (n + 1) + signed_drop_bit 8 (y ! n)]" "s = t[n := ucast (y ! n AND 255)]"
      using n IH(1) by (auto simp: modL_out_def Let_def)
  qed
  have zn: "\<bar>sint (z ! Suc n)\<bar> \<le> 510" using assms(2) n by simp
  have q: "\<bar>sint (y ! n) div 256\<bar> \<le> 3" using IH(5) by linarith
  have w: "sint (y ! (n + 1) + signed_drop_bit 8 (y ! n)) = sint (z ! Suc n) + sint (y ! n) div 256"
    using zn q IH(3) [of "Suc n"] by (subst sint_add_fits, intro fits64_abs) (simp_all add: sint_asr)
  have b: "int (unat (ucast (y ! n AND 255) :: u8)) = sint (y ! n) mod 256"
    unfolding sint_mod256 by (simp add: unat_ucast_low8)
  have "take (Suc n) s = take n t @ [ucast (y ! n AND 255)]"
    using n IH(2) assms(3) by (simp add: s take_Suc_conv_app_nth)
  then have "int (le_nat (take (Suc n) s)) = int (le_nat (take n t)) + 256 ^ n * (sint (y ! n) mod 256)"
    using n IH(2) assms(3) b by (simp add: le_nat_append power_mult)
  moreover have "digits_int (take (Suc (Suc n)) z) = digits_int (take (Suc n) z) + 256 ^ Suc n * sint (z ! Suc n)"
    using n assms(1) by (simp add: take_Suc_conv_app_nth [of "Suc n" z] digits_int_append)
  moreover have "sint (x ! Suc n) = sint (z ! Suc n) + sint (y ! n) div 256" using w n IH(1) by (simp add: x)
  moreover have "m * p + 256 * (d * p) = e * p" if "e = m + 256 * d" for m d e p :: int
    using that by (simp add: algebra_simps)
  from this [of "sint (y ! n)" "sint (y ! n) mod 256" "sint (y ! n) div 256" "256 ^ n"]
  have "sint (y ! n) mod 256 * 256 ^ n + 256 * (sint (y ! n) div 256 * 256 ^ n) = sint (y ! n) * 256 ^ n" by simp
  ultimately have "int (le_nat (take (Suc n) s)) + sint (x ! Suc n) * 256 ^ Suc n = digits_int (take (Suc (Suc n)) z)"
    using IH(6) by (simp add: distrib_left distrib_right mult_ac)
  then show ?case using IH(1-4) n w zn q by (auto simp: x s)
qed

theorem modL_correct:
  assumes "length x = 64" and "\<forall>k<64. \<bar>sint (x ! k)\<bar> \<le> 2 ^ 21" and "32 \<le> length r"
  shows "take 32 (modL r x) = le_bytes 32 (nat (digits_int x mod L25519))" and "length (modL r x) = length r"
    and "drop 32 (modL r x) = drop 32 r"
proof -
  define y where "y = fold modL_row (rev [32..<64]) x"
  note Y = rows_correct [OF assms(1,2), folded y_def]
  obtain z c where z: "fold modL_sub [0..<32] (y, 0) = (z, c)" by force
  define V where "V = digits_int y - sint (y ! 31) div 16 * L25519"
  note S = sub_carry [OF Y(1-3) z, folded V_def]
  have Z: "length z = 64" "\<And>k. 32 \<le> k \<Longrightarrow> z ! k = y ! k" "\<forall>k<32. \<bar>sint (z ! k)\<bar> \<le> 255"
    using modL_sub_fold [OF Y(1,2), of 32] z by (auto simp: sub_state_def)
  define w where "w = fold (\<lambda>j x. x[j := x ! j - c * L_bytes ! j]) [0..<32] z"
  have c: "sint c = 0 \<or> sint c = - 1" using S(1) by simp
  have "digits_int L_bytes = (\<Sum>l<32. sint (L_bytes ! l) * 256 ^ l)"
    using digits_int_take [of 32 L_bytes] by (simp add: L_bytes_def)
  then have W: "length w = 64" "\<And>k. 32 \<le> k \<Longrightarrow> w ! k = z ! k" "\<And>k. k < 32 \<Longrightarrow> \<bar>sint (w ! k)\<bar> \<le> 510"
    "digits_int w = V - sint c * L25519 - sint c * 2 ^ 256"
    using add_L_fold [OF Z(1) _ Z(3) c, of 32, folded w_def] S(4) by (simp_all add: digits_int_L)
  have w32: "w ! 32 = 0" using W(2) [of 32] Z(2) [of 32] Y(3) by simp
  have w33: "\<forall>k<33. \<bar>sint (w ! k)\<bar> \<le> 510"
  proof (intro allI impI)
    fix k :: nat assume "k < 33"
    then show "\<bar>sint (w ! k)\<bar> \<le> 510" using W(3) [of k] w32 by (cases "k = 32") simp_all
  qed
  obtain u s where u: "fold modL_out [0..<32] (w, r) = (u, s)" by force
  note O = out_fold [OF W(1) w33 assms(3) order_refl u]
  have out: "modL r x = s" by (simp only: modL_def y_def [symmetric] Let_def z prod.case w_def [symmetric] u)
  show "length (modL r x) = length r" using O out by simp
  show "drop 32 (modL r x) = drop 32 r" using O out by (intro nth_equalityI) simp_all
  define R where "R = V - sint c * L25519"
  have R: "0 \<le> R" "R < L25519" using S(2,3) by (simp_all add: R_def)
  have "drop 33 w = replicate 31 0" by (rule nth_equalityI) (use W(1,2) Z(2) Y(3) in simp_all)
  moreover have "digits_int (replicate m 0) = 0" for m by (induction m) simp_all
  moreover have "digits_int w = digits_int (take 33 w) + 256 ^ length (take 33 w) * digits_int (drop 33 w)"
    using digits_int_append [of "take 33 w" "drop 33 w"] by (simp only: append_take_drop_id)
  ultimately have "digits_int w = digits_int (take 33 w)" by simp
  then have eq: "int (le_nat (take 32 s)) + (sint (u ! 32) + sint c) * 2 ^ 256 = R"
    using O W(4) by (simp add: R_def algebra_simps)
  have "int (le_nat (take 32 s)) < 2 ^ 256" using le_nat_lt [of "take 32 s"] O assms(3) by (simp flip: of_nat_power)
  moreover have "L25519 < 2 ^ 256" by (simp add: L25519_def)
  ultimately have le: "int (le_nat (take 32 s)) = R"
  proof -
    define m where "m = sint (u ! 32) + sint c"
    have "m * 2 ^ 256 = R - int (le_nat (take 32 s))" using eq by (simp add: m_def)
    moreover have "- (2 ^ 256) < R - int (le_nat (take 32 s))" "R - int (le_nat (take 32 s)) < 2 ^ 256"
      using R \<open>int (le_nat (take 32 s)) < 2 ^ 256\<close> \<open>L25519 < 2 ^ 256\<close> by linarith+
    ultimately have "- 1 < m" "m < 1" by simp_all
    then show ?thesis using eq by (simp add: m_def)
  qed
  have "digits_int x mod L25519 = V mod L25519"
    unfolding Y(4) [symmetric] V_def using mod_mult_self1 [of "digits_int y" "- (sint (y ! 31) div 16)" L25519] by simp
  also have "\<dots> = R mod L25519"
    unfolding R_def using mod_mult_self1 [of V "- sint c" L25519] by simp
  also have "\<dots> = R" using R by simp
  finally have "le_nat (take 32 s) = nat (digits_int x mod L25519)" using le by simp
  then show "take 32 (modL r x) = le_bytes 32 (nat (digits_int x mod L25519))"
    using le_bytes_le_nat [of "take 32 s"] O assms(3) by (simp add: out)
qed


section \<open>The functions\<close>

lemma sint_small: "k < 2 ^ 62 \<Longrightarrow> sint (word_of_nat k :: u64) = int k"
  using sint_of_int [of "int k"] by (simp add: fits64_abs flip: of_nat_power)

lemma uint_byte: "0 \<le> uint (x :: u8)" "uint (x :: u8) \<le> 255"
  using uint_bounded [of x] by simp_all

lemma sint_byte: "sint (ucast (b :: u8) :: u64) = uint b"
proof -
  have "sint (word_of_int (uint b) :: u64) = uint b"
    using uint_byte [of b] by (intro sint_of_int fits64_abs) simp
  then show ?thesis by (simp only: ucast_eq)
qed

lemma digits_int_bytes: "digits_int (map (\<lambda>b. ucast (b :: u8)) bs) = int (le_nat bs)"
  by (induction bs) (simp_all add: sint_byte)

lemma sc25519_reduce_eq:
  assumes "length s = 64"
  shows "sc25519_reduce s = le_bytes 32 (le_nat s mod nat L25519) @ replicate 32 0"
proof -
  let ?x = "map (\<lambda>b. ucast (b :: u8) :: u64) s"
  have x: "map (\<lambda>i. ucast (s ! i) :: u64) [0..<64] = ?x"
    using assms by (intro nth_equalityI) simp_all
  have b: "\<forall>k<64. \<bar>sint (?x ! k)\<bar> \<le> 2 ^ 21"
  proof (intro allI impI)
    fix k :: nat assume "k < 64"
    then show "\<bar>sint (?x ! k)\<bar> \<le> 2 ^ 21" using assms uint_byte [of "s ! k"] by (simp add: sint_byte)
  qed
  note m = modL_correct [OF _ b, of "replicate 64 0"]
  have "nat (int (le_nat s) mod L25519) = le_nat s mod nat L25519"
    by (simp add: nat_mod_distrib L25519_def)
  then have "take 32 (sc25519_reduce s) = le_bytes 32 (le_nat s mod nat L25519)"
    using m(1) assms by (simp add: sc25519_reduce_def x digits_int_bytes)
  moreover have "drop 32 (sc25519_reduce s) = replicate 32 0" using m(3) assms by (simp add: sc25519_reduce_def x)
  ultimately show ?thesis by (metis append_take_drop_id)
qed

lemma fold_product: "fold f (List.product xs ys) t = fold (\<lambda>x t. fold (\<lambda>y. f (x, y)) ys t) xs t"
  by (induction xs arbitrary: t) (simp_all add: fold_map comp_def)

lemma product_row:
  fixes a b :: bytes and B :: int
  assumes "length t = 64" and "i < 32" and "n \<le> 32" and "\<forall>k<64. 0 \<le> sint (t ! k) \<and> sint (t ! k) \<le> B" and "B \<le> 2 ^ 22"
  defines "t' \<equiv> fold (\<lambda>j t. t[i + j := t ! (i + j) + ucast (a ! i) * ucast (b ! j)]) [0..<n] t"
  shows "length t' = 64 \<and> (\<forall>k<64. 0 \<le> sint (t' ! k) \<and> sint (t' ! k) \<le> (if k < i + n then B + 65025 else B)) \<and>
    digits_int t' = digits_int t + uint (a ! i) * 256 ^ i * (\<Sum>j<n. uint ((b ! j) :: u8) * 256 ^ j)"
  using assms(3) unfolding t'_def
proof (induction n)
  case 0
  then show ?case using assms by fastforce
next
  case (Suc n)
  define x where "x = fold (\<lambda>j t. t[i + j := t ! (i + j) + ucast (a ! i) * ucast (b ! j)]) [0..<n] t"
  have IH: "length x = 64" "\<And>k. k < 64 \<Longrightarrow> 0 \<le> sint (x ! k) \<and> sint (x ! k) \<le> (if k < i + n then B + 65025 else B)"
    "digits_int x = digits_int t + uint (a ! i) * 256 ^ i * (\<Sum>j<n. uint (b ! j) * 256 ^ j)"
    using Suc by (auto simp: x_def)
  have in64: "i + n < 64" using assms Suc by simp
  have p: "0 \<le> uint (a ! i) * uint (b ! n)" "uint (a ! i) * uint (b ! n) \<le> 255 * 255"
    using uint_byte [of "a ! i"] uint_byte [of "b ! n"] by (simp, intro mult_mono) simp_all
  have m: "sint (ucast (a ! i) * ucast (b ! n) :: u64) = uint (a ! i) * uint (b ! n)"
    by (subst sint_mult_fits, intro fits64_abs) (use p in \<open>simp_all only: sint_byte, simp_all\<close>)
  define w where "w = x ! (i + n) + ucast (a ! i) * ucast (b ! n)"
  have w: "sint w = sint (x ! (i + n)) + uint (a ! i) * uint (b ! n)"
    unfolding w_def by (subst sint_add_fits, intro fits64_abs) (use p IH(2) [OF in64] assms(5) in \<open>simp_all only: m, simp_all\<close>)
  have f: "fold (\<lambda>j t. t[i + j := t ! (i + j) + ucast (a ! i) * ucast (b ! j)]) [0..<Suc n] t = x[i + n := w]"
    by (simp add: x_def w_def)
  have "digits_int (x[i + n := w]) = digits_int x + uint (a ! i) * uint (b ! n) * 256 ^ (i + n)"
    using in64 IH(1) w by (simp add: digits_int_update)
  also have "\<dots> = digits_int t + uint (a ! i) * 256 ^ i * (\<Sum>j<Suc n. uint (b ! j) * 256 ^ j)"
    unfolding IH(3) by (simp add: power_add algebra_simps)
  finally have val: "digits_int (x[i + n := w]) = digits_int t + uint (a ! i) * 256 ^ i * (\<Sum>j<Suc n. uint (b ! j) * 256 ^ j)" .
  have "0 \<le> sint (x[i + n := w] ! k) \<and> sint (x[i + n := w] ! k) \<le> (if k < i + Suc n then B + 65025 else B)" if "k < 64" for k
  proof (cases "k = i + n")
    case True
    then show ?thesis using IH(1) IH(2) [OF in64] in64 p w by simp
  next
    case False
    then show ?thesis using IH(2) [OF that] by (simp split: if_splits)
  qed
  then show ?case unfolding f using IH(1) val by simp
qed

lemma le_nat_sum: "n \<le> length bs \<Longrightarrow> (\<Sum>j<n. uint (bs ! j) * 256 ^ j) = int (le_nat (take n bs))"
proof (induction n)
  case (Suc n)
  have "(2 :: nat) ^ (8 * n) = 256 ^ n" by (simp add: power_mult)
  then show ?case using Suc by (simp add: take_Suc_conv_app_nth le_nat_append mult.commute)
qed simp

lemma product_rows:
  fixes a b :: bytes
  assumes "n \<le> 32" and "32 \<le> length b"
  defines "t' \<equiv> fold (\<lambda>i t. fold (\<lambda>j t. t[i + j := t ! (i + j) + ucast (a ! i) * ucast (b ! j)]) [0..<32] t) [0..<n] (replicate 64 (0 :: u64))"
  shows "length t' = 64 \<and> (\<forall>k<64. 0 \<le> sint (t' ! k) \<and> sint (t' ! k) \<le> int n * 65025) \<and>
    digits_int t' = (\<Sum>i<n. uint ((a ! i) :: u8) * 256 ^ i) * int (le_nat (take 32 b))"
  using assms(1) unfolding t'_def
proof (induction n)
  case 0
  have "digits_int (replicate m 0) = 0" for m by (induction m) simp_all
  then show ?case by simp
next
  case (Suc n)
  define x where "x = fold (\<lambda>i t. fold (\<lambda>j t. t[i + j := t ! (i + j) + ucast (a ! i) * ucast (b ! j)]) [0..<32] t) [0..<n] (replicate 64 (0 :: u64))"
  have IH: "length x = 64" "\<forall>k<64. 0 \<le> sint (x ! k) \<and> sint (x ! k) \<le> int n * 65025"
    "digits_int x = (\<Sum>i<n. uint (a ! i) * 256 ^ i) * int (le_nat (take 32 b))"
    using Suc by (auto simp: x_def)
  have n: "n < 32" "int n * 65025 \<le> 2 ^ 22" using Suc.prems by simp_all
  note r = product_row [OF IH(1) n(1) order_refl IH(2) n(2), of a b]
  define y where "y = fold (\<lambda>j t. t[n + j := t ! (n + j) + ucast (a ! n) * ucast (b ! j)]) [0..<32] x"
  have y: "length y = 64" "\<And>k. k < 64 \<Longrightarrow> 0 \<le> sint (y ! k) \<and> sint (y ! k) \<le> (if k < n + 32 then int n * 65025 + 65025 else int n * 65025)"
    "digits_int y = digits_int x + uint (a ! n) * 256 ^ n * int (le_nat (take 32 b))"
    using r le_nat_sum [of 32 b] assms(2) by (simp_all add: y_def del: upt_rec_numeral)
  have "\<forall>k<64. 0 \<le> sint (y ! k) \<and> sint (y ! k) \<le> int (Suc n) * 65025"
  proof (intro allI impI)
    fix k :: nat assume "k < 64"
    from y(2) [OF this] show "0 \<le> sint (y ! k) \<and> sint (y ! k) \<le> int (Suc n) * 65025"
      by (simp add: distrib_right split: if_splits)
  qed
  moreover have "digits_int y = (\<Sum>i<Suc n. uint (a ! i) * 256 ^ i) * int (le_nat (take 32 b))"
    unfolding y(3) IH(3) by (simp add: distrib_right)
  ultimately show ?case using y(1) by (simp add: x_def [symmetric] y_def [symmetric] del: upt_rec_numeral of_nat_Suc sum.lessThan_Suc)
qed

lemma add_bytes_fold:
  fixes c :: bytes and B :: int
  assumes "length t = 64" and "n \<le> 32" and "\<forall>k<64. 0 \<le> sint (t ! k) \<and> sint (t ! k) \<le> B" and "B \<le> 2 ^ 22"
  defines "t' \<equiv> fold (\<lambda>i t. t[i := t ! i + ucast (c ! i)]) [0..<n] t"
  shows "length t' = 64 \<and> (\<forall>k. n \<le> k \<longrightarrow> t' ! k = t ! k) \<and> (\<forall>k<64. 0 \<le> sint (t' ! k) \<and> sint (t' ! k) \<le> B + 255) \<and>
    digits_int t' = digits_int t + (\<Sum>i<n. uint ((c ! i) :: u8) * 256 ^ i)"
  using assms(2) unfolding t'_def
proof (induction n)
  case 0
  then show ?case using assms by auto
next
  case (Suc n)
  define x where "x = fold (\<lambda>i t. t[i := t ! i + ucast (c ! i)]) [0..<n] t"
  have IH: "length x = 64" "\<And>k. n \<le> k \<Longrightarrow> x ! k = t ! k" "\<And>k. k < 64 \<Longrightarrow> 0 \<le> sint (x ! k) \<and> sint (x ! k) \<le> B + 255"
    "digits_int x = digits_int t + (\<Sum>i<n. uint (c ! i) * 256 ^ i)"
    using Suc by (auto simp: x_def)
  have n: "n < 64" using Suc by simp
  have tn: "0 \<le> sint (t ! n)" "sint (t ! n) \<le> B" using assms(3) n by simp_all
  define w where "w = x ! n + ucast (c ! n)"
  have w: "sint w = sint (t ! n) + uint (c ! n)"
    unfolding w_def using IH(2) [of n] tn assms(4) uint_byte [of "c ! n"]
    by (subst sint_add_fits, intro fits64_abs) (simp_all only: sint_byte, simp_all)
  have "digits_int (x[n := w]) = digits_int x + uint (c ! n) * 256 ^ n"
    using n IH(1) IH(2) [of n] w by (simp add: digits_int_update)
  then have val: "digits_int (x[n := w]) = digits_int t + (\<Sum>i<Suc n. uint (c ! i) * 256 ^ i)" using IH(4) by simp
  have "0 \<le> sint (x[n := w] ! k) \<and> sint (x[n := w] ! k) \<le> B + 255" if "k < 64" for k
  proof (cases "k = n")
    case True
    then show ?thesis using IH(1) n w tn uint_byte [of "c ! n"] by simp
  qed (use IH(3) [OF that] in simp)
  moreover have "x[n := w] ! k = t ! k" if "Suc n \<le> k" for k using IH(2) [of k] that by simp
  ultimately show ?case using IH(1) val by (simp add: x_def [symmetric] w_def)
qed

lemma sc25519_muladd_eq:
  assumes "32 \<le> length a" "32 \<le> length b" "32 \<le> length c" "length s = 32"
  shows "sc25519_muladd s a b c = le_bytes 32 ((le_nat (take 32 a) * le_nat (take 32 b) + le_nat (take 32 c)) mod nat L25519)"
proof -
  define t where "t = fold (\<lambda>(i, j) t. t[i + j := t ! (i + j) + ucast (a ! i) * ucast (b ! j)]) (List.product [0..<32] [0..<32]) (replicate 64 (0 :: u64))"
  have "t = fold (\<lambda>i t. fold (\<lambda>j t. t[i + j := t ! (i + j) + ucast (a ! i) * ucast (b ! j)]) [0..<32] t) [0..<32] (replicate 64 0)"
    unfolding t_def fold_product prod.case ..
  then have t: "length t = 64" "\<forall>k<64. 0 \<le> sint (t ! k) \<and> sint (t ! k) \<le> 32 * 65025" "digits_int t = int (le_nat (take 32 a)) * int (le_nat (take 32 b))"
    using product_rows [of 32 b a] le_nat_sum [of 32 a] assms by (simp_all del: upt_rec_numeral)
  define u where "u = fold (\<lambda>i t. t[i := t ! i + ucast (c ! i)]) [0..<32] t"
  have u: "length u = 64" "\<forall>k<64. 0 \<le> sint (u ! k) \<and> sint (u ! k) \<le> 32 * 65025 + 255"
    "digits_int u = int (le_nat (take 32 a) * le_nat (take 32 b) + le_nat (take 32 c))"
    using add_bytes_fold [OF t(1) _ t(2), of 32 c] le_nat_sum [of 32 c] assms t(3) by (simp_all add: u_def del: upt_rec_numeral)
  have "\<forall>k<64. \<bar>sint (u ! k)\<bar> \<le> 2 ^ 21"
  proof (intro allI impI)
    fix k :: nat assume "k < 64"
    then have "0 \<le> sint (u ! k)" "sint (u ! k) \<le> 32 * 65025 + 255" using u(2) by simp_all
    then show "\<bar>sint (u ! k)\<bar> \<le> 2 ^ 21" by simp
  qed
  note m = modL_correct [OF u(1) this, of s]
  have "nat (int k mod L25519) = k mod nat L25519" for k by (simp add: nat_mod_distrib L25519_def)
  then have "modL s u = le_bytes 32 ((le_nat (take 32 a) * le_nat (take 32 b) + le_nat (take 32 c)) mod nat L25519)"
    using m assms unfolding u(3) \<open>\<And>k. nat (int k mod L25519) = k mod nat L25519\<close> by simp
  then show ?thesis by (simp only: sc25519_muladd_def Let_def t_def [symmetric] u_def [symmetric])
qed

section \<open>Property\<close>



end
