(* ===== verification/Sshcrypto.thy ===== *)
theory Sshcrypto
  imports Parser
begin

text \<open>
  The algorithm tables and the negotiation: sshcrypto.c, sshcrypto_kex.c, sshcrypto_key.c,
  sshcrypto_cipher.c, sshcrypto_key_ed25519.c and the key encoding of sshcrypto_kex_curve25519.c
  and sshcrypto_kex_sntrup761x25519.c. The tables are global and are kept in the record \<open>sshc\<close>
  with the variables a selection sets. A function pointer of a table is a tag; a null pointer is
  \<open>None\<close>. A table is a list that ends with an entry without a name. Log output is not modelled.
\<close>

section \<open>The tables\<close>

datatype kem_fn = Curve25519_enc | Crypto_kem_sntrup761x25519_enc
datatype hash_fn = Crypto_hash_sha256 | Crypto_hash_sha512
datatype kemkey_fn = Curve25519_putkemkey | Sntrup761x25519_putkemkey
datatype sign_fn = Crypto_sign_ed25519
datatype cipher_fn = Chachapoly

record kex =
  kx_name :: "bytes option"
  kx_enc :: "kem_fn option"
  kx_publickeybytes :: int
  kx_ciphertextbytes :: int
  kx_kembytes :: int
  kx_hash :: "hash_fn option"
  kx_hashbytes :: int
  kx_putkemkey :: "kemkey_fn option"
  kx_cryptotype :: u32
  kx_enabled :: u32

record key =
  ky_name :: "bytes option"
  ky_sign :: "sign_fn option"
  ky_publickey :: bytes
  ky_publickeybytes :: int
  ky_secretkeybytes :: int
  ky_bytes :: int
  ky_publickeyfilename :: bytes
  ky_secretkeyfilename :: bytes
  ky_cryptotype :: u32
  ky_flagserver :: u32
  ky_flagclient :: u32

record cipher =
  ci_name :: "bytes option"
  ci_fn :: "cipher_fn option"
  ci_keybytes :: nat
  ci_blockbytes :: nat
  ci_authbytes :: nat
  ci_cryptotype :: u32
  ci_enabled :: u32

definition TYPEOLDCRYPTO :: u32 where
  "TYPEOLDCRYPTO = 1"

definition TYPENEWCRYPTO :: u32 where
  "TYPENEWCRYPTO = 2"

definition TYPEPQCRYPTO :: u32 where
  "TYPEPQCRYPTO = 4"

definition kex_zero :: kex where
  "kex_zero = \<lparr>kx_name = None, kx_enc = None, kx_publickeybytes = 0, kx_ciphertextbytes = 0, kx_kembytes = 0,
     kx_hash = None, kx_hashbytes = 0, kx_putkemkey = None, kx_cryptotype = 0, kx_enabled = 0\<rparr>"

definition key_zero :: key where
  "key_zero = \<lparr>ky_name = None, ky_sign = None, ky_publickey = replicate 32 0, ky_publickeybytes = 0,
     ky_secretkeybytes = 0, ky_bytes = 0, ky_publickeyfilename = [], ky_secretkeyfilename = [],
     ky_cryptotype = 0, ky_flagserver = 0, ky_flagclient = 0\<rparr>"

definition cipher_zero :: cipher where
  "cipher_zero = \<lparr>ci_name = None, ci_fn = None, ci_keybytes = 0, ci_blockbytes = 0, ci_authbytes = 0,
     ci_cryptotype = 0, ci_enabled = 0\<rparr>"

definition kex_curve25519 :: "string \<Rightarrow> kex" where
  "kex_curve25519 name =
     \<lparr>kx_name = Some (cstr name), kx_enc = Some Curve25519_enc, kx_publickeybytes = 32,
      kx_ciphertextbytes = 32, kx_kembytes = 32, kx_hash = Some Crypto_hash_sha256, kx_hashbytes = 32,
      kx_putkemkey = Some Curve25519_putkemkey, kx_cryptotype = TYPENEWCRYPTO, kx_enabled = 0\<rparr>"

definition kex_sntrup :: kex where
  "kex_sntrup =
     \<lparr>kx_name = Some (cstr ''sntrup761x25519-sha512@openssh.com''),
      kx_enc = Some Crypto_kem_sntrup761x25519_enc, kx_publickeybytes = 1190, kx_ciphertextbytes = 1071,
      kx_kembytes = 64, kx_hash = Some Crypto_hash_sha512, kx_hashbytes = 64,
      kx_putkemkey = Some Sntrup761x25519_putkemkey, kx_cryptotype = TYPEPQCRYPTO, kx_enabled = 0\<rparr>"

definition sshcrypto_kexs :: "kex list" where
  "sshcrypto_kexs =
     [kex_curve25519 ''curve25519-sha256'', kex_curve25519 ''curve25519-sha256@libssh.org'', kex_sntrup, kex_zero]"

definition sshcrypto_keys :: "key list" where
  "sshcrypto_keys =
     [\<lparr>ky_name = Some (cstr ''ssh-ed25519''), ky_sign = Some Crypto_sign_ed25519, ky_publickey = replicate 32 0,
       ky_publickeybytes = 32, ky_secretkeybytes = 64, ky_bytes = 64, ky_publickeyfilename = cstr ''ed25519.pk'',
       ky_secretkeyfilename = cstr ''.ed25519.sk'', ky_cryptotype = TYPENEWCRYPTO, ky_flagserver = 0,
       ky_flagclient = 0\<rparr>,
      key_zero]"

definition sshcrypto_ciphers :: "cipher list" where
  "sshcrypto_ciphers =
     [\<lparr>ci_name = Some (cstr ''chacha20-poly1305@openssh.com''), ci_fn = Some Chachapoly, ci_keybytes = 64,
       ci_blockbytes = 8, ci_authbytes = 16, ci_cryptotype = TYPENEWCRYPTO OR TYPEPQCRYPTO, ci_enabled = 0\<rparr>,
      cipher_zero]"

text \<open>
  The global variables. A selection copies the fields of the chosen entry; \<open>sshcrypto_sign_publickey\<close>
  is a pointer into the table, so the index of the chosen key is kept with the copy.
\<close>

record sshc =
  kexs :: "kex list"
  keys :: "key list"
  ciphers :: "cipher list"
  kex_sel :: "kex option"
  key_sel :: "(nat \<times> key) option"
  cipher_sel :: "cipher option"

definition sshc_start :: sshc where
  "sshc_start = \<lparr>kexs = sshcrypto_kexs, keys = sshcrypto_keys, ciphers = sshcrypto_ciphers,
     kex_sel = None, key_sel = None, cipher_sel = None\<rparr>"

section \<open>Searching a table\<close>

text \<open>
  \<open>for (i = 0; tab[i].name; ++i) { if (!enabled) continue; if (str_equaln(x, xlen, name)) ... }\<close>: the
  index and entry found. Running past the end of the table reads outside it.
\<close>

primrec table_find :: "('e \<Rightarrow> bytes option) \<Rightarrow> ('e \<Rightarrow> bool) \<Rightarrow> 'e list \<Rightarrow> nat \<Rightarrow> bytes \<Rightarrow> int \<Rightarrow> (nat \<times> 'e) option res" where
  "table_find nm en [] i x xlen = Inl Oob"
| "table_find nm en (e # es) i x xlen =
     (case nm e of
        None \<Rightarrow> Inr None
      | Some name \<Rightarrow>
          if \<not> en e then table_find nm en es (Suc i) x xlen
          else bindr (str_equaln x xlen name) (\<lambda>eq.
                 if eq \<noteq> 0 then Inr (Some (i, e)) else table_find nm en es (Suc i) x xlen))"

text \<open>
  The loop of the \<open>select\<close> functions over the client's list. \<open>guess\<close> is \<open>*kex_guess\<close>, which becomes 0
  once a name of the client was not in the table.
\<close>

function select_loop ::
    "('e \<Rightarrow> bytes option) \<Rightarrow> ('e \<Rightarrow> bool) \<Rightarrow> 'e list \<Rightarrow> bytes \<Rightarrow> int \<Rightarrow> int \<Rightarrow> u8 \<Rightarrow> ((nat \<times> 'e) option \<times> u8) res" where
  "select_loop nm en tab m len pos guess =
     bindr (stringparser m len pos 0 0) (\<lambda>(pos', x, xlen).
       if pos' = 0 then Inr (None, guess)
       else bindr (table_find nm en tab 0 (drop (nat x) m) xlen) (\<lambda>r.
              case r of
                Some e \<Rightarrow> Inr (Some e, guess)
              | None \<Rightarrow> select_loop nm en tab m len pos' 0))"
  by pat_completeness auto
termination
  by (relation "measure (\<lambda>(nm, en, tab, m, len, pos, guess). nat (len - pos))")
    (auto simp: stringparser_def split: if_splits dest!: stringparser_loop_gt)

declare select_loop.simps [simp del]

definition sshcrypto_kex_select :: "sshc \<Rightarrow> bytes \<Rightarrow> int \<Rightarrow> u8 \<Rightarrow> (bool \<times> sshc \<times> u8) res" where
  "sshcrypto_kex_select s m len guess =
     (if kex_sel s \<noteq> None then Inr (True, s, guess)
      else bindr (rd1 m len) (\<lambda>c.
           if c \<noteq> 0 then Inl Eproto
           else bindr (select_loop kx_name (\<lambda>k. kx_enabled k \<noteq> 0) (kexs s) m len 0 1) (\<lambda>(r, guess).
                case r of
                  None \<Rightarrow> Inr (False, s, guess)
                | Some (i, k) \<Rightarrow> Inr (True, s\<lparr>kex_sel := Some k\<rparr>, guess))))"

definition sshcrypto_key_select :: "sshc \<Rightarrow> bytes \<Rightarrow> int \<Rightarrow> (bool \<times> sshc) res" where
  "sshcrypto_key_select s m len =
     (if key_sel s \<noteq> None then Inr (True, s)
      else bindr (rd1 m len) (\<lambda>c.
           if c \<noteq> 0 then Inl Eproto
           else bindr (select_loop ky_name (\<lambda>k. ky_flagserver k \<noteq> 0) (keys s) m len 0 1) (\<lambda>(r, _).
                case r of
                  None \<Rightarrow> Inr (False, s)
                | Some k \<Rightarrow> Inr (True, s\<lparr>key_sel := Some k\<rparr>))))"

definition sshcrypto_cipher_select :: "sshc \<Rightarrow> bytes \<Rightarrow> int \<Rightarrow> (bool \<times> sshc) res" where
  "sshcrypto_cipher_select s m len =
     (if cipher_sel s \<noteq> None then Inr (True, s)
      else bindr (rd1 m len) (\<lambda>c.
           if c \<noteq> 0 then Inl Eproto
           else bindr (select_loop ci_name (\<lambda>k. ci_enabled k \<noteq> 0) (ciphers s) m len 0 1) (\<lambda>(r, _).
                case r of
                  None \<Rightarrow> Inr (False, s)
                | Some (i, k) \<Rightarrow> Inr (True, s\<lparr>cipher_sel := Some k\<rparr>))))"

definition sshcrypto_cipher_macselect :: "bytes \<Rightarrow> int \<Rightarrow> bool res" where
  "sshcrypto_cipher_macselect m len = bindr (rd1 m len) (\<lambda>c. if c \<noteq> 0 then Inl Eproto else Inr True)"

section \<open>Writing the lists of names\<close>

text \<open>The first loop computes the length, the second writes the names.\<close>

primrec names_len :: "('e \<Rightarrow> bytes option) \<Rightarrow> ('e \<Rightarrow> bool) \<Rightarrow> 'e list \<Rightarrow> int \<Rightarrow> u32 \<Rightarrow> u32 res" where
  "names_len nm en [] j len = Inl Oob"
| "names_len nm en (e # es) j len =
     (case nm e of
        None \<Rightarrow> Inr len
      | Some name \<Rightarrow>
          if \<not> en e then names_len nm en es j len
          else bindr (str_len name) (\<lambda>n.
                 names_len nm en es (j + 1) ((if j \<noteq> 0 then len + 1 else len) + word_of_int n)))"

primrec names_put :: "('e \<Rightarrow> bytes option) \<Rightarrow> ('e \<Rightarrow> bool) \<Rightarrow> 'e list \<Rightarrow> int \<Rightarrow> buf \<Rightarrow> buf res" where
  "names_put nm en [] j b = Inl Oob"
| "names_put nm en (e # es) j b =
     (case nm e of
        None \<Rightarrow> Inr b
      | Some name \<Rightarrow>
          if \<not> en e then names_put nm en es j b
          else bindr (if j \<noteq> 0 then buf_puts b (cstr '','') else Inr b) (\<lambda>b.
               bindr (buf_puts b name) (\<lambda>b. names_put nm en es (j + 1) b)))"

definition table_put :: "('e \<Rightarrow> bytes option) \<Rightarrow> ('e \<Rightarrow> bool) \<Rightarrow> 'e list \<Rightarrow> buf \<Rightarrow> buf res" where
  "table_put nm en tab b =
     bindr (names_len nm en tab 0 0) (\<lambda>len.
     bindr (buf_putnum32 b len) (\<lambda>b.
     bindr (names_put nm en tab 0 b) (\<lambda>b.
     bindr (wr1 (bmem b) (blen b) 0) (\<lambda>m. Inr (b\<lparr>bmem := m\<rparr>)))))"

definition sshcrypto_kex_put :: "sshc \<Rightarrow> buf \<Rightarrow> buf res" where
  "sshcrypto_kex_put s b = table_put kx_name (\<lambda>k. kx_enabled k \<noteq> 0) (kexs s) b"

definition sshcrypto_key_put :: "sshc \<Rightarrow> buf \<Rightarrow> buf res" where
  "sshcrypto_key_put s b = table_put ky_name (\<lambda>k. ky_flagserver k \<noteq> 0) (keys s) b"

definition sshcrypto_cipher_put :: "sshc \<Rightarrow> buf \<Rightarrow> buf res" where
  "sshcrypto_cipher_put s b = table_put ci_name (\<lambda>k. ci_enabled k \<noteq> 0) (ciphers s) b"

definition sshcrypto_cipher_macput :: "buf \<Rightarrow> buf res" where
  "sshcrypto_cipher_macput b = buf_putstring b (cstr ''hmac-sha2-256'')"

section \<open>sshcrypto.c\<close>

definition kem_PUBLICKEYMAX :: int where
  "kem_PUBLICKEYMAX = 1190"

definition kem_CIPHERTEXTMAX :: int where
  "kem_CIPHERTEXTMAX = 1071"

primrec init_kexs :: "kex list \<Rightarrow> unit res" where
  "init_kexs [] = Inl Oob"
| "init_kexs (k # ks) =
     (if kx_name k = None then Inr ()
      else if kx_publickeybytes k > kem_PUBLICKEYMAX then Inl Einval
      else if kx_ciphertextbytes k > kem_CIPHERTEXTMAX then Inl Einval
      else if kx_kembytes k > 64 then Inl Einval
      else if kx_hashbytes k > 64 then Inl Einval
      else init_kexs ks)"

primrec init_keys :: "key list \<Rightarrow> unit res" where
  "init_keys [] = Inl Oob"
| "init_keys (k # ks) =
     (case ky_name k of
        None \<Rightarrow> Inr ()
      | Some name \<Rightarrow>
          if ky_publickeybytes k > 32 then Inl Einval
          else if ky_secretkeybytes k > 64 then Inl Einval
          else if ky_bytes k > 64 then Inl Einval
          else bindr (str_len name) (\<lambda>n. if n + 1 > 12 then Inl Einval else init_keys ks))"

primrec init_ciphers :: "cipher list \<Rightarrow> unit res" where
  "init_ciphers [] = Inl Oob"
| "init_ciphers (c # cs) =
     (if ci_name c = None then Inr ()
      else if ci_keybytes c > 128 then Inl Einval
      else init_ciphers cs)"

definition sshcrypto_init :: "sshc \<Rightarrow> unit res" where
  "sshcrypto_init s =
     bindr (init_kexs (kexs s)) (\<lambda>_. bindr (init_keys (keys s)) (\<lambda>_. init_ciphers (ciphers s)))"

text \<open>\<open>for (i = 0; tab[i].name; ++i) purge(&tab[i], sizeof tab[i]);\<close>\<close>

primrec purge_table :: "('e \<Rightarrow> bytes option) \<Rightarrow> 'e \<Rightarrow> 'e list \<Rightarrow> 'e list res" where
  "purge_table nm z [] = Inl Oob"
| "purge_table nm z (e # es) =
     (if nm e = None then Inr (e # es) else bindr (purge_table nm z es) (\<lambda>es. Inr (z # es)))"

definition sshcrypto_purge :: "sshc \<Rightarrow> sshc res" where
  "sshcrypto_purge s =
     bindr (purge_table kx_name kex_zero (kexs s)) (\<lambda>ks.
     bindr (purge_table ky_name key_zero (keys s)) (\<lambda>hs.
     bindr (purge_table ci_name cipher_zero (ciphers s)) (\<lambda>cs.
       Inr (s\<lparr>kexs := ks, keys := hs, ciphers := cs\<rparr>))))"

section \<open>sshcrypto_key_ed25519.c and the shared secrets\<close>

definition ed25519_name :: bytes where
  "ed25519_name = cstr ''ssh-ed25519''"

definition ed25519_putsignature :: "buf \<Rightarrow> bytes \<Rightarrow> buf res" where
  "ed25519_putsignature b x =
     bindr (str_len ed25519_name) (\<lambda>n.
     bindr (buf_putnum32 b (word_of_int (64 + n + 8))) (\<lambda>b.
     bindr (buf_putstring b ed25519_name) (\<lambda>b. buf_putstringlen b x 64)))"

definition ed25519_putsignpk :: "buf \<Rightarrow> bytes \<Rightarrow> buf res" where
  "ed25519_putsignpk b x =
     bindr (str_len ed25519_name) (\<lambda>n.
     bindr (buf_putnum32 b (word_of_int (32 + n + 8))) (\<lambda>b.
     bindr (buf_putstring b ed25519_name) (\<lambda>b. buf_putstringlen b x 32)))"

definition ed25519_pkprefix :: bytes where
  "ed25519_pkprefix = [0, 0, 0, 11] @ lit ''ssh-ed25519'' @ [0, 0, 0, 32]"

definition ed25519_putsignpkbase64 :: "buf \<Rightarrow> bytes \<Rightarrow> buf res" where
  "ed25519_putsignpkbase64 b x =
     bindr (byte_copy (replicate 51 0) 0 19 ed25519_pkprefix 0) (\<lambda>m.
     bindr (byte_copy m 19 32 x 0) (\<lambda>m.
     buf_putbase64 b m 51))"

text \<open>
  The result is the return value and \<open>buf\<close>; the two functions differ in the length they accept.
\<close>

definition ed25519_parse :: "int \<Rightarrow> bytes \<Rightarrow> bytes \<Rightarrow> int \<Rightarrow> (bool \<times> bytes) res" where
  "ed25519_parse bytes out x xlen =
     bindr (packetparser_uint32 x xlen 0) (\<lambda>(pos, len).
     bindr (packetparser_skip x xlen pos (uint len)) (\<lambda>pos.
     bindr (str_equaln (drop (nat (pos - uint len)) x) (uint len) ed25519_name) (\<lambda>eq.
     if eq = 0 then Inr (False, out)
     else
       bindr (packetparser_uint32 x xlen pos) (\<lambda>(pos, len).
       if uint len \<noteq> bytes then Inr (False, out)
       else
         bindr (packetparser_copy x xlen pos out (uint len)) (\<lambda>(pos, out).
         bindr (packetparser_end x xlen pos) (\<lambda>pos. Inr (True, out)))))))"

definition ed25519_parsesignpk :: "bytes \<Rightarrow> bytes \<Rightarrow> int \<Rightarrow> (bool \<times> bytes) res" where
  "ed25519_parsesignpk out x xlen = ed25519_parse 32 out x xlen"

definition ed25519_parsesignature :: "bytes \<Rightarrow> bytes \<Rightarrow> int \<Rightarrow> (bool \<times> bytes) res" where
  "ed25519_parsesignature out x xlen = ed25519_parse 64 out x xlen"

definition curve25519_putkemkey :: "buf \<Rightarrow> bytes \<Rightarrow> buf res" where
  "curve25519_putkemkey b x = buf_putsharedsecret b x 32"

definition sntrup761x25519_putkemkey :: "buf \<Rightarrow> bytes \<Rightarrow> buf res" where
  "sntrup761x25519_putkemkey b x = buf_putstringlen b x 64"

section \<open>The interface of a table\<close>

text \<open>
  What the search and the lists rely on: the table ends with an unnamed entry, and every name is
  a non-empty C string without a comma. The flags of a table change, its names do not: \<open>tab\<close>
  ranges over the tables with the names of \<open>table\<close>.
\<close>

primrec table_lookup :: "('e \<Rightarrow> bytes option) \<Rightarrow> ('e \<Rightarrow> bool) \<Rightarrow> 'e list \<Rightarrow> nat \<Rightarrow> bytes \<Rightarrow> (nat \<times> 'e) option" where
  "table_lookup nm en [] i x = None"
| "table_lookup nm en (e # es) i x =
     (case nm e of
        None \<Rightarrow> None
      | Some name \<Rightarrow> if en e \<and> name = x @ [0] then Some (i, e) else table_lookup nm en es (Suc i) x)"

primrec enabled_names :: "('e \<Rightarrow> bytes option) \<Rightarrow> ('e \<Rightarrow> bool) \<Rightarrow> 'e list \<Rightarrow> bytes list" where
  "enabled_names nm en [] = []"
| "enabled_names nm en (e # es) =
     (case nm e of
        None \<Rightarrow> []
      | Some name \<Rightarrow> if en e then butlast name # enabled_names nm en es else enabled_names nm en es)"

text \<open>RFC 4253, section 7.1: the first name of the client's list that the server has.\<close>

primrec negotiate :: "(bytes \<Rightarrow> 'r option) \<Rightarrow> bytes list \<Rightarrow> 'r option" where
  "negotiate look [] = None"
| "negotiate look (n # ns) = (case look n of Some e \<Rightarrow> Some e | None \<Rightarrow> negotiate look ns)"

definition comma_join :: "bytes list \<Rightarrow> bytes" where
  "comma_join ns = (case ns of [] \<Rightarrow> [] | n # ns \<Rightarrow> n @ concat (map ((#) 44) ns))"

definition clean_name :: "bytes \<Rightarrow> bool" where
  "clean_name s \<longleftrightarrow> s \<noteq> [] \<and> 0 \<notin> set s \<and> 44 \<notin> set s \<and> length s \<le> 64"

definition named_by :: "('e \<Rightarrow> bytes option) \<Rightarrow> 'e list \<Rightarrow> bytes list \<Rightarrow> bool" where
  "named_by nm tab ns \<longleftrightarrow> map nm tab = map (\<lambda>s. Some (s @ [0])) ns @ [None] \<and> list_all clean_name ns"

text \<open>A buffer whose next byte is zero: what the \<open>put\<close> functions leave behind for the log.\<close>

definition zterm :: "buf \<Rightarrow> buf" where
  "zterm b = b\<lparr>bmem := (bmem b)[nat (blen b) := 0]\<rparr>"

lemma named_by_cases:
  assumes "named_by nm (e # tab) ns"
  obtains "nm e = None" "tab = []" "ns = []"
    | s ns' where "ns = s # ns'" "nm e = Some (s @ [0])" "clean_name s" "named_by nm tab ns'"
  using assms by (cases ns) (auto simp: named_by_def)

lemma named_by_Nil [simp]: "\<not> named_by nm [] ns"
  by (simp add: named_by_def)

lemma table_find_lookup:
  "named_by nm tab ns \<Longrightarrow> 0 \<le> n \<Longrightarrow> n \<le> int (length x) \<Longrightarrow>
   table_find nm en tab i x n = Inr (table_lookup nm en tab i (take (nat n) x))"
proof (induction tab arbitrary: ns i)
  case (Cons e tab)
  from Cons.prems(1) show ?case
  proof (cases rule: named_by_cases)
    case (2 s ns')
    then have "0 \<notin> set s" by (simp add: clean_name_def)
    then have "str_equaln x n (s @ [0]) = Inr (if take (nat n) x = s then 1 else 0)"
      using str_equaln_eq [of s n x "[]"] Cons.prems by simp
    then show ?thesis using 2 Cons by auto
  qed simp
qed simp

lemma names_len_eq:
  "named_by nm tab ns \<Longrightarrow> j \<ge> 0 \<Longrightarrow> names_len nm en tab j len =
     Inr (len + of_nat (length (if j = 0 then comma_join (enabled_names nm en tab)
                                else concat (map ((#) 44) (enabled_names nm en tab)))))"
proof (induction tab arbitrary: ns j len)
  case (Cons e tab)
  from Cons.prems(1) show ?case
  proof (cases rule: named_by_cases)
    case (2 s ns')
    then have "str_len (s @ [0]) = Inr (int (length s))" by (simp add: clean_name_def str_len_eq)
    then show ?thesis
      using 2 Cons.IH [of ns' "j + 1"] Cons.IH [of ns' j] Cons.prems(2) by (auto simp: comma_join_def)
  qed (simp add: comma_join_def)
qed simp

lemma names_put_eq:
  "named_by nm tab ns \<Longrightarrow> j \<ge> 0 \<Longrightarrow> wf_buf b \<Longrightarrow> names_put nm en tab j b =
     bput b (if j = 0 then comma_join (enabled_names nm en tab)
             else concat (map ((#) 44) (enabled_names nm en tab)))"
proof (induction tab arbitrary: ns j b)
  case (Cons e tab)
  from Cons.prems(1) show ?case
  proof (cases rule: named_by_cases)
    case 1
    then show ?thesis using wf_bufD [OF Cons.prems(3)] by (simp add: comma_join_def bput_def)
  next
    case (2 s ns')
    have put: "buf_puts b (s @ [0]) = bput b s" if "wf_buf b" for b
      using 2 that by (simp add: clean_name_def buf_puts_eq)
    have comma: "buf_puts b (cstr '','') = bput b [44]"
      using buf_puts_eq [OF Cons.prems(3), of "[44]" "[]"] by (simp add: cstr_def)
    have rest: "names_put nm en tab (j + 1) b = bput b (concat (map ((#) 44) (enabled_names nm en tab)))"
      if "wf_buf b" for b
      using Cons.IH [OF 2(4) _ that, of "j + 1"] Cons.prems(2) by simp
    have step: "bindr (buf_puts b (s @ [0])) (\<lambda>b. names_put nm en tab (j + 1) b) =
        bput b (s @ concat (map ((#) 44) (enabled_names nm en tab)))" if "wf_buf b" for b
      unfolding put [OF that] using that by (rule bput_then) (rule rest)
    show ?thesis
    proof (cases "en e")
      case True
      show ?thesis
      proof (cases "j = 0")
        case j: False
        have "bindr (bput b [44]) (\<lambda>b. bindr (buf_puts b (s @ [0])) (\<lambda>b. names_put nm en tab (j + 1) b)) =
            bput b ([44] @ s @ concat (map ((#) 44) (enabled_names nm en tab)))"
          using Cons.prems(3) by (rule bput_then) (rule step)
        then show ?thesis using True j 2 comma by simp
      qed (use True 2 step [OF Cons.prems(3)] in \<open>simp add: comma_join_def\<close>)
    qed (use 2 Cons.IH [OF 2(4) Cons.prems(2,3)] in simp)
  qed
qed simp

lemma enabled_names_clean:
  "named_by nm tab ns \<Longrightarrow> list_all clean_name (enabled_names nm en tab)"
proof (induction tab arbitrary: ns)
  case (Cons e tab)
  from Cons.prems show ?case by (cases rule: named_by_cases) (auto simp: Cons.IH)
qed simp

lemma list_items_comma_join: "list_all clean_name ns \<Longrightarrow> list_items (comma_join ns) = ns"
proof (induction ns)
  case (Cons n ns)
  have n: "n \<noteq> []" "44 \<notin> set n" using Cons.prems by (auto simp: clean_name_def)
  show ?case
  proof (cases ns)
    case Nil
    then show ?thesis using n by (simp add: comma_join_def list_items_def split_commas_last)
  next
    case (Cons n' ns')
    then have "comma_join (n # ns) = n @ 44 # comma_join ns" by (simp add: comma_join_def)
    then show ?thesis using n Cons.IH Cons.prems by (simp add: list_items_def split_commas_item)
  qed
qed (simp add: comma_join_def list_items_def)

locale name_table =
  fixes nm :: "'e \<Rightarrow> bytes option" and en :: "'e \<Rightarrow> bool" and table :: "'e list"
  assumes named: "\<exists>ns. named_by nm table ns"
begin

lemma table_named:
  assumes "map nm tab = map nm table"
  obtains ns where "named_by nm tab ns"
  using named assms by (auto simp: named_by_def)

lemma find_eq:
  assumes "map nm tab = map nm table" and "0 \<le> n" and "n \<le> int (length x)"
  shows "table_find nm en tab i x n = Inr (table_lookup nm en tab i (take (nat n) x))"
proof -
  obtain ns where "named_by nm tab ns" using assms(1) by (rule table_named)
  then show ?thesis using assms(2,3) by (rule table_find_lookup)
qed

lemma select_eq:
  assumes "map nm tab = map nm table" and "m \<noteq> []" and "0 \<le> len" and "len \<le> int (length m)"
    and "len \<le> 1073741823" and "0 \<le> pos" and "pos \<le> 1073741824"
  shows "select_loop nm en tab m len pos guess =
     (let items = list_items (take (nat (len - pos)) (drop (nat pos) m)); look = table_lookup nm en tab 0
      in Inr (negotiate look items, if items = [] \<or> look (hd items) \<noteq> None then guess else 0))"
  using assms(6,7)
proof (induction "nat (len - pos)" arbitrary: pos guess rule: less_induct)
  case less
  have ok: "\<not> parser_bad m len pos" using assms less.prems by (simp add: parser_bad_def)
  then have sp: "stringparser m len pos 0 0 = stringparser_loop m len pos 0 0" by (simp add: stringparser_def)
  obtain p x l where spl: "stringparser_loop m len pos 0 0 = Inr (p, x, l)"
    using stringparser_loop_items [of pos len m 0 0] less.prems assms
    by (cases "stringparser_loop m len pos 0 0") auto
  let ?items = "list_items (take (nat (len - pos)) (drop (nat pos) m))"
  have it: "if p = 0 then ?items = []
      else 0 < p \<and> p \<le> len + 1 \<and> 0 \<le> x \<and> 0 < l \<and> x + l \<le> len \<and>
        ?items = take (nat l) (drop (nat x) m) # list_items (take (nat (len - p)) (drop (nat p) m))"
    using stringparser_loop_items [of pos len m 0 0] less.prems assms spl by auto
  show ?case
  proof (cases "p = 0")
    case True
    then show ?thesis using it sp spl by (simp add: select_loop.simps [of nm en tab m len pos])
  next
    case False
    then have i: "?items = take (nat l) (drop (nat x) m) # list_items (take (nat (len - p)) (drop (nat p) m))"
      and b: "0 \<le> l" "l \<le> int (length (drop (nat x) m))" "0 \<le> p" "p \<le> 1073741824" using it assms by auto
    have "nat (len - p) < nat (len - pos)" using stringparser_loop_gt [OF spl False] by simp
    then have ih: "select_loop nm en tab m len p 0 =
       (let items = list_items (take (nat (len - p)) (drop (nat p) m)); look = table_lookup nm en tab 0
        in Inr (negotiate look items, 0))"
      using less.hyps [OF _ b(3,4), of 0] by (simp add: Let_def)
    show ?thesis
      using False find_eq [OF assms(1) b(1,2)] sp spl ih unfolding i
      by (simp add: select_loop.simps [of nm en tab m len pos] Let_def split: option.splits)
  qed
qed

lemma put_eq:
  assumes "map nm tab = map nm table" and "wf_buf b"
  shows "table_put nm en tab b =
     bindr (bput b (ssh_string (comma_join (enabled_names nm en tab)))) (\<lambda>b. Inr (zterm b))"
proof -
  obtain ns where ns: "named_by nm tab ns" using assms(1) by (rule table_named)
  let ?l = "comma_join (enabled_names nm en tab)"
  have "bindr (bput b (uint32_pack_big (of_nat (length ?l)))) (\<lambda>b. names_put nm en tab 0 b) = bput b (ssh_string ?l)"
    unfolding ssh_string_def using assms(2) names_put_eq [OF ns, of 0] by (intro bput_then) auto
  then have "table_put nm en tab b =
      bindr (bput b (ssh_string ?l)) (\<lambda>b. bindr (wr1 (bmem b) (blen b) 0) (\<lambda>m. Inr (b\<lparr>bmem := m\<rparr>)))"
    using names_len_eq [OF ns, of 0 en 0] assms(2)
    by (simp add: table_put_def buf_putnum32_eq bindr_assoc [symmetric])
  moreover have "wr1 (bmem b') (blen b') 0 = Inr ((bmem b')[nat (blen b') := 0])" if "wf_buf b'" for b'
    using wf_bufD [OF that] by (simp add: wr1_in)
  ultimately show ?thesis using wf_bput [OF assms(2), of "ssh_string ?l"]
    by (cases "bput b (ssh_string ?l)") (auto simp: zterm_def)
qed

text \<open>What a peer parses out of the list is the enabled names, in the order of the table.\<close>

lemma put_items:
  assumes "map nm tab = map nm table"
  shows "list_items (comma_join (enabled_names nm en tab)) = enabled_names nm en tab"
proof -
  obtain ns where ns: "named_by nm tab ns" using assms(1) by (rule table_named)
  show ?thesis by (rule list_items_comma_join) (rule enabled_names_clean [OF ns])
qed

lemma lookup_enabled:
  assumes "map nm tab = map nm table"
  shows "table_lookup nm en tab i x \<noteq> None \<longleftrightarrow> x \<in> set (enabled_names nm en tab)"
proof -
  obtain ns where "named_by nm tab ns" using assms(1) by (rule table_named)
  then show ?thesis
  proof (induction tab arbitrary: ns i)
    case (Cons e tab)
    from Cons.prems show ?case
    proof (cases rule: named_by_cases)
      case (2 s ns')
      then show ?thesis using Cons.IH [OF 2(4), of "Suc i"] by auto
    qed simp
  qed simp
qed

text \<open>A negotiation succeeds exactly if the two sides have a name in common.\<close>

lemma negotiate_common:
  assumes "map nm tab = map nm table"
  shows "negotiate (table_lookup nm en tab 0) items = None \<longleftrightarrow>
     set items \<inter> set (enabled_names nm en tab) = {}"
proof (induction items)
  case (Cons n items)
  show ?case using lookup_enabled [OF assms, of 0 n] Cons.IH by (cases "table_lookup nm en tab 0 n") auto
qed simp

end

interpretation kex: name_table kx_name "\<lambda>k. kx_enabled k \<noteq> 0" sshcrypto_kexs
proof
  show "\<exists>ns. named_by kx_name sshcrypto_kexs ns"
    by (intro exI [of _ "[lit ''curve25519-sha256'', lit ''curve25519-sha256@libssh.org'',
          lit ''sntrup761x25519-sha512@openssh.com'']"])
      (simp add: named_by_def sshcrypto_kexs_def kex_curve25519_def kex_sntrup_def kex_zero_def cstr_def clean_name_def)
qed

interpretation key: name_table ky_name "\<lambda>k. ky_flagserver k \<noteq> 0" sshcrypto_keys
proof
  show "\<exists>ns. named_by ky_name sshcrypto_keys ns"
    by (intro exI [of _ "[lit ''ssh-ed25519'']"])
      (simp add: named_by_def sshcrypto_keys_def key_zero_def cstr_def clean_name_def)
qed

interpretation cipher: name_table ci_name "\<lambda>k. ci_enabled k \<noteq> 0" sshcrypto_ciphers
proof
  show "\<exists>ns. named_by ci_name sshcrypto_ciphers ns"
    by (intro exI [of _ "[lit ''chacha20-poly1305@openssh.com'']"])
      (simp add: named_by_def sshcrypto_ciphers_def cipher_zero_def cstr_def clean_name_def)
qed

section \<open>Keys and signatures\<close>

definition ed25519_blob :: "bytes \<Rightarrow> bytes" where
  "ed25519_blob k = ssh_string (lit ''ssh-ed25519'') @ ssh_string k"

lemma ed25519_name_len [simp]: "str_len ed25519_name = Inr 11"
  using str_len_eq [of "lit ''ssh-ed25519''" "[]"] by (simp add: ed25519_name_def cstr_def)

lemma ed25519_equaln:
  assumes "0 \<le> n" and "n \<le> int (length y)"
  shows "str_equaln y n ed25519_name = Inr (if take (nat n) y = lit ''ssh-ed25519'' then 1 else 0)"
  using str_equaln_eq [of "lit ''ssh-ed25519''" n y "[]"] assms by (simp add: ed25519_name_def cstr_def)

lemma putname_blob:
  assumes "wf_buf b" and "length k \<le> 1073741000"
  shows "bindr (buf_putnum32 b (word_of_int (int (length k) + 11 + 8))) (\<lambda>b.
      bindr (buf_putstring b ed25519_name) (\<lambda>b. buf_putstringlen b k (int (length k)))) =
    bput b (ssh_string (ed25519_blob k))"
proof -
  have n: "buf_putstring b ed25519_name = bput b (ssh_string (lit ''ssh-ed25519''))" if "wf_buf b" for b
    using buf_putstring_eq [OF that, of "lit ''ssh-ed25519''" "[]"] by (simp add: ed25519_name_def cstr_def)
  have k: "buf_putstringlen b k (int (length k)) = bput b (ssh_string k)" if "wf_buf b" for b
    using buf_putstringlen_eq [OF that, of "int (length k)" k] assms(2) by simp
  have l: "(word_of_int (int (length k) + 11 + 8) :: u32) = of_nat (length (ed25519_blob k))"
    by (simp add: ed25519_blob_def ssh_string_def add.commute)
  show ?thesis
    unfolding l ssh_string_def [of "ed25519_blob k"] buf_putnum32_eq [OF assms(1)]
    by (rule bput_then [OF assms(1)]) (simp only: n ed25519_blob_def, rule bput_then, auto simp: k)
qed

lemma ed25519_put_eq [buf_simps]:
  assumes "wf_buf b"
  shows "length k = 64 \<Longrightarrow> ed25519_putsignature b k = bput b (ssh_string (ed25519_blob k))"
    and "length k = 32 \<Longrightarrow> ed25519_putsignpk b k = bput b (ssh_string (ed25519_blob k))"
  using putname_blob [OF assms, of k]
  by (simp_all add: ed25519_putsignature_def ed25519_putsignpk_def)

lemma ed25519_blob_eq:
  "ed25519_blob k = uint32_pack_big 11 @ lit ''ssh-ed25519'' @ uint32_pack_big (of_nat (length k)) @ k"
  by (simp add: ed25519_blob_def ssh_string_def)

lemma ed25519_name_taken:
  assumes "take (nat (uint (len :: u32))) (drop 4 x) = lit ''ssh-ed25519''" and "4 + uint len \<le> int (length x)"
  shows "uint len = 11"
proof -
  have "length (take (nat (uint len)) (drop 4 x)) = nat (uint len)"
    using assms(2) by (simp only: length_take length_drop)
  moreover have "length (take (nat (uint len)) (drop 4 x)) = 11" unfolding assms(1) by simp
  ultimately show ?thesis by linarith
qed

lemma ed25519_parse_first:
  assumes "length x \<le> 1073741824" and "x \<noteq> []"
  shows "ed25519_parse n out x (int (length x)) =
    (let len = unpack_be (take 4 x) :: u32 in
     if length x < 4 then Inl Eproto
     else if uint len > 1073741824 then Inl Einval
     else if 4 + uint len > int (length x) then Inl Eproto
     else if take (nat (uint len)) (drop 4 x) \<noteq> lit ''ssh-ed25519'' then Inr (False, out)
     else bindr (packetparser_uint32 x (int (length x)) 15) (\<lambda>(pos, len).
       if uint len \<noteq> n then Inr (False, out)
       else
         bindr (packetparser_copy x (int (length x)) pos out (uint len)) (\<lambda>(pos, out).
         bindr (packetparser_end x (int (length x)) pos) (\<lambda>pos. Inr (True, out)))))"
proof (cases "4 \<le> length x")
  case True
  define len :: u32 where "len = unpack_be (take 4 x)"
  have u: "packetparser_uint32 x (int (length x)) 0 = Inr (4, len)"
    using assms True by (simp add: packetparser_uint32_eq parser_bad_def len_def)
  have sk: "packetparser_skip x (int (length x)) 4 (uint len) =
      (if uint len > 1073741824 then Inl Einval else if 4 + uint len > int (length x) then Inl Eproto else Inr (4 + uint len))"
    using assms by (auto simp: packetparser_skip_def parser_bad_def)
  have eq: "str_equaln (drop 4 x) (uint len) ed25519_name =
      Inr (if take (nat (uint len)) (drop 4 x) = lit ''ssh-ed25519'' then 1 else 0)"
    if "4 + uint len \<le> int (length x)"
    using that True by (intro ed25519_equaln) auto
  show ?thesis
    using True ed25519_name_taken [of len x] unfolding ed25519_parse_def u Let_def len_def [symmetric]
    by (auto simp: sk eq)
qed (use assms in \<open>auto simp: ed25519_parse_def packetparser_uint32_eq parser_bad_def Let_def\<close>)

lemma ed25519_parse_rest:
  assumes "length x \<le> 1073741824" and "x \<noteq> []" and "int (length out) = n"
  shows "bindr (packetparser_uint32 x (int (length x)) 15) (\<lambda>(pos, len).
       if uint len \<noteq> n then Inr (False, out)
       else
         bindr (packetparser_copy x (int (length x)) pos out (uint len)) (\<lambda>(pos, out).
         bindr (packetparser_end x (int (length x)) pos) (\<lambda>pos. Inr (True, out)))) = Inr (True, k) \<longleftrightarrow>
    int (length x) = 19 + n \<and> uint (unpack_be (take 4 (drop 15 x)) :: u32) = n \<and> k = drop 19 x"
  using assms
  by (auto simp: packetparser_uint32_eq packetparser_copy_eq packetparser_end_def parser_bad_def bindr_eq_Inr split: if_splits)

lemma ed25519_parse_iff:
  assumes "length x \<le> 1073741824" and "x \<noteq> []" and "int (length out) = n"
  shows "ed25519_parse n out x (int (length x)) = Inr (True, k) \<longleftrightarrow> int (length k) = n \<and> x = ed25519_blob k"
proof
  assume "ed25519_parse n out x (int (length x)) = Inr (True, k)"
  then have f: "4 \<le> length x" "4 + uint (unpack_be (take 4 x) :: u32) \<le> int (length x)"
      "take (nat (uint (unpack_be (take 4 x) :: u32))) (drop 4 x) = lit ''ssh-ed25519''"
      "int (length x) = 19 + n" "uint (unpack_be (take 4 (drop 15 x)) :: u32) = n" "k = drop 19 x"
    unfolding ed25519_parse_first [OF assms(1,2)] Let_def
    by (simp_all add: ed25519_parse_rest [OF assms] split: if_splits)
  have l: "uint (unpack_be (take 4 x) :: u32) = 11" using f(3,2) by (rule ed25519_name_taken)
  have lk: "int (length k) = n" using f(4,6) assms(3) by auto
  have w: "w = word_of_nat m" if "uint (w :: u32) = int m" for w m
    by (metis that word_of_int_uint of_int_of_nat_eq)
  have "uint32_pack_big (unpack_be (take 4 x)) = take 4 x" "uint32_pack_big (unpack_be (take 4 (drop 15 x))) = take 4 (drop 15 x)"
    using f(1,4) assms(3) by (auto intro!: uint32_pack_big_unpack)
  then have "take 4 x = uint32_pack_big 11" "take 4 (drop 15 x) = uint32_pack_big (of_nat (length k))"
    using w [of "unpack_be (take 4 x)" 11] w [of "unpack_be (take 4 (drop 15 x))" "length k"] l f(5) lk by simp_all
  moreover have "x = take 4 x @ take 11 (drop 4 x) @ take 4 (drop 15 x) @ drop 19 x"
    using append_take_drop_id [of 4 x] append_take_drop_id [of 11 "drop 4 x"] append_take_drop_id [of 4 "drop 15 x"]
    by simp
  ultimately have "x = ed25519_blob k" using f(3,6) l by (simp add: ed25519_blob_eq)
  with lk show "int (length k) = n \<and> x = ed25519_blob k" by blast
next
  assume "int (length k) = n \<and> x = ed25519_blob k"
  then have k: "int (length k) = n" and x: "x = uint32_pack_big 11 @ lit ''ssh-ed25519'' @ uint32_pack_big (of_nat (length k)) @ k"
    by (simp_all add: ed25519_blob_eq)
  have t: "take 4 x = uint32_pack_big 11" "take 11 (drop 4 x) = lit ''ssh-ed25519''"
    "take 4 (drop 15 x) = uint32_pack_big (of_nat (length k))" "drop 19 x = k" "length x = 19 + length k"
    by (simp_all add: x)
  have n: "uint (word_of_nat (length k) :: u32) = n"
    using assms(1) t(5) k by (simp add: unsigned_of_nat take_bit_eq_mod)
  show "ed25519_parse n out x (int (length x)) = Inr (True, k)"
  proof -
    have u: "uint (unpack_be (take 4 x) :: u32) = 11" unfolding t(1) by simp
    note r = ed25519_parse_rest [OF assms, of k, THEN iffD2]
    have c: "\<not> length x < 4" "\<not> (11 :: int) > 1073741824" "\<not> 4 + 11 > int (length x)" "nat 11 = 11"
      using t(5) by simp_all
    show ?thesis
      unfolding ed25519_parse_first [OF assms(1,2)] Let_def u
      apply (simp only: c t(2) if_False simp_thms)
      apply (rule r)
      using t k n by simp
  qed
qed

section \<open>Enabling algorithms, and the invariant of the tables\<close>

text \<open>
  The loops of \<open>main_tinysshd\<close> (port_main_tinysshd.c) that turn the entries of the selected crypto
  types on: \<open>flag |= cryptotype & cryptotypeselected\<close> for every named entry.
\<close>

primrec enable_table :: "('e \<Rightarrow> bytes option) \<Rightarrow> ('e \<Rightarrow> 'e) \<Rightarrow> 'e list \<Rightarrow> 'e list res" where
  "enable_table nm f [] = Inl Oob"
| "enable_table nm f (e # es) =
     (if nm e = None then Inr (e # es) else bindr (enable_table nm f es) (\<lambda>es. Inr (f e # es)))"

definition enable_crypto :: "u32 \<Rightarrow> sshc \<Rightarrow> sshc res" where
  "enable_crypto sel s =
     bindr (enable_table ky_name (\<lambda>k. k\<lparr>ky_flagserver := ky_flagserver k OR (ky_cryptotype k AND sel)\<rparr>) (keys s)) (\<lambda>hs.
     bindr (enable_table ky_name (\<lambda>k. k\<lparr>ky_flagclient := ky_flagclient k OR (ky_cryptotype k AND sel)\<rparr>) hs) (\<lambda>hs.
     bindr (enable_table kx_name (\<lambda>k. k\<lparr>kx_enabled := kx_enabled k OR (kx_cryptotype k AND sel)\<rparr>) (kexs s)) (\<lambda>ks.
     bindr (enable_table ci_name (\<lambda>k. k\<lparr>ci_enabled := ci_enabled k OR (ci_cryptotype k AND sel)\<rparr>) (ciphers s)) (\<lambda>cs.
       Inr (s\<lparr>kexs := ks, keys := hs, ciphers := cs\<rparr>)))))"

definition kex_static :: "kex \<Rightarrow> kex" where
  "kex_static k = k\<lparr>kx_enabled := 0\<rparr>"

definition key_static :: "key \<Rightarrow> key" where
  "key_static k = k\<lparr>ky_publickey := replicate 32 0, ky_flagserver := 0, ky_flagclient := 0\<rparr>"

definition cipher_static :: "cipher \<Rightarrow> cipher" where
  "cipher_static c = c\<lparr>ci_enabled := 0\<rparr>"

text \<open>
  Only the flags and the public key of an entry change, and a selected entry is a named entry of
  its table.
\<close>

definition wf_sshc :: "sshc \<Rightarrow> bool" where
  "wf_sshc s \<longleftrightarrow>
     map kex_static (kexs s) = sshcrypto_kexs \<and> map key_static (keys s) = sshcrypto_keys \<and>
     map cipher_static (ciphers s) = sshcrypto_ciphers \<and>
     (\<forall>k. kex_sel s = Some k \<longrightarrow> kex_static k \<in> set (butlast sshcrypto_kexs)) \<and>
     (\<forall>i k. key_sel s = Some (i, k) \<longrightarrow> i = 0 \<and> key_static k \<in> set (butlast sshcrypto_keys)) \<and>
     (\<forall>c. cipher_sel s = Some c \<longrightarrow> cipher_static c \<in> set (butlast sshcrypto_ciphers))"

lemma static_names [simp]:
  "kx_name (kex_static k) = kx_name k" "ky_name (key_static h) = ky_name h" "ci_name (cipher_static c) = ci_name c"
  by (simp_all add: kex_static_def key_static_def cipher_static_def)

lemma map_static: "map st tab = t \<Longrightarrow> (\<And>e. nm (st e) = nm e) \<Longrightarrow> map nm tab = map nm t"
  by auto

lemma wf_sshc_names:
  assumes "wf_sshc s"
  shows "map kx_name (kexs s) = map kx_name sshcrypto_kexs" "map ky_name (keys s) = map ky_name sshcrypto_keys"
    "map ci_name (ciphers s) = map ci_name sshcrypto_ciphers"
  using assms unfolding wf_sshc_def
  by (intro map_static [where st = kex_static] map_static [where st = key_static] map_static [where st = cipher_static], simp_all)+

lemma table_lookup_set:
  "table_lookup nm en tab i x = Some (j, e) \<Longrightarrow> i \<le> j \<and> j < i + length tab \<and> tab ! (j - i) = e \<and> nm e \<noteq> None"
  by (induction tab arbitrary: i) (fastforce simp: nth_Cons' split: option.splits if_splits)+

lemma negotiate_Some: "negotiate look ns = Some e \<Longrightarrow> \<exists>n \<in> set ns. look n = Some e"
  by (induction ns) (auto split: option.splits)

lemma enable_table_static:
  "(\<And>e. st (f e) = st e) \<Longrightarrow> (\<And>e. nm (st e) = nm e) \<Longrightarrow> map st tab = t \<Longrightarrow> (\<exists>ns. named_by nm t ns) \<Longrightarrow>
   \<exists>tab'. enable_table nm f tab = Inr tab' \<and> map st tab' = t"
proof (induction tab arbitrary: t)
  case (Cons e tab)
  from Cons.prems(3) obtain a as where t: "t = a # as" "st e = a" "map st tab = as" by auto
  obtain ns where ns: "named_by nm t ns" using Cons.prems(4) by blast
  show ?case
  proof (cases "nm e = None")
    case False
    have "nm a = nm e" using t(2) Cons.prems(2) by blast
    with ns [unfolded t(1)] False obtain ns' where "named_by nm as ns'" by (cases rule: named_by_cases) auto
    then obtain tab' where "enable_table nm f tab = Inr tab'" "map st tab' = as"
      using Cons.IH [OF Cons.prems(1,2) t(3)] by auto
    then show ?thesis using False t Cons.prems(1) by auto
  qed (use t in auto)
qed auto

lemma enable_crypto_wf:
  assumes "wf_sshc s"
  shows "\<exists>s'. enable_crypto sel s = Inr s' \<and> wf_sshc s' \<and> kex_sel s' = kex_sel s \<and> key_sel s' = key_sel s \<and>
    cipher_sel s' = cipher_sel s"
proof -
  have st: "map kex_static (kexs s) = sshcrypto_kexs" "map key_static (keys s) = sshcrypto_keys"
    "map cipher_static (ciphers s) = sshcrypto_ciphers" using assms by (simp_all add: wf_sshc_def)
  obtain hs where hs: "enable_table ky_name (\<lambda>k. k\<lparr>ky_flagserver := ky_flagserver k OR (ky_cryptotype k AND sel)\<rparr>) (keys s) = Inr hs"
    "map key_static hs = sshcrypto_keys"
    using enable_table_static [OF _ static_names(2) st(2) key.named,
        of "\<lambda>k. k\<lparr>ky_flagserver := ky_flagserver k OR (ky_cryptotype k AND sel)\<rparr>"] by (auto simp: key_static_def)
  obtain hs' where hs': "enable_table ky_name (\<lambda>k. k\<lparr>ky_flagclient := ky_flagclient k OR (ky_cryptotype k AND sel)\<rparr>) hs = Inr hs'"
    "map key_static hs' = sshcrypto_keys"
    using enable_table_static [OF _ static_names(2) hs(2) key.named,
        of "\<lambda>k. k\<lparr>ky_flagclient := ky_flagclient k OR (ky_cryptotype k AND sel)\<rparr>"] by (auto simp: key_static_def)
  obtain ks where ks: "enable_table kx_name (\<lambda>k. k\<lparr>kx_enabled := kx_enabled k OR (kx_cryptotype k AND sel)\<rparr>) (kexs s) = Inr ks"
    "map kex_static ks = sshcrypto_kexs"
    using enable_table_static [OF _ static_names(1) st(1) kex.named,
        of "\<lambda>k. k\<lparr>kx_enabled := kx_enabled k OR (kx_cryptotype k AND sel)\<rparr>"] by (auto simp: kex_static_def)
  obtain cs where cs: "enable_table ci_name (\<lambda>k. k\<lparr>ci_enabled := ci_enabled k OR (ci_cryptotype k AND sel)\<rparr>) (ciphers s) = Inr cs"
    "map cipher_static cs = sshcrypto_ciphers"
    using enable_table_static [OF _ static_names(3) st(3) cipher.named,
        of "\<lambda>k. k\<lparr>ci_enabled := ci_enabled k OR (ci_cryptotype k AND sel)\<rparr>"] by (auto simp: cipher_static_def)
  show ?thesis using assms hs hs' ks cs by (simp add: enable_crypto_def wf_sshc_def)
qed

lemma sshc_start_wf: "wf_sshc sshc_start"
  by (simp add: wf_sshc_def sshc_start_def sshcrypto_kexs_def sshcrypto_keys_def sshcrypto_ciphers_def
      kex_static_def key_static_def cipher_static_def kex_curve25519_def kex_sntrup_def kex_zero_def key_zero_def
      cipher_zero_def)

text \<open>An entry found in a table whose static part is \<open>t\<close> is one of the named entries of \<open>t\<close>.\<close>

lemma table_lookup_static:
  assumes "table_lookup nm en tab 0 n = Some (i, e)" and "map st tab = t @ [z]" and "nm (st e) = nm e" and "nm z = None"
    and "\<And>e. nm (st e) = nm e"
  shows "i < length t \<and> st e \<in> set t"
proof -
  have e: "i < length tab" "tab ! i = e" "nm e \<noteq> None" using table_lookup_set [OF assms(1)] by auto
  have l: "length tab = Suc (length t)" using arg_cong [OF assms(2), of length] by simp
  have n: "st e = (t @ [z]) ! i" using e(1,2) assms(2) by (metis nth_map)
  have "i \<noteq> length t" using n e(3) assms(3,4) by auto
  then have "i < length t" using e(1) l by simp
  then show ?thesis using n by (simp add: nth_append)
qed

lemma butlast_tables:
  "sshcrypto_kexs = butlast sshcrypto_kexs @ [kex_zero]" "sshcrypto_keys = butlast sshcrypto_keys @ [key_zero]"
  "sshcrypto_ciphers = butlast sshcrypto_ciphers @ [cipher_zero]" "length (butlast sshcrypto_keys) = 1"
  by (simp_all add: sshcrypto_kexs_def sshcrypto_keys_def sshcrypto_ciphers_def)

lemma zero_names [simp]: "kx_name kex_zero = None" "ky_name key_zero = None" "ci_name cipher_zero = None"
  by (simp_all add: kex_zero_def key_zero_def cipher_zero_def)

lemma rd1_InrD: "rd1 m i = Inr c \<Longrightarrow> 0 \<le> i \<and> i < int (length m) \<and> c = m ! nat i"
  by (auto simp: rd1_def split: if_splits)

text \<open>A select function under a successful test of the byte behind the list.\<close>

lemma select_found:
  assumes "name_table nm tbl" and "select_loop nm en tab m len 0 1 = Inr (Some (i, e), g)" and "rd1 m len = Inr c"
    and "length m \<le> 1073741823" and "map nm tab = map nm tbl" and "map st tab = t @ [z]" and "nm z = None"
    and "\<And>e. nm (st e) = nm e"
  shows "i < length t \<and> st e \<in> set t"
proof -
  have "0 \<le> len" "len < int (length m)" "m \<noteq> []" using rd1_InrD [OF assms(3)] by auto
  then have "negotiate (table_lookup nm en tab 0) (list_items (take (nat len) m)) = Some (i, e)"
    using assms(2,4) name_table.select_eq [OF assms(1,5), of m len 0 en 1] by (auto simp: Let_def)
  then obtain n where "table_lookup nm en tab 0 n = Some (i, e)" using negotiate_Some by metis
  then show ?thesis using assms(6,8,7) by (rule table_lookup_static [where st = st]) (rule assms(8))
qed

lemma sshcrypto_kex_select_wf:
  assumes "wf_sshc s" and "length m \<le> 1073741823" and "sshcrypto_kex_select s m len g = Inr (r, s', g')"
  shows "wf_sshc s' \<and> (r \<longrightarrow> kex_sel s' \<noteq> None) \<and> key_sel s' = key_sel s \<and> cipher_sel s' = cipher_sel s"
proof (cases "kex_sel s = None \<and> r")
  case True
  with assms(3) obtain c i k g'' where f: "rd1 m len = Inr c"
    "select_loop kx_name (\<lambda>k. kx_enabled k \<noteq> 0) (kexs s) m len 0 1 = Inr (Some (i, k), g'')"
    "s' = s\<lparr>kex_sel := Some k\<rparr>"
    by (auto simp: sshcrypto_kex_select_def bindr_eq_Inr split: if_splits option.splits)
  have "map kex_static (kexs s) = butlast sshcrypto_kexs @ [kex_zero]"
    using assms(1) by (simp add: wf_sshc_def flip: butlast_tables)
  then have "kex_static k \<in> set (butlast sshcrypto_kexs)"
    using select_found [OF kex.name_table_axioms f(2,1) assms(2) wf_sshc_names(1) [OF assms(1)]] by simp
  then show ?thesis using assms(1) f(3) by (simp add: wf_sshc_def)
next
  case False
  then have "s' = s" using assms(3)
    by (auto simp: sshcrypto_kex_select_def bindr_eq_Inr split: if_splits option.splits)
  then show ?thesis using assms(1,3) False by auto
qed

lemma sshcrypto_key_select_wf:
  assumes "wf_sshc s" and "length m \<le> 1073741823" and "sshcrypto_key_select s m len = Inr (r, s')"
  shows "wf_sshc s' \<and> (r \<longrightarrow> key_sel s' \<noteq> None) \<and> kex_sel s' = kex_sel s \<and> cipher_sel s' = cipher_sel s"
proof (cases "key_sel s = None \<and> r")
  case True
  with assms(3) obtain c i k g'' where f: "rd1 m len = Inr c"
    "select_loop ky_name (\<lambda>k. ky_flagserver k \<noteq> 0) (keys s) m len 0 1 = Inr (Some (i, k), g'')"
    "s' = s\<lparr>key_sel := Some (i, k)\<rparr>"
    by (auto simp: sshcrypto_key_select_def bindr_eq_Inr split: if_splits option.splits)
  have "map key_static (keys s) = butlast sshcrypto_keys @ [key_zero]"
    using assms(1) by (simp add: wf_sshc_def flip: butlast_tables)
  then have "i < length (butlast sshcrypto_keys) \<and> key_static k \<in> set (butlast sshcrypto_keys)"
    by (rule select_found [OF key.name_table_axioms f(2,1) assms(2) wf_sshc_names(2) [OF assms(1)]]) simp_all
  then show ?thesis using assms(1) f(3) unfolding butlast_tables(4) by (simp add: wf_sshc_def)
next
  case False
  then have "s' = s" using assms(3)
    by (auto simp: sshcrypto_key_select_def bindr_eq_Inr split: if_splits option.splits)
  then show ?thesis using assms(1,3) False by auto
qed

lemma sshcrypto_cipher_select_wf:
  assumes "wf_sshc s" and "length m \<le> 1073741823" and "sshcrypto_cipher_select s m len = Inr (r, s')"
  shows "wf_sshc s' \<and> (r \<longrightarrow> cipher_sel s' \<noteq> None) \<and> kex_sel s' = kex_sel s \<and> key_sel s' = key_sel s"
proof (cases "cipher_sel s = None \<and> r")
  case True
  with assms(3) obtain c i k g'' where f: "rd1 m len = Inr c"
    "select_loop ci_name (\<lambda>k. ci_enabled k \<noteq> 0) (ciphers s) m len 0 1 = Inr (Some (i, k), g'')"
    "s' = s\<lparr>cipher_sel := Some k\<rparr>"
    by (auto simp: sshcrypto_cipher_select_def bindr_eq_Inr split: if_splits option.splits)
  have "map cipher_static (ciphers s) = butlast sshcrypto_ciphers @ [cipher_zero]"
    using assms(1) by (simp add: wf_sshc_def flip: butlast_tables)
  then have "cipher_static k \<in> set (butlast sshcrypto_ciphers)"
    using select_found [OF cipher.name_table_axioms f(2,1) assms(2) wf_sshc_names(3) [OF assms(1)]] by simp
  then show ?thesis using assms(1) f(3) by (simp add: wf_sshc_def)
next
  case False
  then have "s' = s" using assms(3)
    by (auto simp: sshcrypto_cipher_select_def bindr_eq_Inr split: if_splits option.splits)
  then show ?thesis using assms(1,3) False by auto
qed

lemma sshcrypto_init_ok: "wf_sshc s \<Longrightarrow> sshcrypto_init s = Inr ()"
proof -
  assume "wf_sshc s"
  then have m: "map kex_static (kexs s) = sshcrypto_kexs" "map key_static (keys s) = sshcrypto_keys"
    "map cipher_static (ciphers s) = sshcrypto_ciphers" by (simp_all add: wf_sshc_def)
  have "init_kexs (map kex_static ks) = init_kexs ks" for ks by (induction ks) (auto simp: kex_static_def)
  moreover have "init_ciphers (map cipher_static cs) = init_ciphers cs" for cs
    by (induction cs) (auto simp: cipher_static_def)
  moreover have "init_keys (map key_static hs) = init_keys hs" for hs
  proof (induction hs)
    case (Cons h hs)
    have "ky_publickeybytes (key_static h) = ky_publickeybytes h" "ky_secretkeybytes (key_static h) = ky_secretkeybytes h"
      "ky_bytes (key_static h) = ky_bytes h" by (simp_all add: key_static_def)
    then show ?case using Cons by (simp only: list.map init_keys.simps static_names)
  qed simp
  moreover have "init_kexs sshcrypto_kexs = Inr ()"
    by (simp add: sshcrypto_kexs_def kex_curve25519_def kex_sntrup_def kem_PUBLICKEYMAX_def kem_CIPHERTEXTMAX_def)
  moreover have "init_ciphers sshcrypto_ciphers = Inr ()" by (simp add: sshcrypto_ciphers_def)
  moreover have "init_keys sshcrypto_keys = Inr ()"
    using ed25519_name_len by (simp add: sshcrypto_keys_def ed25519_name_def)
  ultimately show ?thesis using m unfolding sshcrypto_init_def by (metis bindr_Inr)
qed

lemma purge_table_ok:
  "named_by nm tab ns \<Longrightarrow> nm z = None \<Longrightarrow>
   \<exists>e es. purge_table nm z tab = Inr (e # es) \<and> nm e = None"
proof (induction tab arbitrary: ns)
  case (Cons e tab)
  from Cons.prems(1) show ?case
  proof (cases rule: named_by_cases)
    case (2 s ns')
    then show ?thesis using Cons.IH [OF 2(4) Cons.prems(2)] Cons.prems(2) by auto
  qed auto
qed simp

lemma sshcrypto_purge_ok:
  assumes "wf_sshc s"
  shows "\<exists>s' e es. sshcrypto_purge s = Inr s' \<and> kexs s' = e # es \<and> kx_name e = None \<and> kex_sel s' = kex_sel s"
proof -
  note n = wf_sshc_names [OF assms]
  obtain ns1 where "named_by kx_name (kexs s) ns1" using n(1) by (rule kex.table_named)
  then obtain k ks where k: "purge_table kx_name kex_zero (kexs s) = Inr (k # ks)" "kx_name k = None"
    using purge_table_ok [of kx_name "kexs s" ns1 kex_zero] by auto
  obtain ns2 where "named_by ky_name (keys s) ns2" using n(2) by (rule key.table_named)
  then obtain h where h: "purge_table ky_name key_zero (keys s) = Inr h"
    using purge_table_ok [of ky_name "keys s" ns2 key_zero] by auto
  obtain ns3 where "named_by ci_name (ciphers s) ns3" using n(3) by (rule cipher.table_named)
  then obtain c where c: "purge_table ci_name cipher_zero (ciphers s) = Inr c"
    using purge_table_ok [of ci_name "ciphers s" ns3 cipher_zero] by auto
  show ?thesis using k h c by (simp add: sshcrypto_purge_def)
qed

section \<open>Properties\<close>

text \<open>
  C17. The tables stay well formed: the tables the program starts with are, enabling algorithms
  keeps them so and never fails, \<open>sshcrypto_init\<close> accepts them, and a successful selection of key
  exchange, host key and cipher keeps them so and leaves a named entry of the table selected.
\<close>

theorem sshc_invariant:
  assumes "wf_sshc s" and "length m \<le> 1073741823"
  shows "wf_sshc sshc_start \<and> sshcrypto_init s = Inr () \<and>
    (\<exists>s'. enable_crypto sel s = Inr s' \<and> wf_sshc s') \<and>
    (\<forall>r s' g'. sshcrypto_kex_select s m len g = Inr (r, s', g') \<longrightarrow> wf_sshc s' \<and> (r \<longrightarrow> kex_sel s' \<noteq> None)) \<and>
    (\<forall>r s'. sshcrypto_key_select s m len = Inr (r, s') \<longrightarrow> wf_sshc s' \<and> (r \<longrightarrow> key_sel s' \<noteq> None)) \<and>
    (\<forall>r s'. sshcrypto_cipher_select s m len = Inr (r, s') \<longrightarrow> wf_sshc s' \<and> (r \<longrightarrow> cipher_sel s' \<noteq> None))"
  using sshc_start_wf sshcrypto_init_ok [OF assms(1)] enable_crypto_wf [OF assms(1), of sel]
    sshcrypto_kex_select_wf [OF assms] sshcrypto_key_select_wf [OF assms] sshcrypto_cipher_select_wf [OF assms]
  by blast

theorem sshc_invariant_witness:
  "\<exists>s'. enable_crypto TYPENEWCRYPTO sshc_start = Inr s' \<and> wf_sshc s'"
  using sshc_invariant [OF sshc_start_wf, of "[]" TYPENEWCRYPTO] by simp

text \<open>
  C16. \<open>sshcrypto_kex_select\<close> chooses the first algorithm of the client's list that the server has
  enabled and sets the guess flag exactly if that is the first name of the list (or the list is
  empty); without a common name it fails and selects nothing.
\<close>

theorem kex_select_first_common:
  assumes "wf_sshc s" and "kex_sel s = None" and "0 \<le> len" and "len < int (length m)" and "m ! nat len = 0"
    and "length m \<le> 1073741823"
  shows "sshcrypto_kex_select s m len g =
     (let items = list_items (take (nat len) m); look = table_lookup kx_name (\<lambda>k. kx_enabled k \<noteq> 0) (kexs s) 0;
          guess = (if items = [] \<or> look (hd items) \<noteq> None then 1 else 0)
      in case negotiate look items of
           None \<Rightarrow> Inr (False, s, guess)
         | Some (i, k) \<Rightarrow> Inr (True, s\<lparr>kex_sel := Some k\<rparr>, guess)) \<and>
    (negotiate (table_lookup kx_name (\<lambda>k. kx_enabled k \<noteq> 0) (kexs s) 0) (list_items (take (nat len) m)) = None \<longleftrightarrow>
       set (list_items (take (nat len) m)) \<inter> set (enabled_names kx_name (\<lambda>k. kx_enabled k \<noteq> 0) (kexs s)) = {})"
proof -
  have ne: "m \<noteq> []" using assms(3,4) by auto
  note names = wf_sshc_names(1) [OF assms(1)]
  show ?thesis
    using assms ne kex.select_eq [OF names ne, of len 0 1] kex.negotiate_common [OF names]
    by (simp add: sshcrypto_kex_select_def rd1_in Let_def split: option.splits)
qed

theorem kex_select_first_common_witness:
  "\<exists>s. enable_crypto TYPENEWCRYPTO sshc_start = Inr s \<and>
     sshcrypto_kex_select s (lit ''foo,curve25519-sha256'' @ [0]) 21 1 =
       Inr (True, s\<lparr>kex_sel := Some (kex_curve25519 ''curve25519-sha256''\<lparr>kx_enabled := 2\<rparr>)\<rparr>, 0)"
proof -
  obtain s where s: "enable_crypto TYPENEWCRYPTO sshc_start = Inr s" "wf_sshc s" "kex_sel s = None"
    using enable_crypto_wf [OF sshc_start_wf, of TYPENEWCRYPTO] by (auto simp: sshc_start_def)
  then have k: "kexs s = [kex_curve25519 ''curve25519-sha256''\<lparr>kx_enabled := 2\<rparr>,
      kex_curve25519 ''curve25519-sha256@libssh.org''\<lparr>kx_enabled := 2\<rparr>, kex_sntrup, kex_zero]"
    by (auto simp: enable_crypto_def bindr_eq_Inr sshc_start_def sshcrypto_kexs_def kex_curve25519_def kex_sntrup_def
        TYPENEWCRYPTO_def TYPEPQCRYPTO_def)
  have i: "list_items (lit ''foo,curve25519-sha256'') = [lit ''foo'', lit ''curve25519-sha256'']"
    using list_items_comma_join [of "[lit ''foo'', lit ''curve25519-sha256'']"]
    by (simp add: comma_join_def clean_name_def)
  have l: "table_lookup kx_name (\<lambda>k. kx_enabled k \<noteq> 0) (kexs s) 0 (lit ''foo'') = None"
    "table_lookup kx_name (\<lambda>k. kx_enabled k \<noteq> 0) (kexs s) 0 (lit ''curve25519-sha256'') =
      Some (0, kex_curve25519 ''curve25519-sha256''\<lparr>kx_enabled := 2\<rparr>)"
    by (simp_all add: k kex_curve25519_def kex_sntrup_def cstr_def)
  define m where "m = lit ''foo,curve25519-sha256'' @ [0]"
  have t: "take (nat 21) m = lit ''foo,curve25519-sha256''" and "length m = 22" "m ! nat 21 = 0"
    by (simp_all add: m_def)
  then have "sshcrypto_kex_select s m 21 1 =
      Inr (True, s\<lparr>kex_sel := Some (kex_curve25519 ''curve25519-sha256''\<lparr>kx_enabled := 2\<rparr>)\<rparr>, 0)"
    using kex_select_first_common [OF s(2,3), of 21 m 1] unfolding t i Let_def
    by (simp add: l del: lit_Cons)
  then show ?thesis unfolding m_def using s(1) by blast
qed

text \<open>
  The lists the server sends contain exactly its enabled names in the order of the table: a
  peer that splits the SSH string at the commas gets them back.
\<close>

theorem name_lists_roundtrip:
  assumes "wf_sshc s" and "wf_buf b"
  shows "sshcrypto_kex_put s b =
      bindr (bput b (ssh_string (comma_join (enabled_names kx_name (\<lambda>k. kx_enabled k \<noteq> 0) (kexs s))))) (\<lambda>b. Inr (zterm b)) \<and>
    list_items (comma_join (enabled_names kx_name (\<lambda>k. kx_enabled k \<noteq> 0) (kexs s))) =
      enabled_names kx_name (\<lambda>k. kx_enabled k \<noteq> 0) (kexs s) \<and>
    sshcrypto_key_put s b =
      bindr (bput b (ssh_string (comma_join (enabled_names ky_name (\<lambda>k. ky_flagserver k \<noteq> 0) (keys s))))) (\<lambda>b. Inr (zterm b)) \<and>
    list_items (comma_join (enabled_names ky_name (\<lambda>k. ky_flagserver k \<noteq> 0) (keys s))) =
      enabled_names ky_name (\<lambda>k. ky_flagserver k \<noteq> 0) (keys s) \<and>
    sshcrypto_cipher_put s b =
      bindr (bput b (ssh_string (comma_join (enabled_names ci_name (\<lambda>k. ci_enabled k \<noteq> 0) (ciphers s))))) (\<lambda>b. Inr (zterm b)) \<and>
    list_items (comma_join (enabled_names ci_name (\<lambda>k. ci_enabled k \<noteq> 0) (ciphers s))) =
      enabled_names ci_name (\<lambda>k. ci_enabled k \<noteq> 0) (ciphers s)"
proof -
  note n = wf_sshc_names [OF assms(1)]
  show ?thesis
    unfolding sshcrypto_kex_put_def sshcrypto_key_put_def sshcrypto_cipher_put_def
    using kex.put_eq [OF n(1) assms(2)] kex.put_items [OF n(1)] key.put_eq [OF n(2) assms(2)] key.put_items [OF n(2)]
      cipher.put_eq [OF n(3) assms(2)] cipher.put_items [OF n(3)] by blast
qed

theorem name_lists_roundtrip_witness:
  "list_items (comma_join (enabled_names kx_name (\<lambda>k. kx_enabled k \<noteq> 0) (kexs sshc_start))) =
    enabled_names kx_name (\<lambda>k. kx_enabled k \<noteq> 0) (kexs sshc_start)"
proof -
  have "wf_buf \<lparr>bmem = replicate 8 0, blen = 0, balloc = 8\<rparr>" by (simp add: wf_buf_def)
  from name_lists_roundtrip [OF sshc_start_wf this] show ?thesis by blast
qed

text \<open>
  \<open>ed25519_parsesignpk\<close> and \<open>ed25519_parsesignature\<close> accept exactly the encodings that
  \<open>ed25519_putsignpk\<close> and \<open>ed25519_putsignature\<close> write, with the key or signature put.
\<close>

theorem ed25519_encoding:
  assumes "wf_buf b" and "length k = n" and "n = 32 \<or> n = 64" and "x \<noteq> []" and "length x \<le> 1073741824"
    and "length out = n"
  shows "(if n = 32 then ed25519_putsignpk b k else ed25519_putsignature b k) = bput b (ssh_string (ed25519_blob k)) \<and>
    ((if n = 32 then ed25519_parsesignpk out x (int (length x)) else ed25519_parsesignature out x (int (length x))) =
      Inr (True, k) \<longleftrightarrow> x = ed25519_blob k)"
  using assms ed25519_put_eq [OF assms(1), of k] ed25519_parse_iff [OF assms(5,4), of out "int n" k]
  by (auto simp: ed25519_parsesignpk_def ed25519_parsesignature_def)

theorem ed25519_encoding_witness:
  "ed25519_parsesignpk (replicate 32 0) (ed25519_blob (replicate 32 7)) 51 = Inr (True, replicate 32 7)"
proof -
  let ?k = "replicate 32 (7 :: u8)"
  have l: "length (ed25519_blob ?k) = 51" by (simp add: ed25519_blob_def ssh_string_def)
  then have "ed25519_blob ?k \<noteq> []" by force
  moreover have "wf_buf \<lparr>bmem = replicate 8 0, blen = 0, balloc = 8\<rparr>" by (simp add: wf_buf_def)
  ultimately show ?thesis
    using ed25519_encoding [of "\<lparr>bmem = replicate 8 0, blen = 0, balloc = 8\<rparr>" ?k 32 "ed25519_blob ?k" "replicate 32 0"] l
    by simp
qed

text \<open>
  After \<open>sshcrypto_purge\<close>, which a session runs when it ends, the tables have no named entry:
  the server's lists are empty and no client algorithm is found, while a selection made earlier
  stays in force and is reported as success whatever the next client offers.
\<close>

theorem sshcrypto_purge_empties:
  assumes "wf_sshc s" and "wf_buf b"
  shows "\<exists>s'. sshcrypto_purge s = Inr s' \<and> kex_sel s' = kex_sel s \<and>
    enabled_names kx_name (\<lambda>k. kx_enabled k \<noteq> 0) (kexs s') = [] \<and>
    sshcrypto_kex_put s' b = bindr (bput b (ssh_string [])) (\<lambda>b. Inr (zterm b)) \<and>
    (\<forall>x. table_find kx_name (\<lambda>k. kx_enabled k \<noteq> 0) (kexs s') 0 x (int (length x)) = Inr None) \<and>
    (\<forall>m len g. kex_sel s \<noteq> None \<longrightarrow> sshcrypto_kex_select s' m len g = Inr (True, s', g))"
proof -
  obtain s' e es where p: "sshcrypto_purge s = Inr s'" "kexs s' = e # es" "kx_name e = None" "kex_sel s' = kex_sel s"
    using sshcrypto_purge_ok [OF assms(1)] by blast
  have "sshcrypto_kex_put s' b = bindr (bput b (ssh_string [])) (\<lambda>b. bindr (wr1 (bmem b) (blen b) 0) (\<lambda>m. Inr (b\<lparr>bmem := m\<rparr>)))"
    using assms(2) p by (simp add: sshcrypto_kex_put_def table_put_def buf_putnum32_eq ssh_string_def)
  also have "\<dots> = bindr (bput b (ssh_string [])) (\<lambda>b. Inr (zterm b))"
    using wf_bufD [OF wf_bput [OF assms(2), of "ssh_string []"]]
    by (cases "bput b (ssh_string [])") (simp_all add: wr1_in zterm_def)
  finally show ?thesis using p by (intro exI [of _ s']) (auto simp: sshcrypto_kex_select_def)
qed

theorem sshcrypto_purge_empties_witness:
  "\<exists>s'. sshcrypto_purge sshc_start = Inr s' \<and> enabled_names kx_name (\<lambda>k. kx_enabled k \<noteq> 0) (kexs s') = []"
proof -
  have "wf_buf \<lparr>bmem = replicate 8 0, blen = 0, balloc = 8\<rparr>" by (simp add: wf_buf_def)
  from sshcrypto_purge_empties [OF sshc_start_wf this] show ?thesis by blast
qed

end
