(* ===== verification/X25519.thy ===== *)
theory X25519
  imports Fe25519 Sshcrypto
begin

text \<open>
  crypto_scalarmult_curve25519.c, the key agreement wrappers of glo_kex.c and the key encapsulation of
  sshcrypto_kex_curve25519.c. The result array and the return value of a function are a pair. The ladder is
  compared with the one of RFC 7748, section 5, over the integers modulo \<open>2 ^ 255 - 19\<close>.
\<close>

unbundle bit_operations_syntax

section \<open>crypto_scalarmult_curve25519.c\<close>

type_synonym ladder = "fe \<times> fe \<times> fe \<times> fe \<times> u32"

definition clamp :: "bytes \<Rightarrow> bytes" where
  "clamp n = (let e = take 32 n; e = e[0 := e ! 0 AND 248]; e = e[31 := e ! 31 AND 127] in e[31 := e ! 31 OR 64])"

text \<open>The body of the loop in two parts: the arithmetic, and the exchange that the bit of the scalar asks for.\<close>

definition ladder_arith :: "fe \<Rightarrow> fe \<Rightarrow> fe \<Rightarrow> fe \<Rightarrow> fe \<Rightarrow> fe \<times> fe \<times> fe \<times> fe" where
  "ladder_arith x1 x2 z2 x3 z3 =
     (let tmp0 = fe25519_sub x3 z3; tmp1 = fe25519_sub x2 z2;
          x2 = fe25519_add x2 z2; z2 = fe25519_add x3 z3;
          z3 = fe25519_mul tmp0 x2; z2 = fe25519_mul z2 tmp1;
          tmp0 = fe25519_sq tmp1; tmp1 = fe25519_sq x2;
          x3 = fe25519_add z3 z2; z2 = fe25519_sub z3 z2;
          x2 = fe25519_mul tmp1 tmp0; tmp1 = fe25519_sub tmp1 tmp0;
          z2 = fe25519_sq z2; z3 = fe25519_mul121666 tmp1;
          x3 = fe25519_sq x3; tmp0 = fe25519_add tmp0 z3;
          z3 = fe25519_mul x1 z2; z2 = fe25519_mul tmp1 tmp0
      in (x2, z2, x3, z3))"

definition ladder_step :: "bytes \<Rightarrow> fe \<Rightarrow> nat \<Rightarrow> ladder \<Rightarrow> ladder" where
  "ladder_step e x1 pos = (\<lambda>(x2, z2, x3, z3, swap).
     let b = ucast (drop_bit (pos mod 8) (e ! (pos div 8))); b = b AND 1; swap = swap XOR b;
         (x2, x3) = fe_cswap x2 x3 swap; (z2, z3) = fe_cswap z2 z3 swap; swap = b;
         (x2, z2, x3, z3) = ladder_arith x1 x2 z2 x3 z3
     in (x2, z2, x3, z3, swap))"

text \<open>\<open>d |= q[i]\<close> over the bytes, and \<open>-(1 & ((d - 1) >> 8))\<close> read as an \<open>int\<close>.\<close>

definition or_bytes :: "u32 \<Rightarrow> bytes \<Rightarrow> u32" where
  "or_bytes d q = fold (\<lambda>x d. d OR ucast x) q d"

definition zero_flag :: "u32 \<Rightarrow> int" where
  "zero_flag d = sint (- (1 AND drop_bit 8 (d - 1)))"

definition crypto_scalarmult_curve25519 :: "bytes \<Rightarrow> bytes \<Rightarrow> bytes \<times> int" where
  "crypto_scalarmult_curve25519 n p =
     (let e = clamp n; x1 = fe25519_frombytes p;
          (x2, z2, x3, z3, swap) = fold (ladder_step e x1) (rev [0..<255]) (fe_1, fe_0, x1, fe_1, 0);
          (x2, x3) = fe_cswap x2 x3 swap; (z2, z3) = fe_cswap z2 z3 swap;
          z2 = fe25519_inv z2; x2 = fe25519_mul x2 z2; q = fe25519_tobytes x2
      in (q, zero_flag (or_bytes 0 q)))"

definition basepoint :: bytes where
  "basepoint = (replicate 32 0)[0 := 9]"

definition crypto_scalarmult_curve25519_base :: "bytes \<Rightarrow> bytes \<times> int" where
  "crypto_scalarmult_curve25519_base n = crypto_scalarmult_curve25519 n basepoint"

section \<open>glo_kex.c\<close>

definition glo_x25519_base :: "bytes \<Rightarrow> bytes \<times> int" where
  "glo_x25519_base sk = crypto_scalarmult_curve25519_base sk"

definition glo_x25519 :: "bytes \<Rightarrow> bytes \<Rightarrow> bytes \<times> int" where
  "glo_x25519 sk peer = crypto_scalarmult_curve25519 sk peer"

section \<open>sshcrypto_kex_curve25519.c\<close>

text \<open>The random bytes are a function of the position; the result is the return value, the public value,
  the shared secret and the number of random bytes taken. \<open>r |= ..\<close> is bitwise.\<close>

definition curve25519_enc :: "(nat \<Rightarrow> u8) \<Rightarrow> bytes \<Rightarrow> int \<times> bytes \<times> bytes \<times> nat" where
  "curve25519_enc rnd pk =
     (let onetimesk = map rnd [0..<32]; r = 0;
          (c, s) = crypto_scalarmult_curve25519_base onetimesk; r = r OR s;
          (k, s) = crypto_scalarmult_curve25519 onetimesk pk; r = r OR s;
          d = or_bytes 0 k; r = r OR zero_flag d
      in (r, c, k, 32))"

section \<open>X25519 of RFC 7748\<close>

text \<open>The ladder over residues: one round for a bit of the scalar, the two points exchanged before and after
  it when the bit is set. The code postpones the second exchange to the next round.\<close>

definition rfc_round :: "int \<Rightarrow> int \<times> int \<times> int \<times> int \<Rightarrow> int \<times> int \<times> int \<times> int" where
  "rfc_round x1 = (\<lambda>(x2, z2, x3, z3).
     let A = x2 + z2; AA = A * A; B = x2 - z2; BB = B * B; E = AA - BB; C = x3 + z3; D = x3 - z3; DA = D * A; CB = C * B
     in (AA * BB mod P25519, E * (AA + 121665 * E) mod P25519,
         (DA + CB) * (DA + CB) mod P25519, x1 * ((DA - CB) * (DA - CB)) mod P25519))"

definition exchange :: "bool \<Rightarrow> 'a \<times> 'a \<times> 'a \<times> 'a \<Rightarrow> 'a \<times> 'a \<times> 'a \<times> 'a" where
  "exchange c = (\<lambda>(x2, z2, x3, z3). if c then (x3, z3, x2, z2) else (x2, z2, x3, z3))"

definition rfc_step :: "nat \<Rightarrow> int \<Rightarrow> nat \<Rightarrow> int \<times> int \<times> int \<times> int \<Rightarrow> int \<times> int \<times> int \<times> int" where
  "rfc_step k x1 t s = exchange (bit k t) (rfc_round x1 (exchange (bit k t) s))"

definition rfc_scalar :: "bytes \<Rightarrow> nat" where
  "rfc_scalar k = 2 ^ 254 + 8 * (le_nat k div 8 mod 2 ^ 251)"

definition rfc_u :: "bytes \<Rightarrow> int" where
  "rfc_u u = int (le_nat u mod 2 ^ 255) mod P25519"

definition rfc_x25519 :: "bytes \<Rightarrow> bytes \<Rightarrow> bytes" where
  "rfc_x25519 k u =
     (let (x2, z2, x3, z3) = fold (rfc_step (rfc_scalar k) (rfc_u u)) (rev [0..<255]) (1, 0, rfc_u u, 1)
      in le_bytes 32 (nat (x2 * z2 ^ (p25519 - 2) mod P25519)))"

section \<open>The scalar\<close>

lemma length_clamp: "32 \<le> length n \<Longrightarrow> length (clamp n) = 32"
  by (simp add: clamp_def Let_def)

lemma clamp_nth:
  assumes "length n = 32" and "i < 32"
  shows "clamp n ! i = (if i = 0 then n ! 0 AND 248 else if i = 31 then n ! 31 AND 127 OR 64 else n ! i)"
  using assms by (auto simp: clamp_def Let_def nth_list_update)

lemma bit_le_nat: "i < 8 * length bs \<Longrightarrow> bit (le_nat bs) i = bit (bs ! (i div 8)) (i mod 8)"
proof (induction bs arbitrary: i)
  case (Cons b bs)
  show ?case
  proof (cases "i < 8")
    case True
    have "bit (le_nat (b # bs)) i = bit (take_bit 8 (le_nat (b # bs))) i" using True by (simp add: bit_take_bit_iff)
    also have "take_bit 8 (le_nat (b # bs)) = unat b"
      using unsigned_less [of b, where 'a = nat] by (simp add: take_bit_eq_mod)
    finally show ?thesis using True by (simp add: bit_unsigned_iff)
  next
    case False
    then obtain j where j: "i = j + 8" using le_Suc_ex [of 8 i] by (auto simp: add.commute)
    have "bit (le_nat (b # bs)) (j + 8) = bit (drop_bit 8 (le_nat (b # bs))) j" by (simp add: bit_drop_bit_eq add.commute)
    also have "drop_bit 8 (le_nat (b # bs)) = le_nat bs"
      using unsigned_less [of b, where 'a = nat] by (simp add: drop_bit_eq_div)
    finally show ?thesis using Cons j div_add_self2 [of 8 j] by simp
  qed
qed simp

lemma bit_248: "bit (248 :: u8) i \<longleftrightarrow> 3 \<le> i \<and> i < 8"
proof -
  have "(248 :: u8) = push_bit 3 (mask 5)" by (simp add: mask_eq_exp_minus_1)
  then show ?thesis by (simp only: bit_push_bit_iff bit_mask_iff) auto
qed

lemma bit_127: "bit (127 :: u8) i \<longleftrightarrow> i < 7"
proof -
  have "(127 :: u8) = mask 7" by (simp add: mask_eq_exp_minus_1)
  then show ?thesis by (simp only: bit_mask_iff) auto
qed

lemma bit_64: "bit (64 :: u8) i \<longleftrightarrow> i = 6"
proof -
  have "(64 :: u8) = push_bit 6 1" by simp
  then show ?thesis by (simp only: bit_push_bit_iff bit_1_iff) auto
qed

lemma bit_times_power: "bit (2 ^ k * a :: nat) i \<longleftrightarrow> k \<le> i \<and> bit a (i - k)"
  using bit_push_bit_iff [of k a i] by (simp add: push_bit_eq_mult mult.commute)

lemma bit_power_plus:
  assumes "a < 2 ^ n"
  shows "bit (2 ^ n + a :: nat) i \<longleftrightarrow> i = n \<or> bit a i"
proof -
  have a: "bit a j \<Longrightarrow> j < n" for j using assms by (metis take_bit_nat_eq_self bit_take_bit_iff)
  have "2 ^ n OR a = 2 ^ n + a"
    by (rule disjunctive_add [symmetric]) (use a in \<open>auto simp: bit_exp_iff\<close>)
  then show ?thesis by (auto simp: bit_or_iff bit_exp_iff simp flip: \<open>2 ^ n OR a = 2 ^ n + a\<close>)
qed

lemma bit_rfc_scalar: "bit (rfc_scalar n) i \<longleftrightarrow> i = 254 \<or> 3 \<le> i \<and> i < 254 \<and> bit (le_nat n) i"
proof -
  have "2 ^ 3 * (le_nat n div 2 ^ 3 mod 2 ^ 251) < 2 ^ 254" by simp
  then have "bit (rfc_scalar n) i \<longleftrightarrow> i = 254 \<or> bit (2 ^ 3 * (le_nat n div 2 ^ 3 mod 2 ^ 251)) i"
    using bit_power_plus [of "2 ^ 3 * (le_nat n div 2 ^ 3 mod 2 ^ 251)" 254 i] by (simp add: rfc_scalar_def)
  also have "bit (2 ^ 3 * (le_nat n div 2 ^ 3 mod 2 ^ 251)) i \<longleftrightarrow> 3 \<le> i \<and> i < 254 \<and> bit (le_nat n) i"
    unfolding bit_times_power take_bit_eq_mod [symmetric] drop_bit_eq_div [symmetric] bit_take_bit_iff bit_drop_bit_eq
    by auto
  finally show ?thesis .
qed

lemma bit_clamp:
  assumes "length n = 32" and "i < 255"
  shows "bit (clamp n ! (i div 8)) (i mod 8) = bit (rfc_scalar n) i"
proof -
  have b: "bit (rfc_scalar n) i \<longleftrightarrow> i = 254 \<or> 3 \<le> i \<and> i < 254 \<and> bit (n ! (i div 8)) (i mod 8)"
    using bit_le_nat [of i n] assms unfolding bit_rfc_scalar by simp
  have lt: "i div 8 < 32" using assms by auto
  consider "i < 8" | "8 \<le> i" "i < 248" | "248 \<le> i" by linarith
  then show ?thesis
  proof cases
    case 1
    then show ?thesis unfolding b using bit_248 [of i] by (simp add: clamp_nth assms bit_and_iff) blast
  next
    case 2
    then have "i div 8 \<noteq> 0" "i div 8 \<noteq> 31" by auto
    then show ?thesis unfolding b using 2 lt by (simp add: clamp_nth assms)
  next
    case 3
    then have "i div 8 = 31" "i mod 8 = i - 248" using assms(2) by presburger+
    then show ?thesis unfolding b using 3 assms bit_127 [of "i - 248"] bit_64 [of "i - 248"] by (auto simp: clamp_nth bit_and_iff bit_or_iff)
  qed
qed

section \<open>One round of the ladder\<close>

definition ladder_ok :: "ladder \<Rightarrow> bool" where
  "ladder_ok = (\<lambda>(x2, z2, x3, z3, swap).
     length x2 = 8 \<and> length z2 = 8 \<and> length x3 = 8 \<and> length z3 = 8 \<and> (swap = 0 \<or> swap = 1))"

text \<open>What the state stands for: the second exchange of the last round is still due when \<open>swap\<close> is 1.\<close>

definition ladder_val :: "ladder \<Rightarrow> int \<times> int \<times> int \<times> int" where
  "ladder_val = (\<lambda>(x2, z2, x3, z3, swap). exchange (swap = 1) (fe_val x2, fe_val z2, fe_val x3, fe_val z3))"

lemmas fe_op_val = fe25519_mul_val fe25519_sq_val fe25519_add_val fe25519_sub_val fe25519_mul121666_val
lemmas fe_op_length = fe_op_val(1,3,5,7,9) [THEN fe_reduced_length]

text \<open>The arithmetic of a round; it computes \<open>BB + 121666 * E\<close> where the RFC has \<open>AA + 121665 * E\<close>.\<close>

lemma ladder_arith_val:
  assumes len: "length x1 = 8" "length x2 = 8" "length z2 = 8" "length x3 = 8" "length z3 = 8"
    and r: "ladder_arith x1 x2 z2 x3 z3 = (y2, w2, y3, w3)"
  shows "(fe_val y2, fe_val w2, fe_val y3, fe_val w3) = rfc_round (fe_val x1) (fe_val x2, fe_val z2, fe_val x3, fe_val z3)"
    and "length y2 = 8 \<and> length w2 = 8 \<and> length y3 = 8 \<and> length w3 = 8"
proof -
  have e: "(E :: int) * (BB + 121666 * E) = E * (AA + 121665 * E)" if "E = AA - BB" for AA BB E
    unfolding that by algebra
  show "(fe_val y2, fe_val w2, fe_val y3, fe_val w3) = rfc_round (fe_val x1) (fe_val x2, fe_val z2, fe_val x3, fe_val z3)"
    using r unfolding ladder_arith_def Let_def rfc_round_def prod.case e [OF refl, symmetric]
    by (clarsimp simp: fe_op_val fe_op_length len mod_simps)
  show "length y2 = 8 \<and> length w2 = 8 \<and> length y3 = 8 \<and> length w3 = 8"
    using r unfolding ladder_arith_def Let_def by (clarsimp simp: fe_op_length len)
qed

lemma swap_bit: "(s :: u32) = 0 \<or> s = 1 \<Longrightarrow> (b :: u32) = 0 \<or> b = 1 \<Longrightarrow> s XOR b = (if s = b then 0 else 1)"
  by auto

lemma bit_of_byte: "ucast (drop_bit j (x :: u8)) AND 1 = (if bit x j then 1 else 0 :: u32)"
proof -
  have "ucast (drop_bit j x) AND 1 = (of_bool (odd (ucast (drop_bit j x) :: u32)) :: u32)"
    by (simp only: and_one_eq mod_2_eq_odd)
  also have "odd (ucast (drop_bit j x) :: u32) = bit (ucast (drop_bit j x) :: u32) 0" by (simp only: bit_0)
  also have "\<dots> = bit x j" by (simp add: bit_simps)
  finally show ?thesis by simp
qed

lemma exchange_exchange: "exchange c (exchange d s) = exchange (c \<noteq> d) s"
  by (cases s) (auto simp: exchange_def)

lemma exchange_cswap:
  assumes "length x2 = 8" "length z2 = 8" "length x3 = 8" "length z3 = 8" and "s = 0 \<or> s = 1"
  shows "(let (x2, x3) = fe_cswap x2 x3 s; (z2, z3) = fe_cswap z2 z3 s in f x2 z2 x3 z3) =
    (let (x2, z2, x3, z3) = exchange (s = 1) (x2, z2, x3, z3) in f x2 z2 x3 z3)"
  using assms by (auto simp: fe_cswap_correct exchange_def Let_def)

lemma ladder_step_correct:
  assumes ok: "ladder_ok st" and e: "length n = 32" "pos < 255" and x1: "length x1 = 8"
  shows "ladder_ok (ladder_step (clamp n) x1 pos st)"
    and "ladder_val (ladder_step (clamp n) x1 pos st) = rfc_step (rfc_scalar n) (fe_val x1) pos (ladder_val st)"
proof -
  obtain x2 z2 x3 z3 s where st: "st = (x2, z2, x3, z3, s)" by (cases st)
  have len: "length x2 = 8" "length z2 = 8" "length x3 = 8" "length z3 = 8" and s: "s = 0 \<or> s = 1"
    using ok by (simp_all add: ladder_ok_def st)
  define c where "c = bit (rfc_scalar n) pos"
  define b where "b = (if c then 1 else 0 :: u32)"
  have b: "ucast (drop_bit (pos mod 8) (clamp n ! (pos div 8))) AND 1 = b"
    unfolding bit_of_byte bit_clamp [OF e] b_def c_def ..
  define sw where "sw = s XOR b"
  have sw: "sw = 0 \<or> sw = 1" "(sw = 1) = ((s = 1) \<noteq> c)"
    using s by (auto simp: sw_def b_def)
  obtain y2 w2 y3 w3 where y: "exchange (sw = 1) (x2, z2, x3, z3) = (y2, w2, y3, w3)" by (metis surj_pair)
  have ylen: "length y2 = 8" "length w2 = 8" "length y3 = 8" "length w3 = 8"
    using y len by (auto simp: exchange_def split: if_splits)
  have val: "exchange (sw = 1) (fe_val x2, fe_val z2, fe_val x3, fe_val z3) = (fe_val y2, fe_val w2, fe_val y3, fe_val w3)"
    using y by (auto simp: exchange_def split: if_splits)
  obtain r2 t2 r3 t3 where a: "ladder_arith x1 y2 w2 y3 w3 = (r2, t2, r3, t3)" by (metis surj_pair)
  note A = ladder_arith_val [OF x1 ylen a]
  have cswap: "fe_cswap x2 x3 sw = (y2, y3)" "fe_cswap z2 z3 sw = (w2, w3)"
    using y len sw by (auto simp: fe_cswap_correct exchange_def split: if_splits)
  have step: "ladder_step (clamp n) x1 pos st = (r2, t2, r3, t3, b)"
    unfolding ladder_step_def st Let_def prod.case b sw_def [symmetric] cswap a ..
  have bc: "b = 0 \<or> b = 1" "(b = 1) = c" by (simp_all add: b_def)
  show "ladder_ok (ladder_step (clamp n) x1 pos st)"
    unfolding step using A(2) bc by (simp add: ladder_ok_def)
  have "ladder_val (ladder_step (clamp n) x1 pos st) = exchange c (fe_val r2, fe_val t2, fe_val r3, fe_val t3)"
    by (simp only: step ladder_val_def prod.case bc)
  also have "\<dots> = exchange c (rfc_round (fe_val x1) (exchange (sw = 1) (fe_val x2, fe_val z2, fe_val x3, fe_val z3)))"
    by (simp only: A(1) val)
  also have "\<dots> = exchange c (rfc_round (fe_val x1) (exchange c (ladder_val st)))"
    unfolding sw(2) st ladder_val_def prod.case exchange_exchange by (simp only: neq_commute [of c])
  finally show "ladder_val (ladder_step (clamp n) x1 pos st) = rfc_step (rfc_scalar n) (fe_val x1) pos (ladder_val st)"
    by (simp add: rfc_step_def c_def)
qed

lemma ladder_fold:
  assumes "length n = 32" and "length x1 = 8" and "\<forall>pos\<in>set ps. pos < 255" and "ladder_ok st"
  shows "ladder_ok (fold (ladder_step (clamp n) x1) ps st) \<and>
    ladder_val (fold (ladder_step (clamp n) x1) ps st) = fold (rfc_step (rfc_scalar n) (fe_val x1)) ps (ladder_val st)"
  using assms(3,4)
proof (induction ps arbitrary: st)
  case (Cons pos ps)
  then show ?case using ladder_step_correct [OF Cons.prems(2) assms(1) _ assms(2), of pos] by simp
qed simp

section \<open>The functions\<close>

lemma or_bytes_ucast: "or_bytes (ucast d) q = ucast (fold (\<lambda>x d. d OR x) q d)"
proof (induction q arbitrary: d)
  case (Cons x q)
  have "ucast d OR ucast x = (ucast (d OR x) :: u32)" by (rule bit_word_eqI) (auto simp: bit_simps)
  then show ?case using Cons.IH [of "d OR x"] by (simp add: or_bytes_def)
qed (simp add: or_bytes_def)

lemma fold_or_0: "fold (\<lambda>x d. d OR x) q d = (0 :: u8) \<longleftrightarrow> d = 0 \<and> (\<forall>x\<in>set q. x = 0)"
  by (induction q arbitrary: d) (auto simp: or_eq_0_iff)

lemma zero_flag_ucast: "zero_flag (ucast (d :: u8)) = (if d = 0 then - 1 else 0)"
proof -
  have "uint (1 AND drop_bit 8 (ucast d - 1) :: u32) = uint (if d = 0 then 1 else 0 :: u32)"
    using verify_flag [of d] by (simp split: if_splits)
  then have "1 AND drop_bit 8 (ucast d - 1) = (if d = 0 then 1 else 0 :: u32)" by (simp only: unsigned_word_eqI)
  then show ?thesis by (simp add: zero_flag_def)
qed

lemma zero_flag_bytes: "zero_flag (or_bytes 0 q) = (if q = replicate (length q) 0 then - 1 else 0)"
proof -
  have "(\<forall>x\<in>set q. x = 0) \<longleftrightarrow> q = replicate (length q) 0" by (induction q) simp_all
  then show ?thesis using or_bytes_ucast [of 0 q] by (simp add: zero_flag_ucast fold_or_0)
qed

lemma fe_val_frombytes: "32 \<le> length p \<Longrightarrow> fe_val (fe25519_frombytes p) = rfc_u (take 32 p)"
  by (simp add: fe_val_def rfc_u_def fe25519_frombytes_val)

lemma scalarmult_eq:
  assumes "length n = 32" and "32 \<le> length p"
  shows "crypto_scalarmult_curve25519 n p =
    (rfc_x25519 n (take 32 p), if rfc_x25519 n (take 32 p) = replicate 32 0 then - 1 else 0)"
proof -
  let ?x1 = "fe25519_frombytes p"
  define k where "k = fold (ladder_step (clamp n) ?x1) (rev [0..<255]) (fe_1, fe_0, ?x1, fe_1, 0)"
  have k: "ladder_ok k" "ladder_val k = fold (rfc_step (rfc_scalar n) (rfc_u (take 32 p))) (rev [0..<255]) (1, 0, rfc_u (take 32 p), 1)"
    using ladder_fold [OF assms(1), of ?x1 "rev [0..<255]" "(fe_1, fe_0, ?x1, fe_1, 0)"] assms(2)
    unfolding k_def [symmetric] by (simp_all add: ladder_ok_def ladder_val_def exchange_def fe_val_frombytes)
  obtain x2 z2 x3 z3 s where st: "k = (x2, z2, x3, z3, s)" by (cases k)
  have len: "length x2 = 8" "length z2 = 8" "length x3 = 8" "length z3 = 8" and s: "s = 0 \<or> s = 1"
    using k(1) by (simp_all add: ladder_ok_def st)
  obtain y2 w2 y3 w3 where y: "exchange (s = 1) (x2, z2, x3, z3) = (y2, w2, y3, w3)" by (metis surj_pair)
  have ylen: "length y2 = 8" "length w2 = 8" using y len by (auto simp: exchange_def split: if_splits)
  have val: "ladder_val k = (fe_val y2, fe_val w2, fe_val y3, fe_val w3)"
    using y by (auto simp: st ladder_val_def exchange_def split: if_splits)
  have cswap: "fe_cswap x2 x3 s = (y2, y3)" "fe_cswap z2 z3 s = (w2, w3)"
    using y len s by (auto simp: fe_cswap_correct exchange_def split: if_splits)
  define q where "q = fe25519_tobytes (fe25519_mul y2 (fe25519_inv w2))"
  have inv: "length (fe25519_inv w2) = 8" using fe25519_inv_val(2) [OF ylen(2)] by (rule fe_reduced_length)
  have "q = le_bytes 32 (nat (fe_val y2 * fe_val w2 ^ (p25519 - 2) mod P25519))"
    unfolding q_def fe25519_tobytes_val [OF fe25519_mul_val(1) [OF ylen(1) inv]]
      fe25519_mul_val(2) [OF ylen(1) inv] fe25519_inv_val(1) [OF ylen(2)] by (simp only: mod_mult_right_eq)
  then have "q = rfc_x25519 n (take 32 p)"
    unfolding rfc_x25519_def k(2) [symmetric] val by simp
  moreover have "length q = 32" using \<open>q = le_bytes 32 _\<close> by simp
  moreover have "crypto_scalarmult_curve25519 n p = (q, zero_flag (or_bytes 0 q))"
    unfolding crypto_scalarmult_curve25519_def Let_def k_def [symmetric] st prod.case cswap q_def [symmetric] ..
  ultimately show ?thesis by (simp add: zero_flag_bytes)
qed

lemma length_basepoint [simp]: "length basepoint = 32"
  by (simp add: basepoint_def)

lemma or_flags: "(if a then - 1 else 0) OR (if b then - 1 else 0) = (if a \<or> b then - 1 else 0 :: int)"
  by simp

section \<open>Properties\<close>

text \<open>
  C22. The X25519 functions compute X25519 of RFC 7748: for every 32 bytes of scalar and of coordinate the
  result is the u-coordinate the ladder of the RFC gives, as 32 little-endian bytes of the canonical
  residue, for clamped scalars and with the top bit of the coordinate ignored; the return value is -1
  exactly if all 32 bytes are zero. No 64-bit sum of the limb arithmetic wraps.
\<close>

theorem x25519_rfc7748:
  assumes "length sk = 32" and "length peer = 32"
  shows "glo_x25519 sk peer = (rfc_x25519 sk peer, if rfc_x25519 sk peer = replicate 32 0 then - 1 else 0)
    \<and> glo_x25519_base sk = (rfc_x25519 sk basepoint, if rfc_x25519 sk basepoint = replicate 32 0 then - 1 else 0)"
  using scalarmult_eq [OF assms(1), of peer] scalarmult_eq [OF assms(1), of basepoint] assms(2)
  by (simp_all add: glo_x25519_def glo_x25519_base_def crypto_scalarmult_curve25519_base_def)

theorem x25519_rfc7748_witness:
  "glo_x25519 (replicate 32 7) (replicate 32 255) =
     (rfc_x25519 (replicate 32 7) (replicate 32 255), if rfc_x25519 (replicate 32 7) (replicate 32 255) = replicate 32 0 then - 1 else 0)"
  by (rule x25519_rfc7748 [of "replicate 32 7" "replicate 32 255", THEN conjunct1]) simp_all

text \<open>
  C32. The curve25519 key encapsulation takes 32 random bytes, sends X25519 of them and the base point and
  shares X25519 of them and the client's value; it returns 0 exactly if neither is zero, and -1 otherwise.
\<close>

theorem curve25519_enc_rfc8731:
  assumes "length pk = 32"
  shows "curve25519_enc rnd pk =
    (let sk = map rnd [0..<32]; c = rfc_x25519 sk basepoint; k = rfc_x25519 sk pk
     in (if c = replicate 32 0 \<or> k = replicate 32 0 then - 1 else 0, c, k, 32))"
proof -
  have len: "length (rfc_x25519 a b) = 32" for a b
    by (simp add: rfc_x25519_def split: prod.splits)
  show ?thesis
    using scalarmult_eq [of "map rnd [0..<32]" pk] scalarmult_eq [of "map rnd [0..<32]" basepoint] assms
    by (simp add: curve25519_enc_def crypto_scalarmult_curve25519_base_def Let_def zero_flag_bytes len or_flags del: upt_rec_numeral)
qed

theorem curve25519_enc_witness:
  "curve25519_enc (\<lambda>i. 1) (replicate 32 0) =
    (let sk = map (\<lambda>i. 1) [0..<32]; c = rfc_x25519 sk basepoint; k = rfc_x25519 sk (replicate 32 0)
     in (if c = replicate 32 0 \<or> k = replicate 32 0 then - 1 else 0, c, k, 32))"
  by (rule curve25519_enc_rfc8731 [of "replicate 32 0" "\<lambda>i. 1"]) simp

end
