(* ===== verification/Sha512.thy ===== *)
theory Sha512
  imports Block_Hash
begin

text \<open>
  crypto_hash_sha512.c, and the SHA-512 of FIPS 180-4 it is proved to compute.
\<close>

section \<open>The code\<close>

definition R512 :: "u64 \<Rightarrow> nat \<Rightarrow> u64" where
  "R512 x c = drop_bit c x OR push_bit (64 - c) (x AND 0xffffffffffffffff)"

definition Ch512 :: "u64 \<Rightarrow> u64 \<Rightarrow> u64 \<Rightarrow> u64" where
  "Ch512 x y z = (x AND y) XOR (NOT x AND z)"

definition Maj512 :: "u64 \<Rightarrow> u64 \<Rightarrow> u64 \<Rightarrow> u64" where
  "Maj512 x y z = (x AND y) XOR (x AND z) XOR (y AND z)"

definition Sigma0_512 :: "u64 \<Rightarrow> u64" where
  "Sigma0_512 x = R512 x 28 XOR R512 x 34 XOR R512 x 39"

definition Sigma1_512 :: "u64 \<Rightarrow> u64" where
  "Sigma1_512 x = R512 x 14 XOR R512 x 18 XOR R512 x 41"

definition sigma0_512 :: "u64 \<Rightarrow> u64" where
  "sigma0_512 x = R512 x 1 XOR R512 x 8 XOR drop_bit 7 x"

definition sigma1_512 :: "u64 \<Rightarrow> u64" where
  "sigma1_512 x = R512 x 19 XOR R512 x 61 XOR drop_bit 6 x"

definition K512 :: "u64 list" where
  "K512 = concat [
    [0x428a2f98d728ae22, 0x7137449123ef65cd, 0xb5c0fbcfec4d3b2f, 0xe9b5dba58189dbbc],
    [0x3956c25bf348b538, 0x59f111f1b605d019, 0x923f82a4af194f9b, 0xab1c5ed5da6d8118],
    [0xd807aa98a3030242, 0x12835b0145706fbe, 0x243185be4ee4b28c, 0x550c7dc3d5ffb4e2],
    [0x72be5d74f27b896f, 0x80deb1fe3b1696b1, 0x9bdc06a725c71235, 0xc19bf174cf692694],
    [0xe49b69c19ef14ad2, 0xefbe4786384f25e3, 0x0fc19dc68b8cd5b5, 0x240ca1cc77ac9c65],
    [0x2de92c6f592b0275, 0x4a7484aa6ea6e483, 0x5cb0a9dcbd41fbd4, 0x76f988da831153b5],
    [0x983e5152ee66dfab, 0xa831c66d2db43210, 0xb00327c898fb213f, 0xbf597fc7beef0ee4],
    [0xc6e00bf33da88fc2, 0xd5a79147930aa725, 0x06ca6351e003826f, 0x142929670a0e6e70],
    [0x27b70a8546d22ffc, 0x2e1b21385c26c926, 0x4d2c6dfc5ac42aed, 0x53380d139d95b3df],
    [0x650a73548baf63de, 0x766a0abb3c77b2a8, 0x81c2c92e47edaee6, 0x92722c851482353b],
    [0xa2bfe8a14cf10364, 0xa81a664bbc423001, 0xc24b8b70d0f89791, 0xc76c51a30654be30],
    [0xd192e819d6ef5218, 0xd69906245565a910, 0xf40e35855771202a, 0x106aa07032bbd1b8],
    [0x19a4c116b8d2d0c8, 0x1e376c085141ab53, 0x2748774cdf8eeb99, 0x34b0bcb5e19b48a8],
    [0x391c0cb3c5c95a63, 0x4ed8aa4ae3418acb, 0x5b9cca4f7763e373, 0x682e6ff3d6b2b8a3],
    [0x748f82ee5defb2fc, 0x78a5636f43172f60, 0x84c87814a1f0ab72, 0x8cc702081a6439ec],
    [0x90befffa23631e28, 0xa4506cebde82bde9, 0xbef9a3f7b2c67915, 0xc67178f2e372532b],
    [0xca273eceea26619c, 0xd186b8c721c0c207, 0xeada7dd6cde0eb1e, 0xf57d4f7fee6ed178],
    [0x06f067aa72176fba, 0x0a637dc5a2c898a6, 0x113f9804bef90dae, 0x1b710b35131c471b],
    [0x28db77f523047d84, 0x32caab7b40c72493, 0x3c9ebe0a15c9bebc, 0x431d67c49c100d4c],
    [0x4cc5d4becb3e42b6, 0x597f299cfc657e2a, 0x5fcb6fab3ad6faec, 0x6c44198c4a475817]]"

text \<open>\<open>w\<close> is filled from the front: the list holds the entries written so far.\<close>

definition load64_bigendian :: "bytes \<Rightarrow> nat \<Rightarrow> u64" where
  "load64_bigendian x i = foldl (\<lambda>y j. push_bit 8 y OR ucast (x ! (i + j))) 0 [0..<8]"

definition schedule512 :: "bytes \<Rightarrow> u64 list" where
  "schedule512 m =
     foldl (\<lambda>w i. w @ [(sigma1_512 (w ! (i - 2)) + w ! (i - 7) + sigma0_512 (w ! (i - 15)) + w ! (i - 16)) AND 0xffffffffffffffff])
       (map (\<lambda>i. load64_bigendian m (8 * i)) [0..<16]) [16..<80]"

definition round512 :: "u64 list \<Rightarrow> u64 list \<Rightarrow> nat \<Rightarrow> u64 list" where
  "round512 w a i =
     (let b = a;
          t = a ! 7 + Sigma1_512 (a ! 4) + Ch512 (a ! 4) (a ! 5) (a ! 6) + K512 ! i + w ! i;
          b = b[7 := t + Sigma0_512 (a ! 0) + Maj512 (a ! 0) (a ! 1) (a ! 2)];
          b = b[3 := b ! 3 + t]
      in foldl (\<lambda>a j. a[(j + 1) mod 8 := b ! j AND 0xffffffffffffffff]) a [0..<8])"

function blocks512_loop :: "u64 list \<Rightarrow> u64 list \<Rightarrow> bytes \<Rightarrow> nat \<Rightarrow> u64 list" where
  "blocks512_loop a z m n =
     (if n \<ge> 128
      then let w = schedule512 m;
               a = foldl (round512 w) a [0..<80];
               a = map (\<lambda>i. (a ! i + z ! i) AND 0xffffffffffffffff) [0..<8]
           in blocks512_loop a a (drop 128 m) (n - 128)
      else z)"
  by pat_completeness auto
termination by (relation "measure (\<lambda>(a, z, m, n). n)") auto

declare blocks512_loop.simps [simp del]

definition blocks512 :: "u64 list \<Rightarrow> bytes \<Rightarrow> nat \<Rightarrow> u64 list" where
  "blocks512 z m n = blocks512_loop (map (\<lambda>i. z ! i) [0..<8]) z m n"

definition IV512 :: "u64 list" where
  "IV512 = [0x6a09e667f3bcc908, 0xbb67ae8584caa73b, 0x3c6ef372fe94f82b, 0xa54ff53a5f1d36f1,
     0x510e527fade682d1, 0x9b05688c2b3e6c1f, 0x1f83d9abfb41bd6b, 0x5be0cd19137e2179]"

text \<open>The padded last one or two blocks: \<open>x\<close> and \<open>n\<close> of the code after the length is stored.\<close>

definition store64_bigendian :: "u64 \<Rightarrow> bytes" where
  "store64_bigendian x = pack_be 8 x"

definition pad512 :: "bytes \<Rightarrow> nat \<Rightarrow> bytes \<times> nat" where
  "pad512 m len =
     (let n = len mod 128;
          b = word_of_nat len :: u64;
          m = drop (len - n) m;
          x = map (\<lambda>i. if i < n then m ! i else 0) [0..<256];
          x = x[n := 128];
          n = 256 - 128 * of_bool (n < 112);
          x = x[n - 9 := ucast (drop_bit 61 b)];
          x = take (n - 8) x @ store64_bigendian (push_bit 3 b) @ drop n x
      in (x, n))"

definition crypto_hash_sha512 :: "bytes \<Rightarrow> nat \<Rightarrow> bytes" where
  "crypto_hash_sha512 m n =
     (let h = blocks512 IV512 m n;
          (x, k) = pad512 m n;
          h = blocks512 h x k
      in concat (map (\<lambda>i. store64_bigendian (h ! i)) [0..<8]))"

section \<open>FIPS 180-4\<close>

definition rotr64 :: "nat \<Rightarrow> u64 \<Rightarrow> u64" where
  "rotr64 n x = word_rotr n x"

fun fips_w512 :: "bytes \<Rightarrow> nat \<Rightarrow> u64" where
  "fips_w512 m t =
     (if t < 16 then unpack_be (take 8 (drop (8 * t) m))
      else (rotr64 19 (fips_w512 m (t - 2)) XOR rotr64 61 (fips_w512 m (t - 2)) XOR drop_bit 6 (fips_w512 m (t - 2))) +
           fips_w512 m (t - 7) +
           (rotr64 1 (fips_w512 m (t - 15)) XOR rotr64 8 (fips_w512 m (t - 15)) XOR drop_bit 7 (fips_w512 m (t - 15))) +
           fips_w512 m (t - 16))"

declare fips_w512.simps [simp del]

type_synonym vars512 = "u64 \<times> u64 \<times> u64 \<times> u64 \<times> u64 \<times> u64 \<times> u64 \<times> u64"

definition fips_round512 :: "bytes \<Rightarrow> vars512 \<Rightarrow> nat \<Rightarrow> vars512" where
  "fips_round512 m v t =
     (case v of (a, b, c, d, e, f, g, h) \<Rightarrow>
        let T1 = h + (rotr64 14 e XOR rotr64 18 e XOR rotr64 41 e) + ((e AND f) XOR (NOT e AND g)) + K512 ! t + fips_w512 m t;
            T2 = (rotr64 28 a XOR rotr64 34 a XOR rotr64 39 a) + ((a AND b) XOR (a AND c) XOR (b AND c))
        in (T1 + T2, a, b, c, d + T1, e, f, g))"

definition fips_compress512 :: "vars512 \<Rightarrow> bytes \<Rightarrow> vars512" where
  "fips_compress512 v m =
     (case v of (a, b, c, d, e, f, g, h) \<Rightarrow>
      case foldl (fips_round512 m) v [0..<80] of (a', b', c', d', e', f', g', h') \<Rightarrow>
        (a + a', b + b', c + c', d + d', e + e', f + f', g + g', h + h'))"

definition fips_pad512 :: "bytes \<Rightarrow> bytes" where
  "fips_pad512 m =
     m @ [0x80] @ replicate ((239 - length m mod 128) mod 128) 0 @ pack_be 16 (word_of_nat (8 * length m) :: 128 word)"

definition fips_sha512 :: "bytes \<Rightarrow> bytes" where
  "fips_sha512 m =
     (case foldl fips_compress512
        (0x6a09e667f3bcc908, 0xbb67ae8584caa73b, 0x3c6ef372fe94f82b, 0xa54ff53a5f1d36f1, 0x510e527fade682d1, 0x9b05688c2b3e6c1f, 0x1f83d9abfb41bd6b, 0x5be0cd19137e2179)
        (chunks 128 (fips_pad512 m)) of (a, b, c, d, e, f, g, h) \<Rightarrow>
      concat (map (pack_be 8) [a, b, c, d, e, f, g, h]))"

section \<open>The code computes it\<close>

lemma and_ones64 [simp]: "(x :: u64) AND 0xffffffffffffffff = x"
proof -
  have m: "(0xffffffffffffffff :: u64) = - 1" by simp
  show ?thesis unfolding m by simp
qed

lemma ones64_and [simp]: "0xffffffffffffffff AND (x :: u64) = x"
  by (metis and.commute and_ones64)

lemma R512_rotr:
  assumes "0 < c" and "c < 64"
  shows "R512 x c = rotr64 c x"
  unfolding R512_def rotr64_def and_ones64
proof (rule bit_word_eqI)
  fix i
  assume "i < LENGTH(64)"
  then have i: "i < 64" by simp
  show "bit (drop_bit c x OR push_bit (64 - c) x) i = bit (word_rotr c x) i"
  proof (cases "i + c < 64")
    case True
    then show ?thesis using assms i by (auto simp: bit_simps ac_simps dest: bit_imp_le_length)
  next
    case False
    then have "(i + c) mod 64 = i - (64 - c)" using assms i by (simp add: mod_if)
    moreover have "\<not> bit x (c + i)" using False bit_imp_le_length [of x "c + i"] by auto
    ultimately show ?thesis using assms i False by (auto simp: bit_simps ac_simps)
  qed
qed

lemma Sigma_rotr512:
  "Sigma0_512 x = rotr64 28 x XOR rotr64 34 x XOR rotr64 39 x"
  "Sigma1_512 x = rotr64 14 x XOR rotr64 18 x XOR rotr64 41 x"
  "sigma0_512 x = rotr64 1 x XOR rotr64 8 x XOR drop_bit 7 x"
  "sigma1_512 x = rotr64 19 x XOR rotr64 61 x XOR drop_bit 6 x"
  by (simp_all add: Sigma0_512_def Sigma1_512_def sigma0_512_def sigma1_512_def R512_rotr)

lemma load64_bigendian_unpack:
  "i + 8 \<le> length x \<Longrightarrow> load64_bigendian x i = unpack_be (take 8 (drop i x))"
proof -
  assume "i + 8 \<le> length x"
  then have "take 8 (drop i x) = map (\<lambda>j. x ! (i + j)) [0..<8]"
    by (intro nth_equalityI) simp_all
  moreover have "foldl (\<lambda>y j. push_bit 8 y OR ucast (f j)) y js = unpack_be_from (y :: u64) (map f js)"
    for f :: "nat \<Rightarrow> u8" and y js
    by (induction js arbitrary: y) simp_all
  ultimately show ?thesis by (simp add: load64_bigendian_def unpack_be_def del: upt_Suc)
qed

lemma schedule512_fips:
  assumes "128 \<le> length m"
  shows "schedule512 m = map (fips_w512 m) [0..<80]"
proof -
  have "foldl (\<lambda>w i. w @ [(sigma1_512 (w ! (i - 2)) + w ! (i - 7) + sigma0_512 (w ! (i - 15)) + w ! (i - 16)) AND 0xffffffffffffffff])
      (map (\<lambda>i. load64_bigendian m (8 * i)) [0..<16]) [16..<16 + k] = map (fips_w512 m) [0..<16 + k]" for k
  proof (induction k)
    case 0
    show ?case
      using assms by (intro nth_equalityI) (auto simp: load64_bigendian_unpack fips_w512.simps)
  next
    case (Suc k)
    have u: "[16..<16 + Suc k] = [16..<16 + k] @ [16 + k]" "[0..<16 + Suc k] = [0..<16 + k] @ [16 + k]"
      by (simp_all only: add_Suc_right upt.simps(2) le_add1 le0 if_True)
    have "map (fips_w512 m) [0..<16 + k] ! (16 + k - j) = fips_w512 m (16 + k - j)" if "0 < j" for j
      using that by simp
    then have nth: "map (fips_w512 m) [0..<16 + k] ! (16 + k - 2) = fips_w512 m (16 + k - 2)"
      "map (fips_w512 m) [0..<16 + k] ! (16 + k - 7) = fips_w512 m (16 + k - 7)"
      "map (fips_w512 m) [0..<16 + k] ! (16 + k - 15) = fips_w512 m (16 + k - 15)"
      "map (fips_w512 m) [0..<16 + k] ! (16 + k - 16) = fips_w512 m (16 + k - 16)"
      by (blast intro: zero_less_numeral)+
    have lt: "\<not> 16 + k < 16" by simp
    show ?case
      unfolding u foldl_append Suc
      unfolding foldl.simps map_append list.map nth and_ones64 Sigma_rotr512
        fips_w512.simps [of m "16 + k"] if_not_P [OF lt] ..
  qed
  note step = this
  have e: "(80 :: nat) = 16 + 64" by simp
  show ?thesis unfolding schedule512_def e by (rule step)
qed

definition vars_list512 :: "vars512 \<Rightarrow> u64 list" where
  "vars_list512 v = (case v of (a, b, c, d, e, f, g, h) \<Rightarrow> [a, b, c, d, e, f, g, h])"

lemma length_vars_list512 [simp]: "length (vars_list512 v) = 8"
  by (simp add: vars_list512_def split: prod.split)

lemma round512_fips:
  "w ! i = fips_w512 m i \<Longrightarrow> round512 w (vars_list512 v) i = vars_list512 (fips_round512 m v i)"
proof -
  assume w: "w ! i = fips_w512 m i"
  obtain a b c d e f g h where v: "v = (a, b, c, d, e, f, g, h)" by (metis surj_pair)
  have u: "[0..<8] = [0, 1, 2, 3, 4, 5, 6, 7 :: nat]" by (simp add: upt_rec)
  show ?thesis
    unfolding v round512_def fips_round512_def vars_list512_def prod.case Let_def w u
    by (simp add: Ch512_def Maj512_def Sigma_rotr512 ac_simps)
qed

lemma rounds512_fips:
  assumes "128 \<le> length m"
  shows "foldl (round512 (schedule512 m)) (vars_list512 v) [0..<80] = vars_list512 (foldl (fips_round512 m) v [0..<80])"
proof -
  have "k \<le> 80 \<Longrightarrow> foldl (round512 (schedule512 m)) (vars_list512 v) [0..<k] = vars_list512 (foldl (fips_round512 m) v [0..<k])" for k
  proof (induction k)
    case (Suc k)
    then have "schedule512 m ! k = fips_w512 m k" by (simp add: schedule512_fips [OF assms] del: upt_Suc)
    with Suc show ?case by (simp add: round512_fips)
  qed simp
  then show ?thesis by simp
qed

text \<open>One iteration of the loop of \<open>blocks\<close>.\<close>

definition compress512 :: "u64 list \<Rightarrow> bytes \<Rightarrow> u64 list" where
  "compress512 z m =
     (let a = foldl (round512 (schedule512 m)) (map (\<lambda>i. z ! i) [0..<8]) [0..<80]
      in map (\<lambda>i. (a ! i + z ! i) AND 0xffffffffffffffff) [0..<8])"

lemma length_compress512 [simp]: "length (compress512 z m) = 8"
  by (simp add: compress512_def Let_def)

lemma compress512_fips:
  assumes "128 \<le> length m"
  shows "compress512 (vars_list512 v) m = vars_list512 (fips_compress512 v m)"
proof -
  obtain a b c d e f g h where v: "v = (a, b, c, d, e, f, g, h)" by (metis surj_pair)
  obtain a' b' c' d' e' f' g' h' where v': "foldl (fips_round512 m) v [0..<80] = (a', b', c', d', e', f', g', h')"
    by (metis surj_pair)
  have u: "[0..<8] = [0, 1, 2, 3, 4, 5, 6, 7 :: nat]" by (simp add: upt_rec)
  show ?thesis
    unfolding compress512_def map_nth_8 [OF length_vars_list512] rounds512_fips [OF assms] v' Let_def fips_compress512_def
    unfolding u v by (simp add: vars_list512_def v' [unfolded v] add.commute)
qed

lemma schedule512_take: "schedule512 (take 128 m) = schedule512 m"
proof -
  have "[0..<8] = [0, 1, 2, 3, 4, 5, 6, 7 :: nat]" by (simp add: upt_rec)
  then have "map (\<lambda>i. load64_bigendian (take 128 m) (8 * i)) [0..<16] = map (\<lambda>i. load64_bigendian m (8 * i)) [0..<16]"
    by (intro map_cong refl) (simp add: load64_bigendian_def)
  then show ?thesis unfolding schedule512_def by (simp only:)
qed

lemma compress512_take: "compress512 z (take 128 m) = compress512 z m"
  by (simp only: compress512_def schedule512_take)

lemma blocks512_step:
  "128 \<le> n \<Longrightarrow> blocks512 z m n = blocks512 (compress512 z (take 128 m)) (drop 128 m) (n - 128)"
  unfolding blocks512_def map_nth_8 [OF length_compress512] compress512_take
  by (subst blocks512_loop.simps) (simp add: compress512_def Let_def)

interpretation sha512: block_hash 128 compress512 blocks512
proof
  show "blocks512 z m n = blocks512 (compress512 z (take 128 m)) (drop 128 m) (n - 128)" if "128 \<le> n" for z m n
    using that by (rule blocks512_step)
  show "blocks512 z m n = z" if "n < 128" for z m n
    using that by (simp add: blocks512_def blocks512_loop.simps)
qed simp

lemma foldl_compress512_fips:
  "(\<forall>c \<in> set cs. length c = 128) \<Longrightarrow>
   foldl compress512 (vars_list512 v) cs = vars_list512 (foldl fips_compress512 v cs)"
  by (induction cs arbitrary: v) (simp_all add: compress512_fips)

lemma length_field512:
  assumes "len < 2 ^ 64"
  shows "pack_be 16 (word_of_nat (8 * len) :: 128 word) =
    replicate 7 0 @ [ucast (drop_bit 61 (word_of_nat len :: u64))] @ pack_be 8 (push_bit 3 (word_of_nat len :: u64))"
proof -
  define b :: u64 where "b = word_of_nat len"
  define W :: "128 word" where "W = word_of_nat (8 * len)"
  have bit: "bit W i \<longleftrightarrow> i < 128 \<and> 3 \<le> i \<and> bit b (i - 3)" for i
  proof -
    have lt: "i < 64" if "bit len i" for i
      using that assms by (metis bit_take_bit_iff take_bit_nat_eq_self)
    have "8 * len = push_bit 3 len" by (simp add: push_bit_eq_mult)
    then show ?thesis unfolding W_def by (auto simp: b_def bit_simps simp del: of_nat_mult dest: lt)
  qed
  have "pack_le 16 W =
      pack_le 8 (push_bit 3 b) @ [ucast (drop_bit 61 b)] @ replicate 7 0"
  proof (rule nth_equalityI)
    fix i
    assume "i < length (pack_le 16 W)"
    then have i: "i < 16" by simp
    have l: "\<not> bit b n" if "64 \<le> n" for n using that bit_imp_le_length [of b n] by auto
    consider "i < 8" | "i = 8" | "8 < i" by linarith
    then show "pack_le 16 W ! i =
        (pack_le 8 (push_bit 3 b) @ [ucast (drop_bit 61 b)] @ replicate 7 0) ! i"
    proof cases
      case 1
      then show ?thesis using i
        by (auto simp: pack_le_nth nth_append bit_simps bit intro!: bit_word_eqI simp del: of_nat_mult)
    next
      case 2
      then show ?thesis
        by (auto simp: pack_le_nth nth_append bit_simps bit intro!: bit_word_eqI simp del: of_nat_mult)
    next
      case 3
      then show ?thesis using i
        by (auto simp: pack_le_nth nth_append bit_simps bit l intro!: bit_word_eqI simp del: of_nat_mult)
    qed
  qed simp
  then show ?thesis by (simp add: pack_be_def b_def W_def [symmetric] del: of_nat_mult)
qed

lemma pad512_eq:
  assumes "pad512 m (length m) = (x, n)" and "length m < 2 ^ 64"
  shows "n \<le> length x \<and> take n x = drop (length m - length m mod 128) m @ [0x80] @
    replicate ((239 - length m mod 128) mod 128) 0 @ pack_be 16 (word_of_nat (8 * length m) :: 128 word)"
proof -
  define r where "r = length m mod 128"
  define b :: u64 where "b = word_of_nat (length m)"
  define t where "t = drop (length m - r) m"
  define k :: nat where "k = 256 - 128 * of_bool (r < 112)"
  define y where "y = (map (\<lambda>i. if i < r then t ! i else 0) [0..<256])[r := 128]"
  define z where "z = y[k - 9 := ucast (drop_bit 61 b)]"
  have r: "r < 128" "length t = r" by (simp_all add: r_def t_def)
  have k: "r + 17 \<le> k" "k \<le> 256" "k - 17 - r = (239 - r) mod 128"
    using r(1) by (auto simp: k_def mod_if)
  have y: "length y = 256" "y = t @ [128] @ replicate (255 - r) 0"
    using r k by (auto simp: y_def nth_append nth_list_update intro!: nth_equalityI)
  define p where "p = t @ [128] @ replicate (k - 17 - r) 0 @ replicate 7 0"
  have p: "length p = k - 9" using r k by (simp add: p_def)
  have "replicate (255 - r) (0 :: u8) = replicate (k - 17 - r) 0 @ replicate 7 0 @ 0 # replicate (264 - k) 0"
    using k r by (simp flip: replicate_add replicate_Suc)
  then have "y = p @ 0 # replicate (264 - k) 0" unfolding y(2) p_def by simp
  then have zp: "z = p @ ucast (drop_bit 61 b) # replicate (264 - k) 0"
    unfolding z_def p [symmetric] by (simp only: list_update_length)
  have z: "length z = 256" using y(1) by (simp add: z_def)
  have z2: "take (k - 8) z = p @ [ucast (drop_bit 61 b)]"
    using p k unfolding zp by (simp add: Suc_diff_le)
  have "(x, n) = pad512 m (length m)" using assms(1) by (rule sym)
  also have "\<dots> = (take (k - 8) z @ store64_bigendian (push_bit 3 b) @ drop k z, k)"
    unfolding pad512_def Let_def r_def [symmetric] b_def [symmetric] t_def [symmetric] y_def [symmetric] k_def [symmetric] z_def [symmetric] ..
  finally have "x = take (k - 8) z @ store64_bigendian (push_bit 3 b) @ drop k z" "n = k"
    by (simp_all only: prod.inject)
  moreover have "length (take (k - 8) z) = k - 8" using z k by simp
  ultimately have "take n x = take (k - 8) z @ pack_be 8 (push_bit 3 b)" "n \<le> length x"
    using k z unfolding store64_bigendian_def by simp_all
  then show ?thesis
    unfolding r_def [symmetric] t_def [symmetric] length_field512 [OF assms(2)] b_def [symmetric] z2 p_def k(3) by simp
qed

lemma sha512_correct:
  assumes "length m < 2 ^ 64"
  shows "crypto_hash_sha512 m (length m) = fips_sha512 m"
proof -
  obtain x n where xn: "pad512 m (length m) = (x, n)" by fastforce
  let ?v = "(0x6a09e667f3bcc908, 0xbb67ae8584caa73b, 0x3c6ef372fe94f82b, 0xa54ff53a5f1d36f1, 0x510e527fade682d1, 0x9b05688c2b3e6c1f, 0x1f83d9abfb41bd6b, 0x5be0cd19137e2179) :: vars512"
  have IV: "IV512 = vars_list512 ?v" by (simp add: IV512_def vars_list512_def)
  note p = pad512_eq [OF xn assms]
  have "blocks512 (blocks512 IV512 m (length m)) x n = foldl compress512 IV512 (chunks 128 (fips_pad512 m))"
    unfolding fips_pad512_def using p by (intro sha512.blocks_two) (auto simp only: refl)
  also have "\<dots> = vars_list512 (foldl fips_compress512 ?v (chunks 128 (fips_pad512 m)))"
    unfolding IV by (rule foldl_compress512_fips) (simp add: chunk_length)
  finally have b: "blocks512 (blocks512 IV512 m (length m)) x n =
      vars_list512 (foldl fips_compress512 ?v (chunks 128 (fips_pad512 m)))" .
  have "map (\<lambda>i. store64_bigendian (z ! i)) [0..<8] = map (pack_be 8) z" if "length z = 8" for z
    using that by (intro nth_equalityI) (simp_all add: store64_bigendian_def)
  then show ?thesis
    unfolding crypto_hash_sha512_def Let_def xn prod.case b fips_sha512_def
    by (simp add: vars_list512_def split: prod.split)
qed

lemma length_sha512 [simp]: "length (crypto_hash_sha512 m n) = 64"
proof -
  have "length (concat (map (\<lambda>i. store64_bigendian (z i)) [0..<k])) = 8 * k" for z k
    by (induction k) (simp_all add: store64_bigendian_def)
  then show ?thesis by (simp add: crypto_hash_sha512_def Let_def split: prod.split del: upt_Suc)
qed

section \<open>Properties\<close>

text \<open>
  C26. The one-shot SHA-512 of tinynacl is the SHA-512 of FIPS 180-4 for every message shorter
  than \<open>2 ^ 64\<close> bytes, the range of its length argument: the 128-bit length field is put together
  right from the byte \<open>b >> 61\<close> and the word \<open>b << 3\<close>.
\<close>

theorem sha512_fips180:
  assumes "length m < 2 ^ 64"
  shows "crypto_hash_sha512 m (length m) = fips_sha512 m"
  using assms by (rule sha512_correct)

theorem sha512_fips180_witness:
  "crypto_hash_sha512 (lit ''abc'') 3 = fips_sha512 (lit ''abc'')"
  using sha512_fips180 [of "lit ''abc''"] by (simp add: numeral_3_eq_3)

end
