(* ===== verification/Ed25519.thy ===== *)
theory Ed25519
  imports Ge25519 Sc25519 X25519 Sha512
begin

text \<open>
  crypto_sign_ed25519.c: signing, verification and key generation. Arrays are lists; \<open>put a i bs\<close> writes
  bytes from index i on. The arrays of the arguments are distinct from each other. The memory a
  multiplication selects its table entries into is the argument \<open>junk\<close>.
\<close>

unbundle bit_operations_syntax

section \<open>crypto_sign_ed25519.c\<close>

definition put :: "bytes \<Rightarrow> nat \<Rightarrow> bytes \<Rightarrow> bytes" where
  "put a i bs = take i a @ bs @ drop (i + length bs) a"

definition clamp_hash :: "bytes \<Rightarrow> bytes" where
  "clamp_hash sk = (let sk = sk[0 := sk ! 0 AND 248]; sk = sk[31 := sk ! 31 AND 63] in sk[31 := sk ! 31 OR 64])"

definition crypto_sign_ed25519 :: "ge \<Rightarrow> bytes \<Rightarrow> bytes \<Rightarrow> nat \<Rightarrow> bytes \<Rightarrow> int \<times> bytes \<times> nat" where
  "crypto_sign_ed25519 junk sm m n skorig =
     (let sk = crypto_hash_sha512 (take 32 skorig) 32; sk = clamp_hash sk; smlen = n + 64;
          pk = take 32 (drop 32 skorig); sm = put sm 64 (take n m); sm = put sm 32 (take 32 (drop 32 sk));
          nonce = crypto_hash_sha512 (take (n + 32) (drop 32 sm)) (n + 32); nonce = sc25519_reduce nonce;
          sm = put sm 32 pk;
          R = ge25519_scalarmult_base junk nonce; sm = put sm 0 (ge25519_tobytes R);
          hram = crypto_hash_sha512 (take (n + 64) sm) (n + 64); hram = sc25519_reduce hram;
          sm = put sm 32 (sc25519_muladd (take 32 (drop 32 sm)) hram sk nonce)
      in (0, sm, smlen))"

text \<open>The result is the return value, the array \<open>m\<close>, and \<open>mlen\<close> when it is written.\<close>

definition crypto_sign_ed25519_open :: "ge \<Rightarrow> bytes \<Rightarrow> bytes \<Rightarrow> nat \<Rightarrow> bytes \<Rightarrow> (int \<times> bytes \<times> nat option) res" where
  "crypto_sign_ed25519_open junk m sm n pk =
     (let fail = (\<lambda>m. Inr (- 1, put m 0 (replicate n 0), None))
      in if n < 64 then fail m
         else if sm ! 63 AND 224 \<noteq> 0 then fail m
         else bindr (ge25519_frombytes_negate_vartime pk) (\<lambda>A.
           case A of
             None \<Rightarrow> fail m
           | Some A \<Rightarrow>
               let pkcopy = take 32 pk; rcopy = take 32 sm; scopy = take 32 (drop 32 sm);
                   m = put m 0 (take n sm); m = put m 32 pkcopy;
                   hram = crypto_hash_sha512 (take n m) n; hram = sc25519_reduce hram;
                   A = ge25519_scalarmult junk A hram; S = ge25519_scalarmult_base junk scopy; R = ge25519_add S A;
                   rcheck = ge25519_tobytes R
               in bindr (crypto_verify_32 rcheck rcopy) (\<lambda>r.
                    if r \<noteq> 0 then fail m
                    else let n = n - 64; m = put m 0 (take n (drop 64 m)); m = put m n (replicate 64 0)
                         in Inr (0, m, Some n))))"

text \<open>The result is the return value, the public and the secret key and how many random bytes were used.\<close>

definition crypto_sign_ed25519_keypair :: "ge \<Rightarrow> (nat \<Rightarrow> u8) \<Rightarrow> int \<times> bytes \<times> bytes \<times> nat" where
  "crypto_sign_ed25519_keypair junk rnd =
     (let sk = map rnd [0..<32]; h = crypto_hash_sha512 sk 32; h = clamp_hash h;
          A = ge25519_scalarmult_base junk h; pk = ge25519_tobytes A
      in (0, pk, sk @ pk, 32))"

section \<open>The parts\<close>

lemma length_fips_sha512: "length (fips_sha512 m) = 64"
  by (simp add: fips_sha512_def split: prod.splits)

lemma clamp_byte: "((x :: u8) AND 63) OR 64 = (x AND 127) OR 64"
proof (rule bit_word_eqI)
  fix i :: nat assume "i < LENGTH(8)"
  have "(63 :: u8) = mask 6" by (simp add: mask_eq_exp_minus_1)
  then have "bit (63 :: u8) i \<longleftrightarrow> i < 6" using \<open>i < LENGTH(8)\<close> by (simp only: bit_mask_iff) auto
  then show "bit ((x AND 63) OR 64) i = bit ((x AND 127) OR 64) i"
    using bit_127 [of i] bit_64 [of i] by (auto simp: bit_and_iff bit_or_iff)
qed

lemma clamp_hash_eq: "length h = 64 \<Longrightarrow> clamp_hash h = clamp (take 32 h) @ drop 32 h"
  by (rule nth_equalityI) (auto simp: clamp_hash_def clamp_def Let_def nth_append nth_list_update clamp_byte)

lemma le_nat_clamp:
  assumes "length n = 32"
  shows "le_nat (clamp n) = rfc_scalar n"
proof (rule bit_eqI)
  fix i :: nat
  have len: "length (clamp n) = 32" using assms by (simp add: length_clamp)
  consider "i < 255" | "i = 255" | "256 \<le> i" by linarith
  then show "bit (le_nat (clamp n)) i = bit (rfc_scalar n) i"
  proof cases
    case 1
    then show ?thesis using bit_clamp [OF assms 1] bit_le_nat [of i "clamp n"] len by simp
  next
    case 2
    have "\<not> bit (clamp n ! 31) 7"
      using assms bit_127 [of 7] bit_64 [of 7] by (auto simp: clamp_nth bit_and_iff bit_or_iff)
    then show ?thesis using bit_le_nat [of i "clamp n"] len 2 by (simp add: bit_rfc_scalar)
  next
    case 3
    have "le_nat (clamp n) < 2 ^ i"
      using le_nat_lt [of "clamp n"] len power_increasing [of 256 i "2 :: nat"] 3 by simp
    then have "\<not> bit (le_nat (clamp n)) i" by (simp add: bit_iff_odd)
    then show ?thesis using 3 by (simp add: bit_rfc_scalar)
  qed
qed

abbreviation L_nat :: nat where
  "L_nat \<equiv> nat L25519"

lemma L_nat_bounds: "0 < L_nat" "L_nat < 2 ^ 253"
  by (simp_all add: L25519_def)

text \<open>Hashing and reducing: 64 bytes of which the first 32 are the residue.\<close>

lemma reduce_hash:
  assumes "length m < 2 ^ 64"
  shows "sc25519_reduce (crypto_hash_sha512 m (length m)) = le_bytes 32 (le_nat (fips_sha512 m) mod L_nat) @ replicate 32 0"
  unfolding sha512_correct [OF assms] by (rule sc25519_reduce_eq) (simp add: length_fips_sha512)

lemma le_nat_residue: "le_nat (le_bytes 32 (x mod L_nat)) = x mod L_nat"
proof -
  have "x mod L_nat < L_nat" using L_nat_bounds by simp
  then have "x mod L_nat < 2 ^ 256" using L_nat_bounds(2) by simp
  then show ?thesis by (simp add: le_nat_le_bytes)
qed

lemma length_put: "i + length bs \<le> length a \<Longrightarrow> length (put a i bs) = length a"
  by (simp add: put_def)

definition ed_base :: ext where
  "ed_base = ge_val baseq"

lemma ge_ok_baseq: "ge_ok baseq"
  by (simp add: ge_ok_def baseq_def)

text \<open>The base point is the point with y = 4 / 5 of the RFC, on the curve.\<close>

lemma ed_base_eq:
  "ed_base = (15112221349535400772501151409588531511454012693041857206046113283949847762202,
     46316835694926478169428394003475163141307993866256225615783033603165251855960, 1,
     46827403850823179245072216630277197565144205554125654976674165829533817101731)"
  by (simp add: ed_base_def ge_val_def baseq_def fe_val_def p25519_def)

lemma length_ed_encode: "length (ed_encode p) = 32"
  by (simp add: ed_encode_def Let_def split: prod.splits)

section \<open>Signing\<close>

lemma scalarmult_base_multiple:
  assumes "ge_ok junk" and "32 \<le> length a"
  shows "ge_ok (ge25519_scalarmult_base junk a)"
    and "ed_multiple ed_base (le_nat (take 32 a)) (ge_val (ge25519_scalarmult_base junk a))"
    and "ge25519_tobytes (ge25519_scalarmult_base junk a) = ed_encode (ge_val (ge25519_scalarmult_base junk a))"
  using ge25519_scalarmult_multiple [OF ge_ok_baseq assms(2,1)]
  by (simp_all add: ge25519_scalarmult_base_def ge_multiple_def ed_base_def ge25519_tobytes_val)

text \<open>Key generation: the secret scalar and the prefix of the nonce are the halves of the hash.\<close>

definition ed_secret :: "bytes \<Rightarrow> nat" where
  "ed_secret seed = rfc_scalar (take 32 (fips_sha512 seed))"

definition ed_prefix :: "bytes \<Rightarrow> bytes" where
  "ed_prefix seed = drop 32 (fips_sha512 seed)"

lemma hashed_key:
  assumes "length seed = 32"
  defines "sk \<equiv> clamp_hash (crypto_hash_sha512 seed 32)"
  shows "length sk = 64" and "le_nat (take 32 sk) = ed_secret seed" and "drop 32 sk = ed_prefix seed"
proof -
  have h: "crypto_hash_sha512 seed 32 = fips_sha512 seed" using sha512_correct [of seed] assms by simp
  have sk: "sk = clamp (take 32 (fips_sha512 seed)) @ drop 32 (fips_sha512 seed)"
    unfolding sk_def h by (rule clamp_hash_eq) (rule length_fips_sha512)
  have len: "length (clamp (take 32 (fips_sha512 seed))) = 32" by (rule length_clamp) (simp add: length_fips_sha512)
  show "length sk = 64" using len by (simp add: sk length_fips_sha512)
  show "le_nat (take 32 sk) = ed_secret seed"
    using len le_nat_clamp [of "take 32 (fips_sha512 seed)"] by (simp add: sk ed_secret_def length_fips_sha512)
  show "drop 32 sk = ed_prefix seed" using len by (simp add: sk ed_prefix_def)
qed

definition ed_hash :: "bytes \<Rightarrow> nat" where
  "ed_hash m = le_nat (fips_sha512 m) mod L_nat"

lemma reduced_hash:
  assumes "length m < 2 ^ 64" and "n = length m"
  shows "take 32 (sc25519_reduce (crypto_hash_sha512 m n)) = le_bytes 32 (ed_hash m)"
    and "length (sc25519_reduce (crypto_hash_sha512 m n)) = 64"
    and "le_nat (take 32 (sc25519_reduce (crypto_hash_sha512 m n))) = ed_hash m"
  unfolding assms(2) reduce_hash [OF assms(1)] ed_hash_def by (simp_all add: le_nat_residue)

lemma sign_correct:
  assumes len: "length skorig = 64" "length m = n" "length sm = n + 64" "n + 64 < 2 ^ 64" and junk: "ge_ok junk"
  shows "\<exists>R. ed_multiple ed_base (ed_hash (ed_prefix (take 32 skorig) @ m)) R \<and>
    crypto_sign_ed25519 junk sm m n skorig =
      (0, ed_encode R @ le_bytes 32 ((ed_hash (ed_encode R @ drop 32 skorig @ m) * ed_secret (take 32 skorig) +
            ed_hash (ed_prefix (take 32 skorig) @ m)) mod L_nat) @ m, n + 64)"
proof -
  define seed where "seed = take 32 skorig"
  define pk where "pk = take 32 (drop 32 skorig)"
  have pk: "pk = drop 32 skorig" "length pk = 32" "length seed = 32" using len by (simp_all add: pk_def seed_def)
  define sk where "sk = clamp_hash (crypto_hash_sha512 seed 32)"
  note K = hashed_key [OF pk(3), folded sk_def]
  have pre: "take 32 (drop 32 sk) = ed_prefix seed" "length (ed_prefix seed) = 32"
    using K by (simp_all add: ed_prefix_def length_fips_sha512)
  have m: "take n m = m" using len by simp
  define sm1 where "sm1 = put (put sm 64 m) 32 (ed_prefix seed)"
  have sm1: "sm1 = take 32 sm @ ed_prefix seed @ m"
    using len pre by (simp add: sm1_def put_def)
  define nonce where "nonce = sc25519_reduce (crypto_hash_sha512 (take (n + 32) (drop 32 sm1)) (n + 32))"
  have "take (n + 32) (drop 32 sm1) = ed_prefix seed @ m" using len pre by (simp add: sm1)
  then have N: "length nonce = 64" "le_nat (take 32 nonce) = ed_hash (ed_prefix seed @ m)"
    using reduced_hash [of "ed_prefix seed @ m" "n + 32"] len pre by (simp_all add: nonce_def)
  define R where "R = ge_val (ge25519_scalarmult_base junk nonce)"
  have R: "ed_multiple ed_base (ed_hash (ed_prefix seed @ m)) R" "ge25519_tobytes (ge25519_scalarmult_base junk nonce) = ed_encode R"
    using scalarmult_base_multiple [OF junk, of nonce] N by (simp_all add: R_def)
  define sm2 where "sm2 = put (put sm1 32 pk) 0 (ed_encode R)"
  have sm2: "sm2 = ed_encode R @ pk @ m"
    using len pre pk by (simp add: sm2_def sm1 put_def length_ed_encode)
  define hram where "hram = sc25519_reduce (crypto_hash_sha512 (take (n + 64) sm2) (n + 64))"
  have "take (n + 64) sm2 = ed_encode R @ pk @ m" using len pk by (simp add: sm2 length_ed_encode)
  then have H: "length hram = 64" "le_nat (take 32 hram) = ed_hash (ed_encode R @ pk @ m)"
    using reduced_hash [of "ed_encode R @ pk @ m" "n + 64"] len pk by (simp_all add: hram_def length_ed_encode)
  define S where "S = sc25519_muladd (take 32 (drop 32 sm2)) hram sk nonce"
  have S: "S = le_bytes 32 ((ed_hash (ed_encode R @ pk @ m) * ed_secret seed + ed_hash (ed_prefix seed @ m)) mod L_nat)"
    unfolding S_def using sc25519_muladd_eq [of hram sk nonce "take 32 (drop 32 sm2)"] H N K pk
    by (simp add: sm2 length_ed_encode)
  have "put sm2 32 S = ed_encode R @ S @ m"
    using pk S by (simp add: sm2 put_def length_ed_encode)
  moreover have "crypto_sign_ed25519 junk sm m n skorig = (0, put sm2 32 S, n + 64)"
    unfolding crypto_sign_ed25519_def Let_def seed_def [symmetric] pk_def [symmetric] sk_def [symmetric] pre m sm1_def [symmetric]
      nonce_def [symmetric] R(2) sm2_def [symmetric] hram_def [symmetric] S_def [symmetric] ..
  ultimately show ?thesis using R(1) unfolding seed_def [symmetric] pk(1) [symmetric] S
    by (intro exI [of _ R]) simp
qed

section \<open>Verification\<close>

lemma top_bits_of_S:
  assumes "length s = 32"
  shows "s ! 31 AND 224 = (0 :: u8) \<longleftrightarrow> le_nat s < 2 ^ 253"
proof -
  have s: "le_nat s = le_nat (take 31 s) + 2 ^ 248 * unat (s ! 31)"
    using assms le_nat_append [of "take 31 s" "[s ! 31]"] take_Suc_conv_app_nth [of 31 s] by simp
  have lt: "le_nat (take 31 s) < 2 ^ 248" using le_nat_lt [of "take 31 s"] assms by simp
  have "(224 :: u8) = push_bit 5 (mask 3)" by (simp add: mask_eq_exp_minus_1)
  then have "bit (224 :: u8) i \<longleftrightarrow> 5 \<le> i \<and> i < 8" for i by (simp only: bit_push_bit_iff bit_mask_iff) auto
  then have "s ! 31 AND 224 = 0 \<longleftrightarrow> (\<forall>i<8. 5 \<le> i \<longrightarrow> \<not> bit (s ! 31) i)"
    by (auto simp: bit_eq_iff bit_and_iff dest: bit_imp_le_length)
  also have "\<dots> \<longleftrightarrow> drop_bit 5 (s ! 31) = 0"
  proof
    assume a: "\<forall>i<8. 5 \<le> i \<longrightarrow> \<not> bit (s ! 31) i"
    have "\<not> bit (s ! 31) (5 + i)" for i
      using a bit_imp_le_length [of "s ! 31" "5 + i"] by auto
    then show "drop_bit 5 (s ! 31) = 0" by (auto simp: bit_eq_iff bit_drop_bit_eq)
  next
    assume a: "drop_bit 5 (s ! 31) = 0"
    show "\<forall>i<8. 5 \<le> i \<longrightarrow> \<not> bit (s ! 31) i"
    proof (intro allI impI)
      fix i :: nat assume "5 \<le> i"
      then obtain k where "i = 5 + k" using le_Suc_ex by blast
      then show "\<not> bit (s ! 31) i" using a bit_drop_bit_eq [of 5 "s ! 31"] by (simp add: fun_eq_iff comp_def)
    qed
  qed
  also have "\<dots> \<longleftrightarrow> unat (drop_bit 5 (s ! 31)) = 0" by (simp only: unat_eq_zero)
  also have "\<dots> \<longleftrightarrow> unat (s ! 31) < 32" unfolding unat_drop_bit by (simp add: div_eq_0_iff)
  also have "\<dots> \<longleftrightarrow> le_nat s < 2 ^ 253"
  proof
    assume "unat (s ! 31) < 32"
    then have "2 ^ 248 * (unat (s ! 31) + 1) \<le> 2 ^ 248 * 32" by simp
    then show "le_nat s < 2 ^ 253" using s lt by simp
  next
    assume "le_nat s < 2 ^ 253"
    then show "unat (s ! 31) < 32" using s by simp
  qed
  finally show ?thesis .
qed

lemma open_correct:
  assumes len: "length pk = 32" "length sm = n" "length m = n" "n < 2 ^ 64" and junk: "ge_ok junk"
  shows "case (if n < 64 \<or> 2 ^ 253 \<le> le_nat (take 32 (drop 32 sm)) then None else ed_decode_negate pk) of
      None \<Rightarrow> crypto_sign_ed25519_open junk m sm n pk = Inr (- 1, replicate n 0, None)
    | Some (x, y) \<Rightarrow> \<exists>P Q. ed_multiple ed_base (le_nat (take 32 (drop 32 sm))) P \<and>
        ed_multiple (x, y, 1, x * y mod P25519) (ed_hash (take 32 sm @ pk @ drop 64 sm)) Q \<and>
        crypto_sign_ed25519_open junk m sm n pk =
          (if ed_encode (ed_add P Q) = take 32 sm then Inr (0, drop 64 sm @ replicate 64 0, Some (n - 64))
           else Inr (- 1, replicate n 0, None))"
proof -
  have clear: "put a 0 (replicate n 0) = replicate n 0" if "length a = n" for a using that by (simp add: put_def)
  consider "n < 64" | "64 \<le> n" "2 ^ 253 \<le> le_nat (take 32 (drop 32 sm))" | "64 \<le> n" "le_nat (take 32 (drop 32 sm)) < 2 ^ 253" by linarith
  then show ?thesis
  proof cases
    case 1
    then show ?thesis using clear [OF len(3)] by (simp add: crypto_sign_ed25519_open_def Let_def)
  next
    case 2
    then have "sm ! 63 AND 224 \<noteq> 0" using top_bits_of_S [of "take 32 (drop 32 sm)"] len by simp
    then show ?thesis using clear [OF len(3)] 2 by (simp add: crypto_sign_ed25519_open_def Let_def)
  next
    case 3
    then have top: "sm ! 63 AND 224 = 0" using top_bits_of_S [of "take 32 (drop 32 sm)"] len by simp
    define S where "S = take 32 (drop 32 sm)"
    have S: "length S = 32" "take 32 S = S" using 3 len by (simp_all add: S_def)
    obtain r where r: "ge25519_frombytes_negate_vartime pk = Inr r"
      "case ed_decode_negate pk of None \<Rightarrow> r = None
        | Some (x, y) \<Rightarrow> \<exists>h. r = Some h \<and> ge_ok h \<and> ge_val h = (x, y, 1, x * y mod P25519)"
      using ge25519_frombytes_val [of pk] len by auto
    show ?thesis
    proof (cases "ed_decode_negate pk")
      case None
      then show ?thesis using r clear [OF len(3)] 3 top by (simp add: crypto_sign_ed25519_open_def Let_def)
    next
      case (Some xy)
      obtain x y where xy: "xy = (x, y)" by (cases xy)
      obtain A where A: "r = Some A" "ge_ok A" "ge_val A = (x, y, 1, x * y mod P25519)" using r(2) Some xy by auto
      define m1 where "m1 = put (put m 0 (take n sm)) 32 (take 32 pk)"
      have m1: "m1 = take 32 sm @ pk @ drop 64 sm" "take n m1 = m1" "length m1 = n"
        using len 3 by (simp_all add: m1_def put_def)
      define h where "h = sc25519_reduce (crypto_hash_sha512 (take n m1) n)"
      have h: "length h = 64" "le_nat (take 32 h) = ed_hash (take 32 sm @ pk @ drop 64 sm)"
      proof -
        have "length m1 < 2 ^ 64" "n = length m1" using m1(3) len(4) by simp_all
        note r = reduced_hash [OF this]
        show "length h = 64" unfolding h_def m1(2) by (rule r(2))
        show "le_nat (take 32 h) = ed_hash (take 32 sm @ pk @ drop 64 sm)" unfolding h_def m1(2) m1(1) [symmetric] by (rule r(3))
      qed
      define Q where "Q = ge25519_scalarmult junk A h"
      define P where "P = ge25519_scalarmult_base junk S"
      have Q: "ge_ok Q" "ed_multiple (x, y, 1, x * y mod P25519) (ed_hash (take 32 sm @ pk @ drop 64 sm)) (ge_val Q)"
        using ge25519_scalarmult_multiple [OF A(2) _ junk, of h] h A(3) by (simp_all add: Q_def ge_multiple_def)
      have P: "ge_ok P" "ed_multiple ed_base (le_nat S) (ge_val P)"
        using scalarmult_base_multiple [OF junk, of S] S by (simp_all add: P_def)
      define c where "c = ge25519_tobytes (ge25519_add P Q)"
      have c: "c = ed_encode (ed_add (ge_val P) (ge_val Q))"
        unfolding c_def using ge25519_add_val [OF P(1) Q(1)] by (simp add: ge25519_tobytes_val)
      have v: "crypto_verify_32 c (take 32 sm) = Inr (if c = take 32 sm then 0 else - 1)"
        using crypto_verify_32_iff [of c "take 32 sm"] 3 len by (simp add: c length_ed_encode)
      have out: "put (put m1 0 (take (n - 64) (drop 64 m1))) (n - 64) (replicate 64 0) = drop 64 sm @ replicate 64 0"
        using 3 len by (simp add: m1(1) put_def)
      have res: "crypto_sign_ed25519_open junk m sm n pk =
          (if c = take 32 sm then Inr (0, drop 64 sm @ replicate 64 0, Some (n - 64)) else Inr (- 1, replicate n 0, None))"
        using 3 top clear [OF m1(3)]
        unfolding crypto_sign_ed25519_open_def Let_def r(1) bindr_Inr A(1) option.case m1_def [symmetric] h_def [symmetric]
          S_def [symmetric] Q_def [symmetric] P_def [symmetric] c_def [symmetric] v out by simp
      have cond: "(if n < 64 \<or> 2 ^ 253 \<le> le_nat S then None else ed_decode_negate pk) = Some (x, y)"
        using 3 Some xy by (simp add: S_def)
      show ?thesis
        unfolding S_def [symmetric] cond option.case prod.case
        by (rule exI [of _ "ge_val P"], rule exI [of _ "ge_val Q"], rule conjI [OF P(2) conjI [OF Q(2) res [unfolded c]]])
    qed
  qed
qed

section \<open>Properties\<close>

text \<open>
  C21. Signing is Ed25519 of RFC 8032, section 5.1.6: with the clamped secret scalar s and the prefix from the
  hash of the seed, r the hash of prefix and message modulo L, R the r-th multiple of the base point and k
  the hash of the encoded R, the public key and the message, the result is R, \<open>(k * s + r) mod L\<close> and the
  message. Key generation takes 32 random bytes as the seed and publishes the s-th multiple.
\<close>

theorem ed25519_sign_rfc8032:
  assumes "length sk = 64" "length m = n" "length sm = n + 64" "n + 64 < 2 ^ 64" and "ge_ok junk"
  shows "(\<exists>R. ed_multiple ed_base (ed_hash (ed_prefix (take 32 sk) @ m)) R \<and>
      crypto_sign_ed25519 junk sm m n sk =
        (0, ed_encode R @ le_bytes 32 ((ed_hash (ed_encode R @ drop 32 sk @ m) * ed_secret (take 32 sk) +
              ed_hash (ed_prefix (take 32 sk) @ m)) mod L_nat) @ m, n + 64)) \<and>
    (\<exists>A. ed_multiple ed_base (ed_secret (map rnd [0..<32])) A \<and>
      crypto_sign_ed25519_keypair junk rnd = (0, ed_encode A, map rnd [0..<32] @ ed_encode A, 32))"
proof
  show "\<exists>R. ed_multiple ed_base (ed_hash (ed_prefix (take 32 sk) @ m)) R \<and>
      crypto_sign_ed25519 junk sm m n sk =
        (0, ed_encode R @ le_bytes 32 ((ed_hash (ed_encode R @ drop 32 sk @ m) * ed_secret (take 32 sk) +
              ed_hash (ed_prefix (take 32 sk) @ m)) mod L_nat) @ m, n + 64)"
    using assms by (rule sign_correct)
  define seed where "seed = map rnd [0..<32]"
  note K = hashed_key [of seed]
  have len: "length seed = 32" by (simp add: seed_def)
  note A = scalarmult_base_multiple [OF assms(5), of "clamp_hash (crypto_hash_sha512 seed 32)"]
  show "\<exists>A. ed_multiple ed_base (ed_secret (map rnd [0..<32])) A \<and>
      crypto_sign_ed25519_keypair junk rnd = (0, ed_encode A, map rnd [0..<32] @ ed_encode A, 32)"
    unfolding seed_def [symmetric] crypto_sign_ed25519_keypair_def Let_def
    using A K [OF len] by (intro exI [of _ "ge_val (ge25519_scalarmult_base junk (clamp_hash (crypto_hash_sha512 seed 32)))"]) simp
qed

theorem ed25519_sign_witness:
  "\<exists>R. ed_multiple ed_base (ed_hash (ed_prefix (replicate 32 1) @ [7])) R \<and>
      crypto_sign_ed25519 neutral (replicate 65 0) [7] 1 (replicate 64 1) =
        (0, ed_encode R @ le_bytes 32 ((ed_hash (ed_encode R @ replicate 32 1 @ [7]) * ed_secret (replicate 32 1) +
              ed_hash (ed_prefix (replicate 32 1) @ [7])) mod L_nat) @ [7], 65)"
proof -
  have "ge_ok neutral" by (simp add: ge_ok_def neutral_def)
  from ed25519_sign_rfc8032 [of "replicate 64 1" "[7]" 1 "replicate 65 0" neutral, OF _ _ _ _ this]
  show ?thesis by simp
qed

text \<open>
  C20. Verification is the check of RFC 8032, section 5.1.7, up to the range of S: a signed message is opened
  exactly if it has 64 bytes, S is below \<open>2 ^ 253\<close>, the public key decodes to a point -A and R is the
  encoding of S times the base point plus k times -A, k the hash of R, the key and the message modulo L.
  Then the message is released; in every other case the array is cleared and -1 returned. No case fails to
  return.
\<close>

theorem ed25519_open_rfc8032:
  assumes "length pk = 32" "length sm = n" "length m = n" "n < 2 ^ 64" and "ge_ok junk"
  shows "case (if n < 64 \<or> 2 ^ 253 \<le> le_nat (take 32 (drop 32 sm)) then None else ed_decode_negate pk) of
      None \<Rightarrow> crypto_sign_ed25519_open junk m sm n pk = Inr (- 1, replicate n 0, None)
    | Some (x, y) \<Rightarrow> \<exists>P Q. ed_multiple ed_base (le_nat (take 32 (drop 32 sm))) P \<and>
        ed_multiple (x, y, 1, x * y mod P25519) (ed_hash (take 32 sm @ pk @ drop 64 sm)) Q \<and>
        crypto_sign_ed25519_open junk m sm n pk =
          (if ed_encode (ed_add P Q) = take 32 sm then Inr (0, drop 64 sm @ replicate 64 0, Some (n - 64))
           else Inr (- 1, replicate n 0, None))"
  using assms by (rule open_correct)

theorem ed25519_open_witness:
  "crypto_sign_ed25519_open neutral (replicate 64 1) (replicate 64 255) 64 (replicate 32 0) = Inr (- 1, replicate 64 0, None)"
proof -
  have ok: "ge_ok neutral" by (simp add: ge_ok_def neutral_def)
  have "2 ^ 253 \<le> le_nat (take 32 (drop 32 (replicate 64 255)))"
    using top_bits_of_S [of "replicate 32 255"] by simp
  then show ?thesis using ed25519_open_rfc8032 [of "replicate 32 0" "replicate 64 255" 64 "replicate 64 1" neutral] ok by simp
qed

end
