(* ===== verification/Packet.thy ===== *)
theory Packet
  imports Sshcrypto Chacha Poly1305
begin

text \<open>
  The SSH packet layer: struct tinyssh_packet (tinyssh-config.h), port_packet.c, packet_put.c,
  packet_get.c, packet_send.c, packet_recv.c, packet_unimplemented.c, writeall.c, randommod.c and
  port_sshcrypto_cipher_chachapoly.c. Constants are those of tinyssh-config.h. Operations are
  polymorphic in the record scheme, so that later theories can add fields to the state.
\<close>

section \<open>The environment\<close>

text \<open>
  What the socket does is a script. A receive event is a batch of bytes (an empty one is the end of
  the stream), a temporary error (\<open>EINTR\<close>, \<open>EAGAIN\<close>, \<open>EWOULDBLOCK\<close>) or another error; a send event
  accepts at most the given number of bytes or fails likewise. A script that is used up means that
  the code waits: \<open>Blocked\<close>.
\<close>

datatype rxev = Rx bytes | Rx_again | Rx_error
datatype txev = Tx nat | Tx_again | Tx_error

definition PACKET_UNAUTHENTICATED_MESSAGES :: nat where
  "PACKET_UNAUTHENTICATED_MESSAGES = 30"

definition PACKET_LIMIT :: nat where
  "PACKET_LIMIT = 4096"

definition PACKET_FULLLIMIT :: int where
  "PACKET_FULLLIMIT = 4300"

definition PACKET_ZEROBYTES :: int where
  "PACKET_ZEROBYTES = 64"

text \<open>The message numbers of ssh.h the server uses.\<close>

abbreviation SSH_MSG_DISCONNECT :: u8 where "SSH_MSG_DISCONNECT \<equiv> 1"
abbreviation SSH_MSG_IGNORE :: u8 where "SSH_MSG_IGNORE \<equiv> 2"
abbreviation SSH_MSG_UNIMPLEMENTED :: u8 where "SSH_MSG_UNIMPLEMENTED \<equiv> 3"
abbreviation SSH_MSG_DEBUG :: u8 where "SSH_MSG_DEBUG \<equiv> 4"
abbreviation SSH_MSG_SERVICE_REQUEST :: u8 where "SSH_MSG_SERVICE_REQUEST \<equiv> 5"
abbreviation SSH_MSG_SERVICE_ACCEPT :: u8 where "SSH_MSG_SERVICE_ACCEPT \<equiv> 6"
abbreviation SSH_MSG_KEXINIT :: u8 where "SSH_MSG_KEXINIT \<equiv> 20"
abbreviation SSH_MSG_NEWKEYS :: u8 where "SSH_MSG_NEWKEYS \<equiv> 21"
abbreviation SSH_MSG_KEXDH_INIT :: u8 where "SSH_MSG_KEXDH_INIT \<equiv> 30"
abbreviation SSH_MSG_KEXDH_REPLY :: u8 where "SSH_MSG_KEXDH_REPLY \<equiv> 31"
abbreviation SSH_MSG_USERAUTH_REQUEST :: u8 where "SSH_MSG_USERAUTH_REQUEST \<equiv> 50"
abbreviation SSH_MSG_USERAUTH_FAILURE :: u8 where "SSH_MSG_USERAUTH_FAILURE \<equiv> 51"
abbreviation SSH_MSG_USERAUTH_SUCCESS :: u8 where "SSH_MSG_USERAUTH_SUCCESS \<equiv> 52"
abbreviation SSH_MSG_USERAUTH_PK_OK :: u8 where "SSH_MSG_USERAUTH_PK_OK \<equiv> 60"

text \<open>
  struct tinyssh_packet, with each buffer's space inside its \<open>buf\<close>, the algorithm tables
  (\<open>crypt\<close>), the two scripts, the bytes sent so far, the random bytes and how many were used, and
  the string \<open>log_string\<close> returns. The flags are ints that hold 0 or 1.
\<close>

record net =
  crypt :: sshc
  flagkeys :: bool
  flagauthorized :: bool
  flagrekeying :: bool
  flageofsent :: bool
  flagclosesent :: bool
  flagchanneleofreceived :: bool
  sendpacketid :: u32
  receivepacketid :: u32
  serverkey :: bytes
  clientkey :: bytes
  servermackey :: bytes
  clientmackey :: bytes
  servernonce :: bytes
  clientnonce :: bytes
  sessionid :: bytes
  pname :: bytes
  kex_packet_follows :: u8
  kex_guess :: u8
  hellosend :: buf
  helloreceive :: buf
  kexsend :: buf
  kexrecv :: buf
  hashbuf :: buf
  recvbuf :: buf
  sendbuf :: buf
  packet_length :: u32
  rxs :: "rxev list"
  txs :: "txev list"
  sent :: bytes
  rnds :: "nat \<Rightarrow> u8"
  rndpos :: nat
  logstr :: bytes

definition null_buf :: buf where
  "null_buf = \<lparr>bmem = [], blen = 0, balloc = 0\<rparr>"

text \<open>
  \<open>packet_init\<close> after its allocation succeeded (a null \<open>packet_ptr\<close> would be dereferenced by
  every other function); \<open>sessionid\<close> has 64 bytes, \<open>name\<close> has 257, the keys 128 each.
\<close>

definition packet_init :: "'a net_scheme \<Rightarrow> 'a net_scheme res" where
  "packet_init w =
     (let key0 = replicate 128 0;
          w = w\<lparr>flagkeys := False, flagauthorized := False, flagrekeying := False, flageofsent := False,
                flagclosesent := False, flagchanneleofreceived := False, sendpacketid := 0, receivepacketid := 0,
                serverkey := key0, clientkey := key0, servermackey := key0, clientmackey := key0,
                servernonce := key0, clientnonce := key0, sessionid := replicate 64 0, pname := replicate 257 0,
                kex_packet_follows := 0, kex_guess := 0, packet_length := 0\<rparr>
      in bindr (buf_init null_buf (replicate 256 0) 256) (\<lambda>b1.
         bindr (buf_init null_buf (replicate 256 0) 256) (\<lambda>b2.
         bindr (buf_init null_buf (replicate 1024 0) 1024) (\<lambda>b3.
         bindr (buf_init null_buf (replicate 8192 0) 8192) (\<lambda>b4.
         bindr (buf_init null_buf (replicate 8192 0) 8192) (\<lambda>b5.
         bindr (buf_init null_buf (replicate 17201 0) 17201) (\<lambda>b6.
         bindr (buf_init null_buf (replicate 17265 0) 17265) (\<lambda>b7.
           Inr (w\<lparr>hellosend := b1, helloreceive := b2, kexsend := b3, kexrecv := b4, hashbuf := b5,
                  sendbuf := b6, recvbuf := b7\<rparr>)))))))))"

section \<open>randombytes, randommod.c\<close>

definition randombytes :: "nat \<Rightarrow> 'a net_scheme \<Rightarrow> bytes \<times> 'a net_scheme" where
  "randombytes n w = (map (rnds w) [rndpos w..<rndpos w + n], w\<lparr>rndpos := rndpos w + n\<rparr>)"

definition randommod :: "int \<Rightarrow> 'a net_scheme \<Rightarrow> int \<times> 'a net_scheme" where
  "randommod n w =
     (if n \<le> 1 then (0, w)
      else let (r, w) = randombytes 32 w
           in (foldl (\<lambda>result b. (result * 256 + uint b) mod n) 0 r, w))"

section \<open>writeall.c, packet_send.c\<close>

primrec writeall :: "txev list \<Rightarrow> bytes \<Rightarrow> bytes \<Rightarrow> (bool \<times> txev list \<times> bytes) res" where
  "writeall [] x out = (if x = [] then Inr (True, [], out) else Inl Blocked)"
| "writeall (e # es) x out =
     (if x = [] then Inr (True, e # es, out)
      else case e of
        Tx n \<Rightarrow> (let w = min n (min (length x) 1048576) in writeall es (drop w x) (out @ take w x))
      | Tx_again \<Rightarrow> writeall es x out
      | Tx_error \<Rightarrow> Inr (False, es, out))"

text \<open>\<open>writeall(1, buf, len)\<close>; the result is whether it returned 0.\<close>

definition net_writeall :: "buf \<Rightarrow> 'a net_scheme \<Rightarrow> (bool \<times> 'a net_scheme) res" where
  "net_writeall b w =
     bindr (rd (bmem b) 0 (blen b)) (\<lambda>x.
     bindr (writeall (txs w) x (sent w)) (\<lambda>(ok, es, out). Inr (ok, w\<lparr>txs := es, sent := out\<rparr>)))"

definition packet_sendisready :: "'a net_scheme \<Rightarrow> bool" where
  "packet_sendisready w \<longleftrightarrow> blen (sendbuf w) > 0"

definition packet_send :: "'a net_scheme \<Rightarrow> (bool \<times> 'a net_scheme) res" where
  "packet_send w =
     (let b = sendbuf w in
      if blen b \<le> 0 then Inr (True, w)
      else case txs w of
        [] \<Rightarrow> Inl Blocked
      | Tx_again # es \<Rightarrow> Inr (True, w\<lparr>txs := es\<rparr>)
      | Tx_error # es \<Rightarrow> Inr (False, w\<lparr>txs := es\<rparr>)
      | Tx n # es \<Rightarrow>
          let k = min (int n) (blen b) in
          bindr (rd (bmem b) 0 k) (\<lambda>x.
          bindr (byte_move (bmem b) 0 (blen b - k) k) (\<lambda>m.
          bindr (purge m (blen b - k) k) (\<lambda>m.
            Inr (True, w\<lparr>txs := es, sent := sent w @ x, sendbuf := b\<lparr>bmem := m, blen := blen b - k\<rparr>\<rparr>)))))"

definition packet_sendall :: "'a net_scheme \<Rightarrow> (bool \<times> 'a net_scheme) res" where
  "packet_sendall w =
     bindr (net_writeall (sendbuf w) w) (\<lambda>(ok, w).
       if \<not> ok then Inr (False, w)
       else bindr (purge (bmem (sendbuf w)) 0 (blen (sendbuf w))) (\<lambda>m.
              Inr (True, w\<lparr>sendbuf := (sendbuf w)\<lparr>bmem := m, blen := 0\<rparr>\<rparr>)))"

section \<open>packet_recv.c\<close>

definition packet_recvisready :: "'a net_scheme \<Rightarrow> bool res" where
  "packet_recvisready w = buf_ready (recvbuf w) PACKET_FULLLIMIT"

text \<open>What is left of a batch after a read.\<close>

definition rx_rest :: "bytes \<Rightarrow> rxev list \<Rightarrow> rxev list" where
  "rx_rest rest es = (if rest = [] then es else Rx rest # es)"

definition packet_recv_read :: "'a net_scheme \<Rightarrow> (bool \<times> 'a net_scheme) res" where
  "packet_recv_read w =
     (case rxs w of
        [] \<Rightarrow> Inl Blocked
      | e # es \<Rightarrow>
          (case e of
             Rx_again \<Rightarrow> Inr (True, w\<lparr>rxs := es\<rparr>)
           | Rx_error \<Rightarrow> Inr (False, w\<lparr>rxs := es\<rparr>)
           | Rx xs \<Rightarrow>
               if xs = [] then Inr (False, w\<lparr>rxs := es\<rparr>)
               else let r = take (nat PACKET_FULLLIMIT) xs; rest = drop (nat PACKET_FULLLIMIT) xs; b = recvbuf w
                    in bindr (wr (bmem b) (blen b) r) (\<lambda>m.
                         Inr (True, w\<lparr>rxs := rx_rest rest es,
                                      recvbuf := b\<lparr>bmem := m, blen := blen b + int (length r)\<rparr>\<rparr>))))"

definition packet_recv :: "'a net_scheme \<Rightarrow> (bool \<times> 'a net_scheme) res" where
  "packet_recv w =
     bindr (if blen (recvbuf w) < PACKET_ZEROBYTES
            then bindr (purge (bmem (recvbuf w)) 0 PACKET_ZEROBYTES) (\<lambda>m.
                   Inr (w\<lparr>recvbuf := (recvbuf w)\<lparr>bmem := m, blen := PACKET_ZEROBYTES\<rparr>\<rparr>))
            else Inr w) (\<lambda>w.
     bindr (packet_recvisready w) (\<lambda>ready.
       if \<not> ready then Inr (True, w) else packet_recv_read w))"

section \<open>port_sshcrypto_cipher_chachapoly.c\<close>

text \<open>
  \<open>sshcrypto_stream_xor(buf + off, buf + off, l, n, k)\<close> and \<open>sshcrypto_auth(.., buf + off, l, k)\<close>,
  the function pointers of the selected cipher. A null pointer is not called successfully.
\<close>

definition stream_xor_at :: "sshc \<Rightarrow> bytes \<Rightarrow> int \<Rightarrow> int \<Rightarrow> bytes \<Rightarrow> bytes \<Rightarrow> bytes res" where
  "stream_xor_at s m off l n k =
     (case cipher_sel s of
        None \<Rightarrow> Inl Oob
      | Some c \<Rightarrow> (case ci_fn c of
          None \<Rightarrow> Inl Oob
        | Some Chachapoly \<Rightarrow>
            bindr (rd k 0 32) (\<lambda>k.
            bindr (rd m off l) (\<lambda>x. wr m off (snd (crypto_stream_chacha20_xor x (nat l) n k))))))"

definition auth_at :: "sshc \<Rightarrow> bytes \<Rightarrow> int \<Rightarrow> int \<Rightarrow> bytes \<Rightarrow> bytes res" where
  "auth_at s m off l k =
     (case cipher_sel s of
        None \<Rightarrow> Inl Oob
      | Some c \<Rightarrow> (case ci_fn c of
          None \<Rightarrow> Inl Oob
        | Some Chachapoly \<Rightarrow>
            bindr (rd k 0 32) (\<lambda>k.
            bindr (rd m off l) (\<lambda>x. Inr (crypto_onetimeauth_poly1305 x (nat l) k)))))"

definition cipher_blockbytes :: "sshc \<Rightarrow> int" where
  "cipher_blockbytes s = (case cipher_sel s of None \<Rightarrow> 0 | Some c \<Rightarrow> int (ci_blockbytes c))"

definition auth_bytes :: "sshc \<Rightarrow> int" where
  "auth_bytes s = (case cipher_sel s of None \<Rightarrow> 0 | Some c \<Rightarrow> int (ci_authbytes c))"

definition ZB :: int where
  "ZB = 60"

text \<open>\<open>byte_zero(n, 4); uint32_pack_big(n + 4, id);\<close>\<close>

definition packet_nonce :: "u32 \<Rightarrow> bytes" where
  "packet_nonce i = replicate 4 0 @ uint32_pack_big i"

text \<open>
  From the encryption to the end: \<open>m\<close> is the send buffer with the 60 zero bytes, the length field,
  the packet and the space for the tag at \<open>pos\<close>; \<open>len\<close> is \<open>sendbuf->len\<close>.
\<close>

definition chachapoly_seal :: "sshc \<Rightarrow> bytes \<Rightarrow> bytes \<Rightarrow> int \<Rightarrow> int \<Rightarrow> bytes \<Rightarrow> bytes res" where
  "chachapoly_seal s key n pos len m =
     (let AB = auth_bytes s in
      bindr (stream_xor_at s m pos (len - pos - AB) n key) (\<lambda>m.
      bindr (wr m (pos + ZB) (uint32_pack_big (word_of_int (len - pos - AB - 4 - ZB)))) (\<lambda>m.
      bindr (stream_xor_at s m (pos + ZB) 4 n (drop 32 key)) (\<lambda>m.
      bindr (auth_at s m (pos + ZB) (len - AB - pos - ZB) (drop (nat pos) m)) (\<lambda>tag.
      bindr (wr m (len - AB) tag) (\<lambda>m.
      bindr (byte_move m pos (len - pos - ZB) (pos + ZB)) (\<lambda>m.
        purge m (len - ZB) ZB)))))))"

definition chachapoly_packet_put :: "buf \<Rightarrow> 'a net_scheme \<Rightarrow> 'a net_scheme res" where
  "chachapoly_packet_put b w =
     (let s = crypt w; BB = cipher_blockbytes s; pos = blen (sendbuf w) in
      bindr (buf_putzerobytes (sendbuf w) ZB) (\<lambda>sb.
      bindr (buf_putnum32 sb 0) (\<lambda>sb.
      bindr (buf_putnum8 sb 0) (\<lambda>sb.
      bindr (buf_put sb (bmem b) (blen b)) (\<lambda>sb.
      let n = packet_nonce (sendpacketid w); w = w\<lparr>sendpacketid := sendpacketid w + 1\<rparr>;
          paddinglen = (word_of_int (2 * BB - (blen sb - pos - ZB) mod BB + 4) :: u8);
          (r, w) = randommod 2 w; paddinglen = paddinglen + word_of_int (r * BB) in
      bindr (buf_putpadding sb (uint paddinglen)) (\<lambda>sb.
      bindr (wr1 (bmem sb) (pos + ZB + 4) paddinglen) (\<lambda>m.
      bindr (buf_putzerobytes (sb\<lparr>bmem := m\<rparr>) (auth_bytes s)) (\<lambda>sb.
      bindr (chachapoly_seal s (serverkey w) n pos (blen sb) (bmem sb)) (\<lambda>m.
        Inr (w\<lparr>sendbuf := sb\<lparr>bmem := m, blen := blen sb - ZB\<rparr>\<rparr>))))))))))"

text \<open>
  The middle of \<open>chachapoly_packet_get\<close>: the packet of \<open>pl\<close> bytes behind its length field is
  authenticated and decrypted in place.
\<close>

definition chachapoly_unseal :: "sshc \<Rightarrow> bytes \<Rightarrow> bytes \<Rightarrow> int \<Rightarrow> bytes \<Rightarrow> bytes res" where
  "chachapoly_unseal s key n pl m =
     bindr (byte_zero m 0 32) (\<lambda>m.
     bindr (stream_xor_at s m 0 32 n key) (\<lambda>m.
     bindr (auth_at s m PACKET_ZEROBYTES (pl + 4) m) (\<lambda>tag.
     bindr (crypto_verify_16 tag (drop (nat (PACKET_ZEROBYTES + pl + 4)) m)) (\<lambda>v.
     if v \<noteq> 0 then Inl Eproto
     else stream_xor_at s m 4 (pl + PACKET_ZEROBYTES) n key))))"

text \<open>
  The end of both \<open>get\<close> functions: the first packet, \<open>pl\<close> bytes and \<open>x\<close> bytes of length field and
  tag, is removed from the receive buffer. \<open>x\<close> is added after \<open>pl\<close> is subtracted, as in the code:
  the copy and the purge run \<open>2 * x\<close> bytes past \<open>recvbuf->len\<close>.
\<close>

definition drop_packet :: "int \<Rightarrow> int \<Rightarrow> int \<Rightarrow> bytes \<Rightarrow> bytes res" where
  "drop_packet len pl x m =
     (let l = len - PACKET_ZEROBYTES in
      bindr (byte_move m PACKET_ZEROBYTES (l - pl + x) (PACKET_ZEROBYTES + pl + x)) (\<lambda>m.
        purge m (PACKET_ZEROBYTES + l - pl + x) (pl + x)))"

definition chachapoly_packet_length :: "'a net_scheme \<Rightarrow> 'a net_scheme res" where
  "chachapoly_packet_length w =
     (if packet_length w = 0
      then bindr (rd (bmem (recvbuf w)) PACKET_ZEROBYTES 4) (\<lambda>x.
           bindr (stream_xor_at (crypt w) x 0 4 (packet_nonce (receivepacketid w)) (drop 32 (clientkey w))) (\<lambda>x.
           bindr (uint32_unpack_big x 0) (\<lambda>l. Inr (w\<lparr>packet_length := l\<rparr>))))
      else Inr w)"

text \<open>The result is the caller's buffer and the state; the return value is always 1.\<close>

definition chachapoly_packet_get :: "buf \<Rightarrow> 'a net_scheme \<Rightarrow> (buf \<times> 'a net_scheme) res" where
  "chachapoly_packet_get b w =
     (let s = crypt w; AB = auth_bytes s; rb = recvbuf w in
      if blen rb - PACKET_ZEROBYTES < 4 then Inr (b, w\<lparr>packet_length := 0\<rparr>)
      else
        bindr (chachapoly_packet_length w) (\<lambda>w.
        let pl = uint (packet_length w) in
        if pl > int PACKET_LIMIT then Inl Eproto
        else if pl + AB + 4 > blen rb - PACKET_ZEROBYTES then Inr (b, w)
        else
          bindr (chachapoly_unseal s (clientkey w) (packet_nonce (receivepacketid w)) pl (bmem rb)) (\<lambda>m.
          bindr (rd1 m (PACKET_ZEROBYTES + 4)) (\<lambda>padlen.
          let len = pl - (uint padlen + 1) in
          if len \<le> 0 then Inl Eproto
          else
            bindr (buf_put b (drop (nat (PACKET_ZEROBYTES + 5)) m) len) (\<lambda>b.
            bindr (drop_packet (blen rb) pl (AB + 4) m) (\<lambda>m.
            bindr (purge m 0 PACKET_ZEROBYTES) (\<lambda>m.
              Inr (b, w\<lparr>recvbuf := rb\<lparr>bmem := m, blen := blen rb - (pl + (AB + 4))\<rparr>,
                        receivepacketid := receivepacketid w + 1, packet_length := 0\<rparr>))))))))"

section \<open>packet_put.c\<close>

definition packet_put_plain :: "buf \<Rightarrow> 'a net_scheme \<Rightarrow> 'a net_scheme res" where
  "packet_put_plain b w =
     (let pos = blen (sendbuf w) in
      bindr (buf_putnum32 (sendbuf w) 0) (\<lambda>sb.
      bindr (buf_putnum8 sb 0) (\<lambda>sb.
      bindr (buf_put sb (bmem b) (blen b)) (\<lambda>sb.
      let w = w\<lparr>sendpacketid := sendpacketid w + 1\<rparr>;
          paddinglen = (word_of_int (2 * 8 - (blen sb - pos) mod 8) :: u8) in
      bindr (buf_putzerobytes sb (uint paddinglen)) (\<lambda>sb.
      bindr (wr1 (bmem sb) (pos + 4) paddinglen) (\<lambda>m.
      bindr (wr m pos (uint32_pack_big (word_of_int (blen sb - pos - 4)))) (\<lambda>m.
        Inr (w\<lparr>sendbuf := sb\<lparr>bmem := m\<rparr>\<rparr>))))))))"

definition packet_putisready :: "'a net_scheme \<Rightarrow> bool res" where
  "packet_putisready w = buf_ready (sendbuf w) PACKET_FULLLIMIT"

definition packet_put :: "buf \<Rightarrow> 'a net_scheme \<Rightarrow> 'a net_scheme res" where
  "packet_put b w =
     (if flagkeys w
      then (case cipher_sel (crypt w) of
              None \<Rightarrow> Inl Oob
            | Some c \<Rightarrow> (case ci_fn c of None \<Rightarrow> Inl Oob | Some Chachapoly \<Rightarrow> chachapoly_packet_put b w))
      else packet_put_plain b w)"

section \<open>packet_get.c\<close>

definition packet_get_plain :: "buf \<Rightarrow> 'a net_scheme \<Rightarrow> (buf \<times> 'a net_scheme) res" where
  "packet_get_plain b w =
     (let rb = recvbuf w; l = blen rb - PACKET_ZEROBYTES in
      if l < 4 then Inr (b, w)
      else
        bindr (uint32_unpack_big (bmem rb) PACKET_ZEROBYTES) (\<lambda>packet_length.
        let pl = uint packet_length in
        if pl > int PACKET_LIMIT then Inl Eproto
        else if pl + 4 > l then Inr (b, w)
        else
          bindr (rd1 (bmem rb) (PACKET_ZEROBYTES + 4)) (\<lambda>padlen.
          let len = pl - (uint padlen + 1) in
          if len \<le> 0 then Inl Eproto
          else
            bindr (buf_put b (drop (nat (PACKET_ZEROBYTES + 5)) (bmem rb)) len) (\<lambda>b.
            bindr (drop_packet (blen rb) pl 4 (bmem rb)) (\<lambda>m.
              Inr (b, w\<lparr>recvbuf := rb\<lparr>bmem := m, blen := blen rb - (pl + 4)\<rparr>,
                        receivepacketid := receivepacketid w + 1\<rparr>))))))"

definition packet_get_raw :: "buf \<Rightarrow> 'a net_scheme \<Rightarrow> (buf \<times> 'a net_scheme) res" where
  "packet_get_raw b w =
     (if flagkeys w
      then (case cipher_sel (crypt w) of
              None \<Rightarrow> Inl Oob
            | Some c \<Rightarrow> (case ci_fn c of None \<Rightarrow> Inl Oob | Some Chachapoly \<Rightarrow> chachapoly_packet_get b w))
      else packet_get_plain b w)"

text \<open>
  The result is the return value, the buffer and the state; 0 is returned only for a disconnect
  message, with \<open>errno\<close> 0. \<open>x\<close> is the expected type, 0 for any.
\<close>

definition packet_get :: "buf \<Rightarrow> u8 \<Rightarrow> 'a net_scheme \<Rightarrow> (bool \<times> buf \<times> 'a net_scheme) res" where
  "packet_get b x w =
     bindr (buf_purge b) (\<lambda>b.
     bindr (packet_get_raw b w) (\<lambda>(b, w).
       if blen b \<le> 0 then Inr (True, b, w)
       else if \<not> flagauthorized w \<and> unat (receivepacketid w) > PACKET_UNAUTHENTICATED_MESSAGES then Inl Eproto
       else
         bindr (rd1 (bmem b) 0) (\<lambda>t.
         if t = SSH_MSG_DISCONNECT then Inr (False, b, w)
         else if t = SSH_MSG_IGNORE \<or> t = SSH_MSG_DEBUG then bindr (buf_purge b) (\<lambda>b. Inr (True, b, w))
         else if x \<noteq> 0 \<and> x \<noteq> t then Inl Eproto
         else Inr (True, b, w))))"

section \<open>The receive loop\<close>

text \<open>
  The progress measure of \<open>packet_getall\<close>: reading shortens the script, taking a packet out of
  the buffer shortens the buffer.
\<close>

definition rx_weight :: "rxev list \<Rightarrow> nat" where
  "rx_weight es = (\<Sum>e\<leftarrow>es. case e of Rx xs \<Rightarrow> Suc (length xs) | _ \<Rightarrow> 1)"

lemma rx_weight_simps [simp]:
  "rx_weight [] = 0" "rx_weight (Rx xs # es) = Suc (length xs) + rx_weight es"
  "rx_weight (Rx_again # es) = Suc (rx_weight es)" "rx_weight (Rx_error # es) = Suc (rx_weight es)"
  by (simp_all add: rx_weight_def)

lemma rx_weight_rest: "length rest < length xs \<Longrightarrow> rx_weight (rx_rest rest es) < rx_weight (Rx xs # es)"
  by (simp add: rx_rest_def)

lemma packet_recv_read_weight:
  assumes "packet_recv_read w = Inr (r, w')"
  shows "rx_weight (rxs w') < rx_weight (rxs w)"
proof -
  obtain e es where e: "rxs w = e # es" using assms by (cases "rxs w") (simp_all add: packet_recv_read_def)
  show ?thesis
  proof (cases e)
    case (Rx xs)
    show ?thesis
    proof (cases "xs = []")
      case False
      have "0 < nat PACKET_FULLLIMIT" by (simp add: PACKET_FULLLIMIT_def)
      then have "length (drop (nat PACKET_FULLLIMIT) xs) < length xs" using False by (cases xs) auto
      note less = rx_weight_rest [OF this, of es]
      have "rxs w' = rx_rest (drop (nat PACKET_FULLLIMIT) xs) es"
        using assms e Rx False by (auto simp: packet_recv_read_def bindr_eq_Inr Let_def)
      then show ?thesis using less unfolding e Rx by (simp only:)
    qed (use assms e Rx in \<open>auto simp: packet_recv_read_def\<close>)
  qed (use assms e in \<open>auto simp: packet_recv_read_def\<close>)
qed

lemma packet_recv_weight:
  assumes "packet_recv w = Inr (r, w')"
  shows "rxs w' = rxs w \<or> rx_weight (rxs w') < rx_weight (rxs w)"
  using assms
  by (auto simp: packet_recv_def bindr_eq_Inr dest!: packet_recv_read_weight split: if_splits)

lemma auth_bytes_ge: "0 \<le> auth_bytes s"
  by (simp add: auth_bytes_def split: option.split)

text \<open>What every successful \<open>packet_get\<close> leaves as it was, and the progress it makes.\<close>

definition got :: "'a net_scheme \<Rightarrow> 'a net_scheme \<Rightarrow> bool" where
  "got w w' \<longleftrightarrow> rxs w' = rxs w \<and> txs w' = txs w \<and> sent w' = sent w \<and> crypt w' = crypt w \<and> flagkeys w' = flagkeys w \<and>
     sendbuf w' = sendbuf w \<and> balloc (recvbuf w') = balloc (recvbuf w) \<and>
     (blen (recvbuf w') \<noteq> blen (recvbuf w) \<longrightarrow>
       blen (recvbuf w') < blen (recvbuf w) \<and> PACKET_ZEROBYTES \<le> blen (recvbuf w'))"

lemma chachapoly_packet_length_only:
  assumes "chachapoly_packet_length w = Inr w'"
  shows "\<exists>l. w' = w\<lparr>packet_length := l\<rparr>"
proof (cases "packet_length w = 0")
  case True
  then show ?thesis using assms by (auto simp: chachapoly_packet_length_def bindr_eq_Inr)
next
  case False
  then have "w' = w\<lparr>packet_length := packet_length w\<rparr>" using assms by (simp add: chachapoly_packet_length_def)
  then show ?thesis by blast
qed

lemma chachapoly_packet_get_got:
  assumes "chachapoly_packet_get b w = Inr (b', w')"
  shows "got w w'"
proof -
  have pos: "0 < uint x + (auth_bytes (crypt w) + 4)" "- auth_bytes (crypt w) - 4 < uint x" for x :: u32
    using auth_bytes_ge [of "crypt w"] uint_ge_0 [of x] by linarith+
  show ?thesis
    using assms pos
    by (auto simp: got_def chachapoly_packet_get_def bindr_eq_Inr Let_def not_le not_less
        dest!: chachapoly_packet_length_only split: if_splits)
qed

lemma packet_get_plain_got:
  assumes "packet_get_plain b w = Inr (b', w')"
  shows "got w w'"
proof -
  have pos: "- uint x < 4" for x :: u32 using uint_ge_0 [of x] by linarith
  show ?thesis
    using assms pos
    by (auto simp: got_def packet_get_plain_def bindr_eq_Inr Let_def not_le not_less split: if_splits)
qed

lemma packet_get_got:
  assumes "packet_get b x w = Inr (r, b', w')"
  shows "got w w'"
  using assms
  by (auto simp: packet_get_def packet_get_raw_def bindr_eq_Inr
      dest!: chachapoly_packet_get_got packet_get_plain_got split: if_splits option.splits cipher_fn.splits)

text \<open>
  \<open>packet_getall\<close> without its first \<open>buf_purge\<close>. If the receive buffer has no room for another read
  the C loop spins without reading; the model reports it as \<open>Blocked\<close>.
\<close>

function getall_loop :: "buf \<Rightarrow> u8 \<Rightarrow> 'a net_scheme \<Rightarrow> (bool \<times> buf \<times> 'a net_scheme) res" where
  "getall_loop b x w =
     bindr (packet_get b x w) (\<lambda>(r, b, w').
       if \<not> r then Inr (False, b, w')
       else if blen b > 0 then Inr (True, b, w')
       else if blen (recvbuf w) \<noteq> blen (recvbuf w') then getall_loop b x w'
       else bindr (packet_recv w') (\<lambda>(r, w'').
              if \<not> r then Inr (False, b, w'')
              else if rxs w'' = rxs w' then Inl Blocked
              else getall_loop b x w''))"
  by pat_completeness auto
termination
proof (relation "measures [\<lambda>(b, x, w). rx_weight (rxs w), \<lambda>(b, x, w). nat (blen (recvbuf w))]", goal_cases)
  case 1
  then show ?case by simp
next
  case (2 b x w ret r p b' w')
  then have "got w w'" by (auto dest: packet_get_got)
  with 2 show ?case by (auto simp: got_def PACKET_ZEROBYTES_def)
next
  case (3 b x w ret r p b' w' ret2 r2 w'')
  then have "got w w'" by (auto dest: packet_get_got)
  moreover have "rx_weight (rxs w'') < rx_weight (rxs w')" using 3 packet_recv_weight by fastforce
  ultimately show ?case by (auto simp: got_def)
qed

declare getall_loop.simps [simp del]

definition packet_getall :: "buf \<Rightarrow> u8 \<Rightarrow> 'a net_scheme \<Rightarrow> (bool \<times> buf \<times> 'a net_scheme) res" where
  "packet_getall b x w = bindr (buf_purge b) (\<lambda>b. getall_loop b x w)"

section \<open>packet_unimplemented.c\<close>

definition packet_unimplemented :: "buf \<Rightarrow> 'a net_scheme \<Rightarrow> (bool \<times> buf \<times> 'a net_scheme) res" where
  "packet_unimplemented b w =
     bindr (rd1 (bmem b) 0) (\<lambda>_.
     bindr (buf_purge b) (\<lambda>b.
     bindr (buf_putnum8 b SSH_MSG_UNIMPLEMENTED) (\<lambda>b.
     bindr (buf_putnum32 b (receivepacketid w)) (\<lambda>b.
     bindr (packet_put b w) (\<lambda>w.
     bindr (packet_sendall w) (\<lambda>(r, w). Inr (r, b, w)))))))"

section \<open>getln.c and packet_hello.c\<close>

text \<open>\<open>getch\<close>: the return value of \<open>read\<close>, the character and the rest of the script.\<close>

primrec getch :: "rxev list \<Rightarrow> (int \<times> u8 \<times> rxev list) res" where
  "getch [] = Inl Blocked"
| "getch (e # es) =
     (case e of
        Rx_again \<Rightarrow> getch es
      | Rx_error \<Rightarrow> Inr (-1, 0, es)
      | Rx xs \<Rightarrow> (case xs of [] \<Rightarrow> Inr (0, 0, es) | c # cs \<Rightarrow> Inr (1, c, rx_rest cs es)))"

text \<open>The loop of \<open>getln\<close>; the result is the return value, the array and the rest of the script.\<close>

function getln_loop :: "bytes \<Rightarrow> int \<Rightarrow> int \<Rightarrow> rxev list \<Rightarrow> (int \<times> bytes \<times> rxev list) res" where
  "getln_loop x xlen xmax es =
     (if xlen \<ge> xmax - 1 then bindr (wr1 x (xmax - 1) 0) (\<lambda>x. Inr (-1, x, es))
      else
        bindr (getch es) (\<lambda>(r, ch, es).
        if r \<noteq> 1 then bindr (wr1 x xlen 0) (\<lambda>x. Inr (r, x, es))
        else
          let ch = (if ch = 0 then 10 else ch) in
          bindr (wr1 x xlen ch) (\<lambda>x.
          if ch = 10 then bindr (wr1 x (xlen + 1) 0) (\<lambda>x. Inr (r, x, es))
          else getln_loop x (xlen + 1) xmax es)))"
  by pat_completeness auto
termination by (relation "measure (\<lambda>(x, xlen, xmax, es). nat (xmax - xlen))") auto

declare getln_loop.simps [simp del]

definition getln :: "bytes \<Rightarrow> int \<Rightarrow> rxev list \<Rightarrow> (int \<times> bytes \<times> rxev list) res" where
  "getln x xmax es =
     (if xmax < 1 then Inr (-1, x, es)
      else bindr (wr1 x 0 0) (\<lambda>x. getln_loop x 0 xmax es))"

definition packet_hello_send :: "'a net_scheme \<Rightarrow> (bool \<times> 'a net_scheme) res" where
  "packet_hello_send w =
     bindr (buf_purge (hellosend w)) (\<lambda>b.
     bindr (buf_puts b (cstr ''SSH-2.0-tinyssh'')) (\<lambda>b.
     bindr (buf_puts b (cstr '' '')) (\<lambda>b.
     bindr (buf_puts b (logstr w)) (\<lambda>b.
     bindr (buf_puts b [13, 10, 0]) (\<lambda>b.
     bindr (net_writeall b w) (\<lambda>(ok, w).
       if \<not> ok then Inr (False, w\<lparr>hellosend := b\<rparr>)
       else
         let b = b\<lparr>blen := blen b - 2\<rparr> in
         bindr (wr1 (bmem b) (blen b) 0) (\<lambda>m.
         bindr (purge m (blen b) (balloc b - blen b)) (\<lambda>m.
           Inr (True, w\<lparr>hellosend := b\<lparr>bmem := m\<rparr>\<rparr>)))))))))"

definition packet_hello_receive :: "'a net_scheme \<Rightarrow> (bool \<times> 'a net_scheme) res" where
  "packet_hello_receive w =
     (let b = helloreceive w in
      bindr (getln (bmem b) (balloc b) (rxs w)) (\<lambda>(r, m, es).
      let w = w\<lparr>rxs := es, helloreceive := b\<lparr>bmem := m\<rparr>\<rparr> in
      if r = 0 then Inr (False, w)
      else if r \<noteq> 1 then Inr (False, w)
      else
        bindr (str_len m) (\<lambda>len.
        if len < 6 then Inr (False, w\<lparr>helloreceive := b\<lparr>bmem := m, blen := len\<rparr>\<rparr>)
        else
          bindr (rd1 m (len - 1)) (\<lambda>c.
          let len = (if c = 10 then len - 1 else len) in
          bindr (rd1 m (len - 1)) (\<lambda>c.
          let len = (if c = 13 then len - 1 else len) in
          bindr (wr1 m len 0) (\<lambda>m.
          bindr (byte_isequal m 0 4 (lit ''SSH-'') 0) (\<lambda>eq.
          if eq = 0 then Inr (False, w\<lparr>helloreceive := b\<lparr>bmem := m, blen := len\<rparr>\<rparr>)
          else
            bindr (purge m len (balloc b - len)) (\<lambda>m.
              Inr (True, w\<lparr>helloreceive := b\<lparr>bmem := m, blen := len\<rparr>\<rparr>)))))))))"

section \<open>Memory lemmas\<close>

lemma rd_mid:
  "i = int (length p) \<Longrightarrow> n = int (length x) \<Longrightarrow> rd (p @ x @ q) i n = Inr x"
  by (simp add: rd_def)

lemma wr_mid:
  "i = int (length p) \<Longrightarrow> length y = length x \<Longrightarrow> wr (p @ x @ q) i y = Inr (p @ y @ q)"
  by (auto simp: wr_def)

lemma byte_zero_mid:
  "i = int (length p) \<Longrightarrow> n = int (length x) \<Longrightarrow> byte_zero (p @ x @ q) i n = Inr (p @ replicate (length x) 0 @ q)"
  by (simp add: byte_zero_eq)

lemma byte_move_mid:
  "i = int (length p) \<Longrightarrow> j = int (length p + length g) \<Longrightarrow> n = int (length x) \<Longrightarrow>
   byte_move (p @ g @ x @ q) i n j = Inr (p @ x @ drop (length x) (g @ x) @ q)"
  by (simp add: byte_move_eq nat_int_add)

end
