(* ===== verification/Packet_Correct.thy ===== *)
theory Packet_Correct
  imports Packet
begin

text \<open>
  The correctness of the packet layer: what \<open>packet_put\<close> writes is the packet format of RFC 4253
  (plain) or of chacha20-poly1305@openssh.com, \<open>packet_get\<close> accepts exactly that format, and the
  bounds both keep or break.
\<close>

section \<open>The formats\<close>

text \<open>The keystream of chacha20 with an 8-byte nonce.\<close>

definition ssh_ks :: "bytes \<Rightarrow> bytes \<Rightarrow> nat \<Rightarrow> bytes" where
  "ssh_ks k n l = glo_keystream (glo_state k (replicate 4 0 @ n) 0) l"

text \<open>
  chacha20-poly1305@openssh.com: the length is encrypted with the second half of the key, the body
  (padding length, payload and padding) with the first half from the second block of the
  keystream on; the first block is the key of the tag over both.
\<close>

definition openssh_length :: "bytes \<Rightarrow> bytes \<Rightarrow> u32 \<Rightarrow> bytes" where
  "openssh_length key n l = xor_bytes (uint32_pack_big l) (ssh_ks (take 32 (drop 32 key)) n 4)"

definition openssh_body :: "bytes \<Rightarrow> bytes \<Rightarrow> bytes \<Rightarrow> bytes" where
  "openssh_body key n body = xor_bytes body (drop 64 (ssh_ks (take 32 key) n (64 + length body)))"

definition openssh_tag :: "bytes \<Rightarrow> bytes \<Rightarrow> bytes \<Rightarrow> bytes" where
  "openssh_tag key n data = poly1305_spec data (ssh_ks (take 32 key) n 32)"

definition openssh_packet :: "bytes \<Rightarrow> u32 \<Rightarrow> bytes \<Rightarrow> bytes" where
  "openssh_packet key seq body =
     (let n = packet_nonce seq; data = openssh_length key n (of_nat (length body)) @ openssh_body key n body
      in data @ openssh_tag key n data)"

definition packet_body :: "nat \<Rightarrow> bytes \<Rightarrow> bytes" where
  "packet_body padlen payload = word_of_nat padlen # payload @ replicate padlen 0"

definition plain_packet :: "bytes \<Rightarrow> bytes" where
  "plain_packet body = uint32_pack_big (of_nat (length body)) @ body"

definition cipher_ready :: "sshc \<Rightarrow> bool" where
  "cipher_ready s \<longleftrightarrow> (\<exists>c. cipher_sel s = Some c \<and> ci_fn c = Some Chachapoly \<and> ci_blockbytes c = 8 \<and> ci_authbytes c = 16)"

lemma wf_sshc_ready: "wf_sshc s \<Longrightarrow> cipher_sel s \<noteq> None \<Longrightarrow> cipher_ready s"
proof -
  assume "wf_sshc s" "cipher_sel s \<noteq> None"
  then obtain c where c: "cipher_sel s = Some c" "cipher_static c \<in> set (butlast sshcrypto_ciphers)"
    by (auto simp: wf_sshc_def)
  then have "ci_fn (cipher_static c) = Some Chachapoly" "ci_blockbytes (cipher_static c) = 8"
    "ci_authbytes (cipher_static c) = 16" by (auto simp: sshcrypto_ciphers_def)
  then show ?thesis using c(1) by (simp add: cipher_ready_def cipher_static_def)
qed

section \<open>The keystream\<close>

lemma length_ssh_ks [simp]: "length (ssh_ks k n l) = l"
  by (simp add: ssh_ks_def)

lemma glo_keystream_take: "j \<le> l \<Longrightarrow> take j (glo_keystream st l) = glo_keystream st j"
proof (induction l arbitrary: st j rule: less_induct)
  case (less l)
  show ?case
  proof (cases "j = 0")
    case False
    then have p: "0 < j" "0 < l" using less.prems by simp_all
    have "take (j - min 64 l) (glo_keystream (st[12 := st ! 12 + 1]) (l - 64)) =
        glo_keystream (st[12 := st ! 12 + 1]) (j - 64)"
    proof (cases "l < 64")
      case False
      then show ?thesis using less.IH [of "l - 64" "j - 64" "st[12 := st ! 12 + 1]"] less.prems p by simp
    qed (use less.prems in \<open>simp add: glo_keystream_def\<close>)
    moreover have "take j (take l (chacha20_block st)) = take j (chacha20_block st)" using less.prems by simp
    ultimately show ?thesis
      unfolding glo_keystream_rec [OF p(1)] glo_keystream_rec [OF p(2)] by simp
  qed (simp add: glo_keystream_def)
qed

lemma ssh_ks_take: "j \<le> l \<Longrightarrow> take j (ssh_ks k n l) = ssh_ks k n j"
  by (simp add: ssh_ks_def glo_keystream_take)

lemma xor_zeros: "xor_bytes (replicate (length y) 0) y = y"
  by (intro nth_equalityI) (simp_all add: xor_bytes_def)

lemma length_packet_nonce [simp]: "length (packet_nonce i) = 8"
  by (simp add: packet_nonce_def)

lemma stream_xor_mid:
  assumes "cipher_ready s" and "i = int (length p)" and "l = int (length x)" and "32 \<le> length k" and "length n = 8"
    and "length x \<le> 2 ^ 38"
  shows "stream_xor_at s (p @ x @ q) i l n k = Inr (p @ xor_bytes x (ssh_ks (take 32 k) n (length x)) @ q)"
proof -
  have k: "rd k 0 32 = Inr (take 32 k)" using assms(4) by (simp add: rd_in)
  have e: "snd (crypto_stream_chacha20_xor x (length x) n (take 32 k)) = xor_bytes x (ssh_ks (take 32 k) n (length x))"
    using tinynacl_xor_glo [OF assms(5,6)] by (simp add: glo_chacha20_xor_eq ssh_ks_def)
  show ?thesis
    using assms(1) unfolding stream_xor_at_def cipher_ready_def assms(3)
    by (auto simp: k rd_mid [OF assms(2)] e wr_mid [OF assms(2)])
qed

lemma auth_mid:
  assumes "cipher_ready s" and "i = int (length p)" and "l = int (length x)" and "32 \<le> length k"
  shows "auth_at s (p @ x @ q) i l k = Inr (poly1305_spec x (take 32 k))"
proof -
  have k: "rd k 0 32 = Inr (take 32 k)" "length (take 32 k) = 32" using assms(4) by (simp_all add: rd_in)
  show ?thesis
    using assms(1) unfolding auth_at_def cipher_ready_def assms(3)
    by (auto simp: k(1) rd_mid [OF assms(2)] poly1305_correct [OF k(2)])
qed

lemma length_poly1305_spec [simp]: "length (poly1305_spec m k) = 16"
  by (simp add: poly1305_spec_def Let_def)

section \<open>Sealing\<close>

lemma xor_keystream:
  assumes "length body = B"
  shows "xor_bytes (replicate 60 0 @ replicate 4 0 @ body) (ssh_ks k n (64 + B)) =
    ssh_ks k n 60 @ drop 60 (ssh_ks k n 64) @ xor_bytes body (drop 64 (ssh_ks k n (64 + B)))"
proof -
  let ?ks = "ssh_ks k n (64 + B)"
  have t: "take 64 ?ks = ssh_ks k n 64" by (rule ssh_ks_take) simp
  have a: "take 60 ?ks = ssh_ks k n 60" "take 4 (drop 60 ?ks) = drop 60 (ssh_ks k n 64)"
    by (rule ssh_ks_take, simp) (simp add: take_drop t)
  have "?ks = take 60 ?ks @ take 4 (drop 60 ?ks) @ drop 64 ?ks"
    using append_take_drop_id [of 60 ?ks] append_take_drop_id [of 4 "drop 60 ?ks"] by simp
  also have "\<dots> = ssh_ks k n 60 @ drop 60 (ssh_ks k n 64) @ drop 64 ?ks" by (simp only: a)
  finally have ks: "?ks = ssh_ks k n 60 @ drop 60 (ssh_ks k n 64) @ drop 64 ?ks" .
  show ?thesis
    using xor_zeros [of "ssh_ks k n 60"] xor_zeros [of "drop 60 (ssh_ks k n 64)"]
    by (subst ks) (simp add: xor_bytes_append)
qed

lemma chachapoly_seal_eq:
  assumes "cipher_ready s" and "pos = int (length p)" and "length key = 128" and "length body \<le> 70000"
    and "len = int (length p) + 64 + int (length body) + 16"
  shows "chachapoly_seal s key (packet_nonce seq) pos len
      (p @ replicate 60 0 @ replicate 4 0 @ body @ replicate 16 0 @ q) =
    Inr (p @ openssh_packet key seq body @ replicate 60 0 @ q)"
proof -
  define n where "n = packet_nonce seq"
  define A where "A = ssh_ks (take 32 key) n 60"
  define G where "G = drop 60 (ssh_ks (take 32 key) n 64)"
  define C where "C = openssh_body key n body"
  define L :: bytes where "L = uint32_pack_big (of_nat (length body))"
  define E where "E = openssh_length key n (of_nat (length body))"
  define T where "T = openssh_tag key n (E @ C)"
  have ab: "auth_bytes s = 16" using assms(1) by (auto simp: cipher_ready_def auth_bytes_def)
  have l: "length A = 60" "length G = 4" "length C = length body" "length E = 4" "length T = 16" "length L = 4"
    by (simp_all add: A_def G_def C_def E_def T_def L_def openssh_body_def openssh_length_def openssh_tag_def)
  have n8: "length n = 8" by (simp add: n_def)
  have b38: "length body + 64 \<le> (2 :: nat) ^ 38" using assms(4) by simp
  have s1: "stream_xor_at s (p @ (replicate 60 0 @ replicate 4 0 @ body) @ replicate 16 0 @ q) pos (len - pos - 16) n key =
      Inr (p @ (A @ G @ C) @ replicate 16 0 @ q)"
    using assms n8 b38 xor_keystream [of body "length body" "take 32 key" n]
    by (subst stream_xor_mid) (simp_all add: A_def G_def C_def openssh_body_def add.commute)
  have s2: "wr ((p @ A) @ G @ C @ replicate 16 0 @ q) (pos + ZB) (uint32_pack_big (word_of_int (len - pos - 16 - 4 - ZB))) =
      Inr ((p @ A) @ L @ C @ replicate 16 0 @ q)"
    using assms l by (subst wr_mid) (simp_all add: ZB_def L_def)
  have s3: "stream_xor_at s ((p @ A) @ L @ C @ replicate 16 0 @ q) (pos + ZB) 4 n (drop 32 key) =
      Inr ((p @ A) @ E @ C @ replicate 16 0 @ q)"
    using assms l n8 by (subst stream_xor_mid) (simp_all add: ZB_def E_def openssh_length_def L_def)
  have k: "take 32 (drop (nat pos) ((p @ A) @ E @ C @ replicate 16 0 @ q)) = ssh_ks (take 32 key) n 32"
    using assms(2) ssh_ks_take [of 32 60 "take 32 key" n] l by (simp add: A_def)
  have a32: "take 32 A = ssh_ks (take 32 key) n 32"
    unfolding A_def by (rule ssh_ks_take) simp
  have s4: "auth_at s ((p @ A) @ (E @ C) @ replicate 16 0 @ q) (pos + ZB) (len - 16 - pos - ZB)
      (drop (nat pos) ((p @ A) @ E @ C @ replicate 16 0 @ q)) = Inr T"
    using assms l by (subst auth_mid) (simp_all add: k a32 T_def openssh_tag_def ZB_def)
  have s5: "wr ((p @ A @ E @ C) @ replicate 16 0 @ q) (len - 16) T = Inr ((p @ A @ E @ C) @ T @ q)"
    using assms l by (subst wr_mid) simp_all
  have s6: "byte_move (p @ A @ (E @ C @ T) @ q) pos (len - pos - ZB) (pos + ZB) =
      Inr (p @ (E @ C @ T) @ drop (length (E @ C @ T)) (A @ E @ C @ T) @ q)"
    using assms l by (subst byte_move_mid) (simp_all add: ZB_def)
  have s7: "purge ((p @ E @ C @ T) @ drop (length (E @ C @ T)) (A @ E @ C @ T) @ q) (len - ZB) ZB =
      Inr ((p @ E @ C @ T) @ replicate 60 0 @ q)"
    using assms l unfolding purge_byte_zero by (subst byte_zero_mid) (simp_all add: ZB_def)
  have "openssh_packet key seq body = E @ C @ T"
    by (simp add: openssh_packet_def Let_def E_def C_def T_def n_def)
  then show ?thesis
    unfolding chachapoly_seal_def Let_def ab n_def [symmetric]
    using s1 s2 s3 s4 s5 s6 s7 by (simp only: append_assoc bindr_Inr)
qed

section \<open>Sending\<close>

text \<open>The padding of both formats: \<open>r\<close> is the random choice of another block, 0 in the plain format.\<close>

definition padding_of :: "nat \<Rightarrow> nat \<Rightarrow> nat" where
  "padding_of r len = 20 - (5 + len) mod 8 + 8 * r"

lemma padding_of_bounds:
  assumes "r \<le> 1"
  shows "13 \<le> padding_of r len" "padding_of r len \<le> 28" "(1 + len + padding_of r len) mod 8 = 0"
proof -
  have "(5 + len) mod 8 < 8" by simp
  then show "13 \<le> padding_of r len" "padding_of r len \<le> 28" using assms by (simp_all add: padding_of_def)
  show "(1 + len + padding_of r len) mod 8 = 0" unfolding padding_of_def by presburger
qed

lemma foldl_mod_bounds: "0 < n \<Longrightarrow> 0 \<le> a \<Longrightarrow> a < n \<Longrightarrow>
  0 \<le> foldl (\<lambda>result b. (result * 256 + uint b) mod n) a (r :: bytes) \<and>
  foldl (\<lambda>result b. (result * 256 + uint b) mod n) a r < (n :: int)"
  by (induction r arbitrary: a) simp_all

lemma randommod_bounds:
  assumes "randommod 2 w = (r, w')"
  shows "0 \<le> r \<and> r \<le> 1 \<and> (\<exists>p. w' = w\<lparr>rndpos := p\<rparr>)"
  using foldl_mod_bounds [of 2 0 "fst (randombytes 32 w)"] assms
  by (auto simp: randommod_def randombytes_def)

definition randommod_value :: "'a net_scheme \<Rightarrow> nat" where
  "randommod_value w = nat (fst (randommod 2 w))"

definition buf_contents :: "buf \<Rightarrow> bool" where
  "buf_contents b \<longleftrightarrow> 0 \<le> blen b \<and> blen b \<le> 65536 \<and> blen b \<le> int (length (bmem b))"

lemma buf_contents_len: "buf_contents b \<Longrightarrow> int (length (bdata b)) = blen b"
  by (auto simp: buf_contents_def bdata_def)

lemma pad_byte:
  assumes "r \<le> 1" and "x = int (5 + len)"
  shows "(word_of_int (2 * 8 - x mod 8 + 4) :: u8) + word_of_int (int r * 8) = word_of_nat (padding_of r len)"
    and "uint ((word_of_int (2 * 8 - x mod 8 + 4) :: u8) + word_of_int (int r * 8)) = int (padding_of r len)"
proof -
  have m: "x mod 8 = int ((5 + len) mod 8)" unfolding assms(2) by (simp only: of_nat_mod of_nat_numeral)
  have le: "(5 + len) mod 8 \<le> 20" using mod_less_divisor [of 8 "5 + len"] by linarith
  have e: "2 * 8 - x mod 8 + 4 + int r * 8 = int (padding_of r len)"
    using le by (simp add: m padding_of_def of_nat_diff)
  have "(word_of_int (2 * 8 - x mod 8 + 4) :: u8) + word_of_int (int r * 8) = word_of_int (int (padding_of r len))"
    by (simp only: e [symmetric] of_int_add)
  then show "(word_of_int (2 * 8 - x mod 8 + 4) :: u8) + word_of_int (int r * 8) = word_of_nat (padding_of r len)"
    by simp
  have "padding_of r len \<le> 28" using assms(1) by (rule padding_of_bounds)
  then show "uint ((word_of_int (2 * 8 - x mod 8 + 4) :: u8) + word_of_int (int r * 8)) = int (padding_of r len)"
    unfolding \<open>(word_of_int (2 * 8 - x mod 8 + 4) :: u8) + word_of_int (int r * 8) = word_of_int (int (padding_of r len))\<close>
    by (simp add: unsigned_of_nat take_bit_nat_eq_self)
qed

lemma buf_split:
  assumes "wf_buf b"
  obtains p r where "bmem b = p @ r" "blen b = int (length p)" "bdata b = p" "nat (blen b) = length p"
proof
  show "bmem b = bdata b @ drop (nat (blen b)) (bmem b)" by (simp add: bdata_def)
  show "blen b = int (length (bdata b))" using bdata_length [OF assms] by simp
  then show "nat (blen b) = length (bdata b)" by simp
qed simp

lemma bapp_mem:
  "bmem b = p @ r \<Longrightarrow> blen b = int (length p) \<Longrightarrow>
   bapp b xs = b\<lparr>bmem := p @ xs @ drop (length xs) r, blen := int (length p) + int (length xs)\<rparr>"
  by (simp add: bapp_def nat_int_add)

text \<open>The part of \<open>chachapoly_packet_put\<close> before the encryption.\<close>

lemma put_unsealed:
  assumes "wf_buf sb" and "n = 65 + length data" and "np \<le> 255"
  shows "bindr (bput sb (replicate 60 0 @ replicate 4 0 @ 0 # data)) (\<lambda>sb1.
      bindr (bput sb1 (replicate np 0)) (\<lambda>sb2.
      bindr (wr1 (bmem sb2) (blen sb + 60 + 4) v) (\<lambda>m.
        bput (sb2\<lparr>bmem := m\<rparr>) (replicate 16 0)))) =
    bput sb (replicate 60 0 @ replicate 4 0 @ (v # data @ replicate np 0) @ replicate 16 0)"
proof -
  obtain p r where b: "bmem sb = p @ r" "blen sb = int (length p)" "nat (blen sb) = length p"
    using assms(1) by (rule buf_split) blast
  have le: "balloc sb \<le> int (length p + length r)" using wf_bufD [OF assms(1)] b by simp
  let ?d = "replicate 60 0 @ replicate 4 0 @ 0 # data :: bytes"
  show ?thesis
  proof (cases "blen sb + int (length (?d @ replicate np (0 :: u8))) < balloc sb")
    case True
    have 1: "bput sb ?d = Inr (bapp sb ?d)" "bput (bapp sb ?d) (replicate np 0) = Inr (bapp sb (?d @ replicate np 0))"
      using True assms(1) by (simp_all add: bput_def bapp_bapp)
    have m: "bmem (bapp sb (?d @ replicate np 0)) =
        (p @ replicate 60 0 @ replicate 4 0) @ 0 # data @ replicate np 0 @ drop (65 + (length data + np)) r"
      using True le by (simp add: bapp_def b)
    have i: "nat (blen sb + 60 + 4) = length (p @ replicate 60 0 @ replicate 4 (0 :: u8))" by (simp add: b nat_int_add)
    have 2: "wr1 (bmem (bapp sb (?d @ replicate np 0))) (blen sb + 60 + 4) v =
        Inr ((p @ replicate 60 0 @ replicate 4 0) @ v # data @ replicate np 0 @ drop (65 + (length data + np)) r)"
      unfolding m by (subst wr1_in) (simp_all only: i list_update_length, simp_all add: b)
    let ?q = "p @ replicate 60 0 @ replicate 4 0 @ v # data @ replicate np 0"
    let ?sb = "(bapp sb (?d @ replicate np 0))\<lparr>bmem := ?q @ drop (65 + (length data + np)) r\<rparr>"
    have e: "bapp ?sb (replicate 16 0) =
        bapp sb (replicate 60 0 @ replicate 4 0 @ (v # data @ replicate np 0) @ replicate 16 0)"
      using bapp_mem [of ?sb ?q "drop (65 + (length data + np)) r" "replicate 16 0"]
        bapp_mem [OF b(1,2), of "replicate 60 0 @ replicate 4 0 @ (v # data @ replicate np 0) @ replicate 16 0"]
      by (simp add: b add_ac)
    show ?thesis
      unfolding 1 bindr_Inr 2 using e by (simp add: bput_def)
  next
    case False
    then show ?thesis by (auto simp: bput_def)
  qed
qed

lemma num32_zero: "uint32_pack_big 0 = replicate 4 0"
  by code_simp

lemma bput_bindr:
  "wf_buf b \<Longrightarrow> (\<And>b'. wf_buf b' \<Longrightarrow> blen b' = blen b + int (length xs) \<Longrightarrow> f b' = g b') \<Longrightarrow>
   bindr (bput b xs) f = bindr (bput b xs) g"
  by (auto simp: bput_def wf_bapp)

lemma wf_buf_bmem: "wf_buf b \<Longrightarrow> length m = length (bmem b) \<Longrightarrow> wf_buf (b\<lparr>bmem := m\<rparr>)"
  by (simp add: wf_buf_def)

lemma chachapoly_packet_put_eq:
  assumes "cipher_ready (crypt w)" and "wf_buf (sendbuf w)" and "length (serverkey w) = 128" and "buf_contents b"
  shows "let pad = padding_of (randommod_value w) (length (bdata b));
      packet = openssh_packet (serverkey w) (sendpacketid w) (packet_body pad (bdata b))
    in if blen (sendbuf w) + 60 + int (length packet) < balloc (sendbuf w)
       then \<exists>sb p. chachapoly_packet_put b w = Inr (w\<lparr>sendpacketid := sendpacketid w + 1, rndpos := p, sendbuf := sb\<rparr>) \<and>
         wf_buf sb \<and> bdata sb = bdata (sendbuf w) @ packet \<and> balloc sb = balloc (sendbuf w) \<and>
         length (bmem sb) = length (bmem (sendbuf w))
       else chachapoly_packet_put b w = Inl Enomem"
proof -
  define data where "data = bdata b"
  define pad where "pad = padding_of (randommod_value w) (length data)"
  define body where "body = packet_body pad data"
  define packet where "packet = openssh_packet (serverkey w) (sendpacketid w) body"
  let ?sb = "sendbuf w"
  have dl: "int (length data) = blen b" "blen b \<le> 65536" "0 \<le> blen b"
    using buf_contents_len [OF assms(4)] assms(4) by (auto simp: data_def buf_contents_def)
  obtain v w1 where rm: "randommod 2 (w\<lparr>sendpacketid := sendpacketid w + 1\<rparr>) = (v, w1)" by fastforce
  from randommod_bounds [OF this] obtain rp where v: "0 \<le> v" "v \<le> 1"
    and w1: "w1 = w\<lparr>sendpacketid := sendpacketid w + 1, rndpos := rp\<rparr>" by auto
  have rv: "randommod_value w = nat v" using rm by (simp add: randommod_value_def randommod_def randombytes_def Let_def)
  have r1: "nat v \<le> 1" "v = int (nat v)" using v by simp_all
  note padb = padding_of_bounds [OF r1(1), of "length data", folded rv, folded pad_def]
  have bb: "cipher_blockbytes (crypt w) = 8" "auth_bytes (crypt w) = 16"
    using assms(1) by (auto simp: cipher_ready_def cipher_blockbytes_def auth_bytes_def)
  have bl: "length body = 1 + length data + pad" by (simp add: body_def packet_body_def)
  have pl: "length packet = 4 + length body + 16"
    by (simp add: packet_def openssh_packet_def Let_def openssh_length_def openssh_body_def openssh_tag_def)
  have cont: "take (nat (blen b)) (bmem b) = data" "blen b \<le> int (length (bmem b))" "blen b \<le> 1073741824"
    using assms(4) by (auto simp: data_def bdata_def buf_contents_def)
  have pay: "buf_put sb (bmem b) (blen b) = bput sb data" if "wf_buf sb" for sb
    using buf_put_eq [OF that dl(3) cont(2,3)] unfolding cont(1) .
  have A: "chachapoly_packet_put b w =
      bindr (bput ?sb (replicate 60 0 @ replicate 4 0 @ 0 # data)) (\<lambda>sb1.
      bindr (bput sb1 (replicate pad 0)) (\<lambda>sb2.
      bindr (wr1 (bmem sb2) (blen ?sb + 60 + 4) (word_of_nat pad)) (\<lambda>m.
      bindr (bput (sb2\<lparr>bmem := m\<rparr>) (replicate 16 0)) (\<lambda>sb3.
      bindr (chachapoly_seal (crypt w) (serverkey w) (packet_nonce (sendpacketid w)) (blen ?sb) (blen sb3) (bmem sb3)) (\<lambda>m.
        Inr (w1\<lparr>sendbuf := sb3\<lparr>bmem := m, blen := blen sb3 - 60\<rparr>\<rparr>))))))"
    (is "_ = ?rhs")
  proof -
    have pads: "(word_of_int (2 * 8 - x mod 8 + 4) :: u8) + word_of_int (v * 8) = word_of_nat pad"
      "uint (word_of_nat pad :: u8) = int pad" if "x = int (5 + length data)" for x
      using pad_byte [OF r1(1) that] r1(2) unfolding pad_def rv by simp_all
    have first: "bindr (buf_putzerobytes ?sb ZB) (\<lambda>sb. bindr (buf_putnum32 sb 0) (\<lambda>sb.
        bindr (buf_putnum8 sb 0) (\<lambda>sb. bindr (buf_put sb (bmem b) (blen b)) K))) =
      bindr (bput ?sb (replicate 60 0 @ replicate 4 0 @ 0 # data)) K" for K
    proof -
      have "bindr (buf_putzerobytes ?sb ZB) (\<lambda>sb. bindr (buf_putnum32 sb 0) (\<lambda>sb.
          bindr (buf_putnum8 sb 0) (\<lambda>sb. buf_put sb (bmem b) (blen b)))) =
        bput ?sb (replicate 60 0 @ replicate 4 0 @ [0] @ data)"
        using assms(2)
        by (subst buf_putzerobytes_eq)
          (auto simp: ZB_def pay buf_putnum32_eq buf_putnum8_eq num32_zero intro!: bput_then bput_then [where xs = "[0]" and ys = data, simplified])
      from arg_cong [OF this, of "\<lambda>m. bindr m K"] show ?thesis by (simp add: bindr_assoc)
    qed
    have "chachapoly_packet_put b w =
        bindr (bput ?sb (replicate 60 0 @ replicate 4 0 @ 0 # data)) (\<lambda>sb1.
        bindr (buf_putpadding sb1 (int pad)) (\<lambda>sb2.
        bindr (wr1 (bmem sb2) (blen ?sb + 60 + 4) (word_of_nat pad)) (\<lambda>m.
        bindr (buf_putzerobytes (sb2\<lparr>bmem := m\<rparr>) 16) (\<lambda>sb3.
        bindr (chachapoly_seal (crypt w) (serverkey w) (packet_nonce (sendpacketid w)) (blen ?sb) (blen sb3) (bmem sb3)) (\<lambda>m.
          Inr (w1\<lparr>sendbuf := sb3\<lparr>bmem := m, blen := blen sb3 - 60\<rparr>\<rparr>))))))"
      unfolding chachapoly_packet_put_def Let_def first rm prod.case bb
    proof (rule bput_bindr [OF assms(2)], goal_cases)
      case (1 b')
      have x: "blen b' - blen ?sb - ZB = int (5 + length data)" using 1(2) by (simp add: ZB_def)
      show ?case unfolding pads [OF x] by (simp add: ZB_def w1)
    qed
    also have "\<dots> = ?rhs"
    proof (intro bput_bindr [OF assms(2)])
      fix sb1 assume wf1: "wf_buf sb1"
      have n: "0 \<le> int pad" "int pad \<le> 1073741824" using padb by simp_all
      have "buf_putzerobytes (sb2\<lparr>bmem := m\<rparr>) 16 = bput (sb2\<lparr>bmem := m\<rparr>) (replicate 16 0)"
        if "wf_buf sb2" "wr1 (bmem sb2) i v = Inr m" for sb2 i m v
        using buf_putzerobytes_eq [OF wf_buf_bmem [OF that(1) wr1_length [OF that(2)]]] by simp
      then show "bindr (buf_putpadding sb1 (int pad)) (\<lambda>sb2.
          bindr (wr1 (bmem sb2) (blen ?sb + 60 + 4) (word_of_nat pad)) (\<lambda>m.
          bindr (buf_putzerobytes (sb2\<lparr>bmem := m\<rparr>) 16) K)) =
        bindr (bput sb1 (replicate pad 0)) (\<lambda>sb2.
          bindr (wr1 (bmem sb2) (blen ?sb + 60 + 4) (word_of_nat pad)) (\<lambda>m.
          bindr (bput (sb2\<lparr>bmem := m\<rparr>) (replicate 16 0)) K))" for K
        unfolding buf_putpadding_eq [OF wf1 n] nat_int
        by (intro bput_bindr [OF wf1] bindr_cong refl) simp
    qed
    finally show ?thesis .
  qed
  have B: "bindr (bput ?sb (replicate 60 0 @ replicate 4 0 @ 0 # data)) (\<lambda>sb1.
      bindr (bput sb1 (replicate pad 0)) (\<lambda>sb2.
      bindr (wr1 (bmem sb2) (blen ?sb + 60 + 4) (word_of_nat pad)) (\<lambda>m.
      bindr (bput (sb2\<lparr>bmem := m\<rparr>) (replicate 16 0)) K))) =
    bindr (bput ?sb (replicate 60 0 @ replicate 4 0 @ body @ replicate 16 0)) K" for K
    using put_unsealed [OF assms(2) refl, of pad data "word_of_nat pad"] padb
    by (simp add: body_def packet_body_def flip: bindr_assoc)
  show ?thesis
  proof (cases "blen ?sb + 60 + int (length packet) < balloc ?sb")
    case True
    obtain p r where sb: "bmem ?sb = p @ r" "blen ?sb = int (length p)" "bdata ?sb = p" "nat (blen ?sb) = length p"
      using assms(2) by (rule buf_split) blast
    define q where "q = drop (80 + length body) r"
    have le: "balloc ?sb \<le> int (length p + length r)" using wf_bufD [OF assms(2)] sb by simp
    let ?d = "replicate 60 0 @ replicate 4 0 @ body @ replicate 16 0 :: bytes"
    have m: "bmem (bapp ?sb ?d) = p @ ?d @ q" by (simp add: bapp_def sb q_def)
    have seal: "chachapoly_seal (crypt w) (serverkey w) (packet_nonce (sendpacketid w)) (blen ?sb)
       (blen (bapp ?sb ?d)) (bmem (bapp ?sb ?d)) = Inr (p @ packet @ replicate 60 0 @ q)"
      unfolding m using chachapoly_seal_eq [OF assms(1) sb(2) assms(3), of body "blen (bapp ?sb ?d)" "sendpacketid w" q]
        dl padb bl by (simp add: packet_def sb)
    have fit: "bput ?sb ?d = Inr (bapp ?sb ?d)" using True pl by (simp add: bput_def)
    let ?b = "(bapp ?sb ?d)\<lparr>bmem := p @ packet @ replicate 60 0 @ q, blen := blen (bapp ?sb ?d) - 60\<rparr>"
    have eq: "chachapoly_packet_put b w = Inr (w1\<lparr>sendbuf := ?b\<rparr>)"
      unfolding A B fit bindr_Inr seal ..
    have lq: "length (p @ packet @ replicate 60 0 @ q) = length (p @ r)" using True le pl by (simp add: q_def sb)
    have bl2: "blen ?b = int (length p + length packet)" by (simp add: sb pl)
    have "wf_buf ?b" using True le wf_bufD [OF assms(2)] lq pl by (simp add: wf_buf_def sb)
    moreover have "bdata ?b = p @ packet" unfolding bdata_def bl2 by (simp add: nat_int_add)
    ultimately show ?thesis
      using True eq lq unfolding w1 by (auto simp: Let_def packet_def body_def pad_def data_def sb)
  next
    case False
    then have "bput ?sb (replicate 60 0 @ replicate 4 0 @ body @ replicate 16 0) = Inl Enomem"
      using pl by (simp add: bput_def)
    then have "chachapoly_packet_put b w = Inl Enomem" unfolding A B by simp
    then show ?thesis using False by (simp add: Let_def packet_def body_def pad_def data_def)
  qed
qed

lemma uint_u8_small: "n < 256 \<Longrightarrow> uint (word_of_nat n :: u8) = int n"
  by (simp add: unsigned_of_nat take_bit_nat_eq_self)

text \<open>The plain format has 9 to 16 bytes of padding.\<close>

lemma plain_pad_byte:
  assumes "x = int (5 + len)"
  shows "(word_of_int (2 * 8 - x mod 8) :: u8) = word_of_nat (16 - (5 + len) mod 8)"
    and "uint (word_of_int (2 * 8 - x mod 8) :: u8) = int (16 - (5 + len) mod 8)"
proof -
  have m: "x mod 8 = int ((5 + len) mod 8)" unfolding assms by (simp only: of_nat_mod of_nat_numeral)
  have le: "(5 + len) mod 8 \<le> 16" using mod_less_divisor [of 8 "5 + len"] by linarith
  have e: "2 * 8 - x mod 8 = int (16 - (5 + len) mod 8)" using le by (simp add: m of_nat_diff)
  show "(word_of_int (2 * 8 - x mod 8) :: u8) = word_of_nat (16 - (5 + len) mod 8)"
    by (simp only: e of_int_of_nat_eq)
  show "uint (word_of_int (2 * 8 - x mod 8) :: u8) = int (16 - (5 + len) mod 8)"
    unfolding e of_int_of_nat_eq by (rule uint_u8_small) simp
qed

lemma put_plain_bytes:
  assumes "wf_buf sb" and "np \<le> 255"
  shows "bindr (bput sb (replicate 4 0 @ 0 # data)) (\<lambda>sb1.
      bindr (bput sb1 (replicate np 0)) (\<lambda>sb2.
      bindr (wr1 (bmem sb2) (blen sb + 4) v) (\<lambda>m.
      bindr (wr m (blen sb) (uint32_pack_big (word_of_int (blen sb2 - blen sb - 4)))) (\<lambda>m.
        Inr (sb2\<lparr>bmem := m\<rparr>))))) =
    bput sb (plain_packet (v # data @ replicate np 0))"
proof -
  obtain p r where b: "bmem sb = p @ r" "blen sb = int (length p)" "nat (blen sb) = length p"
    using assms(1) by (rule buf_split) blast
  have le: "balloc sb \<le> int (length p + length r)" using wf_bufD [OF assms(1)] b by simp
  let ?d = "replicate 4 0 @ 0 # data :: bytes"
  let ?body = "v # data @ replicate np 0"
  show ?thesis
  proof (cases "blen sb + int (length (?d @ replicate np (0 :: u8))) < balloc sb")
    case True
    let ?all = "?d @ replicate np 0"
    have 1: "bput sb ?d = Inr (bapp sb ?d)" "bput (bapp sb ?d) (replicate np 0) = Inr (bapp sb ?all)"
      using True assms(1) by (simp_all add: bput_def bapp_bapp)
    let ?rest = "drop (5 + (length data + np)) r"
    have m: "bmem (bapp sb ?all) = (p @ replicate 4 0) @ 0 # data @ replicate np 0 @ ?rest"
      using True le by (simp add: bapp_def b)
    have i: "nat (blen sb + 4) = length (p @ replicate 4 (0 :: u8))" by (simp add: b nat_int_add)
    have 2: "wr1 (bmem (bapp sb ?all)) (blen sb + 4) v = Inr (p @ replicate 4 0 @ ?body @ ?rest)"
      unfolding m by (subst wr1_in) (simp_all only: i list_update_length, simp_all add: b)
    have n: "blen (bapp sb ?all) - blen sb - 4 = int (length ?body)" by simp
    have 3: "wr (p @ replicate 4 0 @ ?body @ ?rest) (blen sb) (uint32_pack_big (word_of_int (int (length ?body)))) =
        Inr (p @ plain_packet ?body @ ?rest)"
      by (subst wr_mid) (simp_all add: b plain_packet_def)
    have e: "bapp sb (plain_packet ?body) = (bapp sb ?all)\<lparr>bmem := p @ plain_packet ?body @ ?rest\<rparr>"
      by (simp add: bapp_mem [OF b(1,2)] plain_packet_def)
    show ?thesis unfolding 1 bindr_Inr 2 n 3 using True by (simp add: bput_def e) (simp add: plain_packet_def)
  next
    case False
    then show ?thesis by (auto simp: bput_def plain_packet_def)
  qed
qed

lemma packet_put_plain_eq:
  assumes "wf_buf (sendbuf w)" and "buf_contents b"
  shows "packet_put_plain b w =
    bindr (bput (sendbuf w) (plain_packet (packet_body (16 - (5 + length (bdata b)) mod 8) (bdata b))))
      (\<lambda>sb. Inr (w\<lparr>sendpacketid := sendpacketid w + 1, sendbuf := sb\<rparr>))"
proof -
  define data where "data = bdata b"
  define pad where "pad = 16 - (5 + length data) mod 8"
  let ?sb = "sendbuf w"
  let ?K = "\<lambda>sb. Inr (w\<lparr>sendpacketid := sendpacketid w + 1, sendbuf := sb\<rparr>)"
  have dl: "int (length data) = blen b" "0 \<le> blen b"
    using buf_contents_len [OF assms(2)] assms(2) by (auto simp: data_def buf_contents_def)
  have cont: "take (nat (blen b)) (bmem b) = data" "blen b \<le> int (length (bmem b))" "blen b \<le> 1073741824"
    using assms(2) by (auto simp: data_def bdata_def buf_contents_def)
  have pay: "buf_put sb (bmem b) (blen b) = bput sb data" if "wf_buf sb" for sb
    using buf_put_eq [OF that dl(2) cont(2,3)] unfolding cont(1) .
  have first: "bindr (buf_putnum32 ?sb 0) (\<lambda>sb. bindr (buf_putnum8 sb 0) (\<lambda>sb. bindr (buf_put sb (bmem b) (blen b)) K)) =
      bindr (bput ?sb (replicate 4 0 @ 0 # data)) K" for K
  proof -
    have "bindr (buf_putnum32 ?sb 0) (\<lambda>sb. bindr (buf_putnum8 sb 0) (\<lambda>sb. buf_put sb (bmem b) (blen b))) =
        bput ?sb (replicate 4 0 @ [0] @ data)"
      using assms(1)
      by (subst buf_putnum32_eq)
        (auto simp: pay buf_putnum8_eq num32_zero intro!: bput_then bput_then [where xs = "[0]" and ys = data, simplified])
    from arg_cong [OF this, of "\<lambda>m. bindr m K"] show ?thesis by (simp add: bindr_assoc)
  qed
  have "packet_put_plain b w =
      bindr (bput ?sb (replicate 4 0 @ 0 # data)) (\<lambda>sb1.
      bindr (bput sb1 (replicate pad 0)) (\<lambda>sb2.
      bindr (wr1 (bmem sb2) (blen ?sb + 4) (word_of_nat pad)) (\<lambda>m.
      bindr (wr m (blen ?sb) (uint32_pack_big (word_of_int (blen sb2 - blen ?sb - 4)))) (\<lambda>m.
        ?K (sb2\<lparr>bmem := m\<rparr>)))))"
    unfolding packet_put_plain_def Let_def first
  proof (rule bput_bindr [OF assms(1)], goal_cases)
    case (1 b')
    have x: "blen b' - blen ?sb = int (5 + length data)" using 1(2) by simp
    have "0 \<le> int pad" "int pad \<le> 1073741824" by (simp_all add: pad_def)
    note zero = buf_putzerobytes_eq [OF 1(1) this, unfolded nat_int]
    have "uint (word_of_nat pad :: u8) = int pad" by (rule uint_u8_small) (simp add: pad_def)
    then show ?case
      using zero unfolding plain_pad_byte [OF x] pad_def [symmetric] by simp
  qed
  also have "\<dots> = bindr (bput ?sb (plain_packet (word_of_nat pad # data @ replicate pad 0))) ?K"
    using arg_cong [OF put_plain_bytes [OF assms(1), of pad data "word_of_nat pad"], of "\<lambda>m. bindr m ?K"]
    by (simp add: bindr_assoc pad_def)
  finally show ?thesis by (simp add: packet_body_def pad_def data_def)
qed

section \<open>Receiving\<close>

text \<open>The body behind a ciphertext: decryption is encryption.\<close>

lemma openssh_body_involution: "openssh_body key n (openssh_body key n body) = body"
  by (simp add: openssh_body_def xor_bytes_involution)

lemma length_openssh_body [simp]: "length (openssh_body key n body) = length body"
  by (simp add: openssh_body_def)

lemma length_openssh_length [simp]: "length (openssh_length key n l) = 4"
  by (simp add: openssh_length_def)

lemma length_openssh_tag [simp]: "length (openssh_tag key n d) = 16"
  by (simp add: openssh_tag_def)

lemma xor_bytes_keystream:
  assumes "length g = 64"
  shows "xor_bytes (g @ body) (ssh_ks k n (64 + length body)) =
    xor_bytes g (ssh_ks k n 64) @ xor_bytes body (drop 64 (ssh_ks k n (64 + length body)))"
proof -
  let ?ks = "ssh_ks k n (64 + length body)"
  have t: "take 64 ?ks = ssh_ks k n 64" by (rule ssh_ks_take) simp
  have "?ks = ssh_ks k n 64 @ drop 64 ?ks" using append_take_drop_id [of 64 ?ks] unfolding t by simp
  then have "xor_bytes (g @ body) ?ks = xor_bytes (g @ body) (ssh_ks k n 64 @ drop 64 ?ks)" by simp
  also have "\<dots> = xor_bytes g (ssh_ks k n 64) @ xor_bytes body (drop 64 ?ks)"
    using assms by (simp add: xor_bytes_append)
  finally show ?thesis .
qed

lemma chachapoly_unseal_eq:
  assumes "cipher_ready s" and "length key = 128" and "length z = 64" and "length E = 4" and "length T = 16"
    and "length n = 8" and "length C \<le> 70000"
  shows "if T = openssh_tag key n (E @ C)
    then \<exists>z'. length z' = 68 \<and>
      chachapoly_unseal s key n (int (length C)) (z @ E @ C @ T @ q) = Inr (z' @ openssh_body key n C @ T @ q)
    else chachapoly_unseal s key n (int (length C)) (z @ E @ C @ T @ q) = Inl Eproto"
proof -
  let ?pl = "int (length C)"
  define K where "K = ssh_ks (take 32 key) n 32"
  define z2 where "z2 = drop 32 z"
  define z0 where "z0 = K @ z2"
  have lK: "length K = 32" "length z2 = 32" "length z0 = 64" using assms(3) by (simp_all add: K_def z2_def z0_def)
  have z: "z @ E @ C @ T @ q = [] @ take 32 z @ z2 @ E @ C @ T @ q" by (simp add: z2_def)
  have s1: "byte_zero (z @ E @ C @ T @ q) 0 32 = Inr ([] @ replicate 32 0 @ z2 @ E @ C @ T @ q)"
    using byte_zero_mid [of 0 "[]" 32 "take 32 z" "z2 @ E @ C @ T @ q"] assms(3) unfolding z by simp
  have s2: "stream_xor_at s ([] @ replicate 32 0 @ z2 @ E @ C @ T @ q) 0 32 n key = Inr (z0 @ (E @ C) @ T @ q)"
    using assms stream_xor_mid [OF assms(1), of 0 "[]" 32 "replicate 32 0" key n "z2 @ E @ C @ T @ q"]
      xor_zeros [of K] by (simp add: z0_def K_def)
  have k: "take 32 (z0 @ (E @ C) @ T @ q) = K" by (simp add: z0_def lK)
  have s3: "auth_at s (z0 @ (E @ C) @ T @ q) PACKET_ZEROBYTES (?pl + 4) (z0 @ (E @ C) @ T @ q) = Inr (openssh_tag key n (E @ C))"
    using assms lK k by (subst auth_mid) (simp_all add: PACKET_ZEROBYTES_def openssh_tag_def K_def)
  have t: "drop (nat (PACKET_ZEROBYTES + ?pl + 4)) (z0 @ (E @ C) @ T @ q) = T @ q"
    using lK assms(4) by (simp add: PACKET_ZEROBYTES_def nat_int_add)
  have s4: "crypto_verify_16 (openssh_tag key n (E @ C)) (T @ q) = Inr (if openssh_tag key n (E @ C) = T then 0 else -1)"
    using assms(5) by (simp add: crypto_verify_16_def verify_eq)
  define g where "g = drop 4 z0 @ E"
  have lg: "length g = 64" "length (take 4 z0) = 4" using assms(4) lK by (simp_all add: g_def)
  have s5: "stream_xor_at s (z0 @ (E @ C) @ T @ q) 4 (?pl + PACKET_ZEROBYTES) n key =
      Inr (take 4 z0 @ (xor_bytes g (ssh_ks (take 32 key) n 64) @ openssh_body key n C) @ T @ q)"
  proof -
    have e: "z0 @ (E @ C) @ T @ q = take 4 z0 @ (g @ C) @ T @ q" by (simp add: g_def)
    have "length (g @ C) \<le> 2 ^ 38" using assms(7) lg by simp
    then show ?thesis
      unfolding e using stream_xor_mid [OF assms(1), of 4 "take 4 z0" "?pl + PACKET_ZEROBYTES" "g @ C" key n "T @ q"] assms lg
        xor_bytes_keystream [OF lg(1), of C "take 32 key" n]
      by (simp add: PACKET_ZEROBYTES_def openssh_body_def add.commute)
  qed
  let ?z = "take 4 z0 @ xor_bytes g (ssh_ks (take 32 key) n 64)"
  have "chachapoly_unseal s key n ?pl (z @ E @ C @ T @ q) =
      (if openssh_tag key n (E @ C) = T then Inr (?z @ openssh_body key n C @ T @ q) else Inl Eproto)"
    unfolding chachapoly_unseal_def s1 s2 s3 bindr_Inr t s4 s5 by simp
  moreover have "length ?z = 68" using lg by simp
  ultimately show ?thesis by (auto intro: exI [of _ ?z])
qed

lemma byte_move_loop_out:
  "0 < k \<Longrightarrow> length y < xo + k \<Longrightarrow> byte_move_loop y yo xo k = Inl Oob"
proof (induction k arbitrary: y yo xo)
  case (Suc k)
  then show ?case by (cases "k = 0") auto
qed simp

text \<open>Taking a packet \<open>p\<close> out of the receive buffer needs \<open>2 * x\<close> bytes behind its contents.\<close>

lemma drop_packet_eq:
  assumes "length y = 64" and "int (length p) = pl + x" and "0 \<le> pl" and "0 < x"
    and "len = int (length y + length p + length rest)"
  shows "drop_packet len pl x (y @ p @ rest @ slack) =
    (if 2 * x \<le> int (length slack)
     then Inr (y @ rest @ take (nat (2 * x)) slack @ replicate (length p) 0 @ drop (nat (2 * x)) slack)
     else Inl Oob)"
proof -
  have n: "len - PACKET_ZEROBYTES - pl + x = int (length rest) + 2 * x" "PACKET_ZEROBYTES + pl + x = int (length y + length p)"
    "PACKET_ZEROBYTES + (len - PACKET_ZEROBYTES) - pl + x = int (length y + length rest) + 2 * x" "PACKET_ZEROBYTES = int (length y)"
    using assms by (simp_all add: PACKET_ZEROBYTES_def)
  show ?thesis
  proof (cases "2 * x \<le> int (length slack)")
    case True
    define u where "u = rest @ take (nat (2 * x)) slack"
    define v where "v = drop (nat (2 * x)) slack"
    have lu: "int (length u) = int (length rest) + 2 * x" using True assms(4) by (simp add: u_def)
    have m: "y @ p @ rest @ slack = y @ p @ u @ v" by (simp add: u_def v_def)
    have 1: "byte_move (y @ p @ rest @ slack) PACKET_ZEROBYTES (int (length rest) + 2 * x) (int (length y + length p)) =
        Inr ((y @ u) @ drop (length u) (p @ u) @ v)"
      unfolding m n(4) by (subst byte_move_mid) (simp_all add: lu)
    have "length (drop (length u) (p @ u)) = length p" by (simp del: drop_append)
    then have 2: "purge ((y @ u) @ drop (length u) (p @ u) @ v) (int (length y + length rest) + 2 * x) (pl + x) =
        Inr ((y @ u) @ replicate (length p) 0 @ v)"
      using byte_zero_mid [of "int (length y + length rest) + 2 * x" "y @ u" "pl + x" "drop (length u) (p @ u)" v] assms lu
      unfolding purge_byte_zero by (simp del: drop_append append_assoc)
    show ?thesis unfolding drop_packet_def Let_def n(1-3) 1 bindr_Inr 2 using True by (simp add: u_def v_def)
  next
    case False
    have "byte_move (y @ p @ rest @ slack) PACKET_ZEROBYTES (int (length rest) + 2 * x) (int (length y + length p)) = Inl Oob"
      unfolding byte_move_def n(4) using False assms(4) by (auto intro!: byte_move_loop_out)
    then show ?thesis unfolding drop_packet_def Let_def n(1-3) using False by simp
  qed
qed

text \<open>
  The abstract receiver: what a stream \<open>d\<close> of received bytes begins with. The result is nothing
  yet, or a payload and the rest of the stream; anything that is not a packet of the format is
  refused.
\<close>

definition openssh_len :: "bytes \<Rightarrow> u32 \<Rightarrow> bytes \<Rightarrow> u32" where
  "openssh_len key seq d = unpack_be (xor_bytes (take 4 d) (ssh_ks (take 32 (drop 32 key)) (packet_nonce seq) 4))"

definition openssh_parse :: "bytes \<Rightarrow> u32 \<Rightarrow> bytes \<Rightarrow> (bytes \<times> bytes) option res" where
  "openssh_parse key seq d =
     (if length d < 4 then Inr None
      else
        let pl = unat (openssh_len key seq d) in
        if pl > PACKET_LIMIT then Inl Eproto
        else if length d < pl + 20 then Inr None
        else
          let body = openssh_body key (packet_nonce seq) (take pl (drop 4 d)) in
          if take (pl + 20) d \<noteq> openssh_packet key seq body \<or> body = [] \<or> pl \<le> unat (hd body) + 1 then Inl Eproto
          else Inr (Some (take (pl - (unat (hd body) + 1)) (tl body), drop (pl + 20) d)))"

text \<open>The receive buffer holds the received bytes \<open>d\<close> behind its 64 reserved ones.\<close>

definition recv_holds :: "buf \<Rightarrow> bytes \<Rightarrow> bytes \<Rightarrow> bool" where
  "recv_holds b d slack \<longleftrightarrow> (\<exists>z. length z = 64 \<and> bmem b = z @ d @ slack \<and> blen b = int (64 + length d))"

definition len_cached :: "'a net_scheme \<Rightarrow> bytes \<Rightarrow> bool" where
  "len_cached w d \<longleftrightarrow> packet_length w = 0 \<or>
     4 \<le> length d \<and> packet_length w = openssh_len (clientkey w) (receivepacketid w) d"

lemma chachapoly_packet_length_eq:
  assumes "cipher_ready (crypt w)" and "length (clientkey w) = 128" and "recv_holds (recvbuf w) d slack"
    and "len_cached w d" and "4 \<le> length d"
  shows "chachapoly_packet_length w = Inr (w\<lparr>packet_length := openssh_len (clientkey w) (receivepacketid w) d\<rparr>)"
proof (cases "packet_length w = 0")
  case True
  obtain z where z: "length z = 64" "bmem (recvbuf w) = z @ d @ slack" using assms(3) by (auto simp: recv_holds_def)
  have r: "rd (bmem (recvbuf w)) PACKET_ZEROBYTES 4 = Inr (take 4 d)"
    using assms(5) by (simp add: rd_in z PACKET_ZEROBYTES_def)
  have x: "stream_xor_at (crypt w) (take 4 d) 0 4 (packet_nonce (receivepacketid w)) (drop 32 (clientkey w)) =
    Inr (xor_bytes (take 4 d) (ssh_ks (take 32 (drop 32 (clientkey w))) (packet_nonce (receivepacketid w)) 4))"
    using stream_xor_mid [OF assms(1), of 0 "[]" 4 "take 4 d" "drop 32 (clientkey w)" "packet_nonce (receivepacketid w)" "[]"]
      assms(2,5) by simp
  have "uint32_unpack_big y 0 = Inr (unpack_be y)" if "length y = 4" for y
    using that by (simp add: uint32_unpack_big_def rd_in)
  then show ?thesis
    using True assms(5) by (simp add: chachapoly_packet_length_def r x openssh_len_def)
next
  case False
  then have "packet_length w = openssh_len (clientkey w) (receivepacketid w) d" using assms(4) by (simp add: len_cached_def)
  then show ?thesis using False by (simp add: chachapoly_packet_length_def)
qed

lemma openssh_packet_match:
  assumes "length E = 4" and "length T = 16" and "unat (openssh_len key seq (E @ r)) = length C" and "length C \<le> PACKET_LIMIT"
  shows "E @ C @ T = openssh_packet key seq (openssh_body key (packet_nonce seq) C) \<longleftrightarrow>
    T = openssh_tag key (packet_nonce seq) (E @ C)"
proof -
  let ?n = "packet_nonce seq"
  let ?ks = "ssh_ks (take 32 (drop 32 key)) ?n 4"
  have "uint32_pack_big (of_nat (length C)) = uint32_pack_big (unpack_be (xor_bytes E ?ks))"
    using assms(1) unfolding assms(3) [symmetric] by (simp add: openssh_len_def)
  also have "\<dots> = xor_bytes E ?ks" using assms(1) by (simp add: uint32_pack_big_unpack)
  finally have "openssh_length key ?n (of_nat (length C)) = E"
    using assms(1) by (simp add: openssh_length_def xor_bytes_involution)
  then show ?thesis by (simp add: openssh_packet_def Let_def openssh_body_involution)
qed

text \<open>The complete-packet branch of \<open>chachapoly_packet_get\<close>.\<close>

lemma recv_memory:
  assumes "length d = pl + 20"
  obtains E C T where "d = E @ C @ T" "length E = 4" "length C = pl" "length T = 16"
proof
  show "d = take 4 d @ take pl (drop 4 d) @ drop (pl + 4) d" by (metis append_take_drop_id drop_drop)
qed (use assms in simp_all)

lemma deliver:
  assumes "wf_buf b" and "0 < len" and "len \<le> int (length body) - 1" and "int (length body) \<le> 1073741824"
    and "length z' = 68"
  shows "buf_put b (drop (nat (PACKET_ZEROBYTES + 5)) (z' @ body @ q)) len = bput b (take (nat len) (tl body))"
proof -
  have "drop (nat (PACKET_ZEROBYTES + 5)) (z' @ body @ q) = tl body @ q"
    using assms by (cases body) (simp_all add: PACKET_ZEROBYTES_def)
  then show ?thesis using assms by (simp add: buf_put_eq)
qed

lemma chachapoly_packet_get_full:
  assumes "cipher_ready (crypt w)" and "length (clientkey w) = 128" and "wf_buf b"
    and "length z = 64" "bmem (recvbuf w) = z @ E @ C @ T @ rest @ slack"
    and "blen (recvbuf w) = int (64 + (20 + length C) + length rest)"
    and "length E = 4" "length T = 16" "length C \<le> PACKET_LIMIT" "40 \<le> length slack"
    and "chachapoly_packet_length w = Inr (w\<lparr>packet_length := of_nat (length C)\<rparr>)"
  shows "let body = openssh_body (clientkey w) (packet_nonce (receivepacketid w)) C;
      x = take (length C - (unat (hd body) + 1)) (tl body)
    in if T \<noteq> openssh_tag (clientkey w) (packet_nonce (receivepacketid w)) (E @ C) \<or> body = [] \<or> length C \<le> unat (hd body) + 1
       then chachapoly_packet_get b w = Inl Eproto
       else if blen b + int (length x) < balloc b
       then \<exists>rb slack'. length slack' = length slack + 20 + length C \<and> recv_holds rb rest slack' \<and>
         take 64 (bmem rb) = replicate 64 0 \<and> balloc rb = balloc (recvbuf w) \<and>
         chachapoly_packet_get b w = Inr (bapp b x, w\<lparr>recvbuf := rb, receivepacketid := receivepacketid w + 1, packet_length := 0\<rparr>)
       else chachapoly_packet_get b w = Inl Enomem"
proof -
  let ?key = "clientkey w" and ?n = "packet_nonce (receivepacketid w)" and ?rb = "recvbuf w"
  define body where "body = openssh_body ?key ?n C"
  define x where "x = take (length C - (unat (hd body) + 1)) (tl body)"
  have lb: "length body = length C" by (simp add: body_def)
  have c4096: "length C \<le> 4096" using assms(9) by (simp add: PACKET_LIMIT_def)
  have pl: "uint (of_nat (length C) :: u32) = int (length C)" using c4096 by (simp add: unsigned_of_nat take_bit_nat_eq_self)
  have ab: "auth_bytes (crypt w) = 16" using assms(1) by (auto simp: cipher_ready_def auth_bytes_def)
  have c: "\<not> blen ?rb - PACKET_ZEROBYTES < 4" "\<not> int (length C) > int PACKET_LIMIT"
    "\<not> int (length C) + auth_bytes (crypt w) + 4 > blen ?rb - PACKET_ZEROBYTES"
    using assms(6,9) by (simp_all add: PACKET_ZEROBYTES_def ab)
  define F where "F m = bindr (rd1 m (PACKET_ZEROBYTES + 4)) (\<lambda>padlen.
          let len = int (length C) - (uint padlen + 1) in
          if len \<le> 0 then Inl Eproto
          else
            bindr (buf_put b (drop (nat (PACKET_ZEROBYTES + 5)) m) len) (\<lambda>b.
            bindr (drop_packet (blen ?rb) (int (length C)) (auth_bytes (crypt w) + 4) m) (\<lambda>m.
            bindr (purge m 0 PACKET_ZEROBYTES) (\<lambda>m.
              Inr (b, w\<lparr>recvbuf := ?rb\<lparr>bmem := m, blen := blen ?rb - (int (length C) + (auth_bytes (crypt w) + 4))\<rparr>,
                        receivepacketid := receivepacketid w + 1, packet_length := 0\<rparr>)))))" for m
  have get: "chachapoly_packet_get b w =
      bindr (chachapoly_unseal (crypt w) ?key ?n (int (length C)) (bmem ?rb)) F"
    unfolding chachapoly_packet_get_def Let_def assms(11) bindr_Inr using c
    by (simp add: pl F_def [abs_def] Let_def cong: if_cong)
  show ?thesis
  proof (cases "T = openssh_tag ?key ?n (E @ C)")
    case False
    then have "chachapoly_unseal (crypt w) ?key ?n (int (length C)) (bmem ?rb) = Inl Eproto"
      using chachapoly_unseal_eq [OF assms(1,2,4,7,8), of ?n C "rest @ slack"] c4096 by (simp add: assms(5))
    then show ?thesis using False by (simp add: get)
  next
    case True
    then obtain z' where z': "length z' = 68" "chachapoly_unseal (crypt w) ?key ?n (int (length C)) (bmem ?rb) =
        Inr (z' @ body @ T @ rest @ slack)"
      using chachapoly_unseal_eq [OF assms(1,2,4,7,8), of ?n C "rest @ slack"] c4096 by (auto simp: assms(5) body_def)
    let ?m = "z' @ body @ T @ rest @ slack"
    have g: "chachapoly_packet_get b w = F ?m" by (simp add: get z')
    have p: "rd1 ?m (PACKET_ZEROBYTES + 4) = Inr ((body @ T @ rest @ slack) ! 0)"
      using z'(1) assms(8) by (simp add: rd1_in PACKET_ZEROBYTES_def nth_append)
    let ?len = "int (length C) - (uint ((body @ T @ rest @ slack) ! 0) + 1)"
    show ?thesis
    proof (cases "body = [] \<or> length C \<le> unat (hd body) + 1")
      case bad: True
      have "?len \<le> 0"
      proof (cases body)
        case Nil
        then have "length C = 0" using lb by simp
        then show ?thesis using uint_ge_0 [of "(body @ T @ rest @ slack) ! 0"] by linarith
      next
        case (Cons h t)
        then have "length C \<le> Suc (unat h)" using bad by simp
        then have "int (length C) \<le> int (Suc (unat h))" by (simp only: of_nat_le_iff)
        then show ?thesis by (simp add: Cons)
      qed
      then have "chachapoly_packet_get b w = Inl Eproto" unfolding g F_def p bindr_Inr Let_def by (simp only: if_True)
      then show ?thesis using bad by (simp add: body_def Let_def)
    next
      case ok: False
      have len: "?len = int (length C - (unat (hd body) + 1))"
        using ok uint_nat [of "hd body"] by (cases body) (simp_all add: of_nat_diff)
      have "0 < length C - (unat (hd body) + 1)" using ok by simp
      then have len0: "\<not> ?len \<le> 0" "0 < ?len" unfolding len by (simp_all only: of_nat_0_less_iff not_le)
      have put: "buf_put b (drop (nat (PACKET_ZEROBYTES + 5)) ?m) ?len = bput b x"
      proof -
        have "nat ?len = length C - (unat (hd body) + 1)" unfolding len by (rule nat_int)
        moreover have "?len \<le> int (length body) - 1"
          unfolding lb using uint_ge_0 [of "(body @ T @ rest @ slack) ! 0"] by linarith
        moreover have "int (length body) \<le> 1073741824" using lb c4096 by simp
        ultimately show ?thesis using deliver [OF assms(3) len0(2) _ _ z'(1)] by (simp only: x_def)
      qed
      have dp: "drop_packet (blen ?rb) (int (length C)) (auth_bytes (crypt w) + 4) ?m =
          Inr (take 64 z' @ rest @ take 40 slack @ replicate (20 + length C) 0 @ drop 40 slack)"
      proof -
        have "?m = take 64 z' @ (drop 64 z' @ body @ T) @ rest @ slack" by (metis append_assoc append_take_drop_id)
        then show ?thesis
          using drop_packet_eq [of "take 64 z'" "drop 64 z' @ body @ T" "int (length C)" 20 "blen ?rb" rest slack] assms(6,8,10) z'(1) lb
          by (simp only: ab) simp
      qed
      let ?sl = "take 40 slack @ replicate (20 + length C) 0 @ drop 40 slack"
      have pu: "purge (take 64 z' @ rest @ ?sl) 0 PACKET_ZEROBYTES = Inr (replicate 64 0 @ rest @ ?sl)"
        using byte_zero_mid [of 0 "[]" 64 "take 64 z'" "rest @ ?sl"] z'(1)
        unfolding purge_byte_zero PACKET_ZEROBYTES_def by simp
      let ?rb' = "?rb\<lparr>bmem := replicate 64 0 @ rest @ ?sl, blen := blen ?rb - (int (length C) + (auth_bytes (crypt w) + 4))\<rparr>"
      have "chachapoly_packet_get b w = bindr (bput b x) (\<lambda>b. Inr (b, w\<lparr>recvbuf := ?rb',
                        receivepacketid := receivepacketid w + 1, packet_length := 0\<rparr>))"
        unfolding g F_def p bindr_Inr Let_def put dp pu using len0 by simp
      moreover have "recv_holds ?rb' rest ?sl" "length ?sl = length slack + 20 + length C"
        using assms(6,10) by (auto simp: recv_holds_def ab)
      ultimately show ?thesis
        using True ok unfolding Let_def body_def [symmetric] x_def [symmetric]
        by (auto simp: bput_def intro!: exI [of _ ?rb'] exI [of _ ?sl])
    qed
  qed
qed

theorem chachapoly_packet_get_refines:
  assumes "cipher_ready (crypt w)" and "length (clientkey w) = 128" and "wf_buf b"
    and "recv_holds (recvbuf w) d slack" and "len_cached w d" and "40 \<le> length slack"
  shows "case openssh_parse (clientkey w) (receivepacketid w) d of
      Inl e \<Rightarrow> chachapoly_packet_get b w = Inl e
    | Inr None \<Rightarrow> (\<exists>l. chachapoly_packet_get b w = Inr (b, w\<lparr>packet_length := l\<rparr>) \<and> len_cached (w\<lparr>packet_length := l\<rparr>) d)
    | Inr (Some (x, rest)) \<Rightarrow>
        if blen b + int (length x) < balloc b
        then \<exists>rb slack'. length slack' + length rest = length slack + length d \<and> recv_holds rb rest slack' \<and>
          take 64 (bmem rb) = replicate 64 0 \<and> balloc rb = balloc (recvbuf w) \<and>
          chachapoly_packet_get b w = Inr (bapp b x, w\<lparr>recvbuf := rb, receivepacketid := receivepacketid w + 1, packet_length := 0\<rparr>)
        else chachapoly_packet_get b w = Inl Enomem"
proof -
  let ?key = "clientkey w" and ?seq = "receivepacketid w"
  obtain z where z: "length z = 64" "bmem (recvbuf w) = z @ d @ slack" "blen (recvbuf w) = int (64 + length d)"
    using assms(4) by (auto simp: recv_holds_def)
  have ab: "auth_bytes (crypt w) = 16" using assms(1) by (auto simp: cipher_ready_def auth_bytes_def)
  show ?thesis
  proof (cases "length d < 4")
    case True
    then show ?thesis
      by (auto simp: openssh_parse_def chachapoly_packet_get_def z PACKET_ZEROBYTES_def len_cached_def)
  next
    case d4: False
    then have d4': "4 \<le> length d" by simp
    define l where "l = openssh_len ?key ?seq d"
    have plen: "chachapoly_packet_length w = Inr (w\<lparr>packet_length := l\<rparr>)"
      unfolding l_def by (rule chachapoly_packet_length_eq [OF assms(1,2,4,5) d4'])
    have cached: "len_cached (w\<lparr>packet_length := l\<rparr>) d" using d4 by (simp add: len_cached_def l_def)
    have c: "\<not> blen (recvbuf w) - PACKET_ZEROBYTES < 4" using d4 z by (simp add: PACKET_ZEROBYTES_def)
    have u: "uint l > int PACKET_LIMIT \<longleftrightarrow> unat l > PACKET_LIMIT"
      "uint l + 16 + 4 > int (length d) \<longleftrightarrow> length d < unat l + 20"
      using uint_nat [of l] by linarith+
    show ?thesis
    proof (cases "unat l > PACKET_LIMIT")
      case True
      then show ?thesis
        unfolding chachapoly_packet_get_def Let_def plen bindr_Inr openssh_parse_def l_def [symmetric]
        using c d4 True u(1) by simp
    next
      case lim: False
      show ?thesis
      proof (cases "length d < unat l + 20")
        case True
        have "chachapoly_packet_get b w = Inr (b, w\<lparr>packet_length := l\<rparr>)"
          unfolding chachapoly_packet_get_def Let_def plen bindr_Inr
          using c u lim True z(3) by (simp add: ab PACKET_ZEROBYTES_def)
        moreover have "openssh_parse ?key ?seq d = Inr None"
          using d4 lim True by (simp add: openssh_parse_def l_def [symmetric])
        ultimately show ?thesis using cached by auto
      next
        case long: False
        define rest where "rest = drop (unat l + 20) d"
        have "length (take (unat l + 20) d) = unat l + 20" using long by simp
        then obtain E C T where ect: "take (unat l + 20) d = E @ C @ T" "length E = 4" "length C = unat l" "length T = 16"
          by (rule recv_memory)
        have d: "d = E @ C @ T @ rest" using append_take_drop_id [of "unat l + 20" d] by (simp add: ect rest_def)
        have cl: "length C \<le> PACKET_LIMIT" using ect(3) lim by simp
        have lC: "l = of_nat (length C)" by (simp add: ect(3))
        have tk: "take (unat l) (drop 4 d) = C" by (simp add: d ect)
        have m: "take (unat l + 20) d = openssh_packet ?key ?seq (openssh_body ?key (packet_nonce ?seq) C) \<longleftrightarrow>
            T = openssh_tag ?key (packet_nonce ?seq) (E @ C)"
          unfolding ect(1) by (rule openssh_packet_match [OF ect(2,4), of ?key ?seq "C @ T @ rest"])
            (use cl in \<open>simp_all add: d [symmetric] l_def [symmetric] ect(3)\<close>)
        have "bmem (recvbuf w) = z @ E @ C @ T @ rest @ slack" "blen (recvbuf w) = int (64 + (20 + length C) + length rest)"
          "chachapoly_packet_length w = Inr (w\<lparr>packet_length := of_nat (length C)\<rparr>)"
          using z(2,3) plen lC by (simp_all add: d ect(2,4))
        note full = chachapoly_packet_get_full [OF assms(1,2,3) z(1) this(1,2) ect(2,4) cl assms(6) this(3)]
        define body where "body = openssh_body ?key (packet_nonce ?seq) C"
        define bad where "bad \<longleftrightarrow> T \<noteq> openssh_tag ?key (packet_nonce ?seq) (E @ C) \<or> body = [] \<or> length C \<le> unat (hd body) + 1"
        have "openssh_parse ?key ?seq d =
          (if bad then Inl Eproto else Inr (Some (take (length C - (unat (hd body) + 1)) (tl body), rest)))"
          using d4 lim long unfolding openssh_parse_def l_def [symmetric] Let_def tk m bad_def body_def
          by (simp add: ect(3) rest_def)
        moreover have "length d = 20 + length C + length rest" by (simp add: d ect)
        ultimately show ?thesis
          using full unfolding Let_def body_def [symmetric] bad_def [symmetric] by (cases bad) (simp_all add: add_ac split: if_splits)
      qed
    qed
  qed
qed

text \<open>The plain format.\<close>

definition plain_parse :: "bytes \<Rightarrow> (bytes \<times> bytes) option res" where
  "plain_parse d =
     (if length d < 4 then Inr None
      else
        let pl = unat (unpack_be (take 4 d) :: u32) in
        if pl > PACKET_LIMIT then Inl Eproto
        else if length d < pl + 4 then Inr None
        else
          let body = take pl (drop 4 d) in
          if body = [] \<or> pl \<le> unat (hd body) + 1 then Inl Eproto
          else Inr (Some (take (pl - (unat (hd body) + 1)) (tl body), drop (pl + 4) d)))"

lemma rd1_mid: "i = int (length p) \<Longrightarrow> x \<noteq> [] \<Longrightarrow> rd1 (p @ x) i = Inr (x ! 0)"
  by (simp add: rd1_in nth_append)

lemma deliver_nat:
  assumes "wf_buf b" and "0 < k" and "k < length body" and "length body \<le> 4096" and "length z' = 68"
  shows "buf_put b (drop (nat (PACKET_ZEROBYTES + 5)) (z' @ body @ q)) (int k) = bput b (take k (tl body))"
  using deliver [OF assms(1) _ _ _ assms(5), of "int k" body q] assms(2-4) by simp

lemma padding_test:
  assumes "length body = pl"
  shows "int pl - (uint ((body @ q) ! 0) + 1) \<le> 0 \<longleftrightarrow> body = [] \<or> pl \<le> unat (hd body) + 1"
    and "body \<noteq> [] \<Longrightarrow> \<not> pl \<le> unat (hd body) + 1 \<Longrightarrow>
      int pl - (uint ((body @ q) ! 0) + 1) = int (pl - (unat (hd body) + 1))"
proof -
  show "int pl - (uint ((body @ q) ! 0) + 1) \<le> 0 \<longleftrightarrow> body = [] \<or> pl \<le> unat (hd body) + 1"
  proof (cases body)
    case Nil
    have "- 1 \<le> uint (q ! 0)" using uint_ge_0 [of "q ! 0"] by linarith
    then show ?thesis using Nil assms by auto
  next
    case (Cons h t)
    have "int pl \<le> int (unat h + 1) \<longleftrightarrow> pl \<le> unat h + 1" by (simp only: of_nat_le_iff)
    then show ?thesis by (simp add: Cons add.commute)
  qed
  show "int pl - (uint ((body @ q) ! 0) + 1) = int (pl - (unat (hd body) + 1))"
    if "body \<noteq> []" "\<not> pl \<le> unat (hd body) + 1"
    using that uint_nat [of "hd body"] by (cases body) (simp_all add: of_nat_diff)
qed

lemma packet_get_plain_refines:
  assumes "wf_buf b" and "recv_holds (recvbuf w) d slack" and "8 \<le> length slack"
  shows "case plain_parse d of
      Inl e \<Rightarrow> packet_get_plain b w = Inl e
    | Inr None \<Rightarrow> packet_get_plain b w = Inr (b, w)
    | Inr (Some (x, rest)) \<Rightarrow>
        if blen b + int (length x) < balloc b
        then \<exists>rb slack'. length slack' + length rest = length slack + length d \<and> recv_holds rb rest slack' \<and>
          balloc rb = balloc (recvbuf w) \<and>
          packet_get_plain b w = Inr (bapp b x, w\<lparr>recvbuf := rb, receivepacketid := receivepacketid w + 1\<rparr>)
        else packet_get_plain b w = Inl Enomem"
proof -
  let ?rb = "recvbuf w"
  obtain z where z: "length z = 64" "bmem ?rb = z @ d @ slack" "blen ?rb = int (64 + length d)"
    using assms(2) by (auto simp: recv_holds_def)
  show ?thesis
  proof (cases "length d < 4")
    case True
    then show ?thesis by (simp add: plain_parse_def packet_get_plain_def z PACKET_ZEROBYTES_def)
  next
    case d4: False
    define l where "l = (unpack_be (take 4 d) :: u32)"
    define pl where "pl = unat l"
    have r: "uint32_unpack_big (bmem ?rb) PACKET_ZEROBYTES = Inr l"
      using d4 by (simp add: uint32_unpack_big_def rd_in z PACKET_ZEROBYTES_def l_def)
    have u: "int pl > int PACKET_LIMIT \<longleftrightarrow> pl > PACKET_LIMIT" "int pl + 4 > blen ?rb - PACKET_ZEROBYTES \<longleftrightarrow> length d < pl + 4"
      "uint l = int pl"
      using uint_nat [of l] z(3) unfolding pl_def PACKET_ZEROBYTES_def by linarith+
    have c: "\<not> blen ?rb - PACKET_ZEROBYTES < 4" using d4 z by (simp add: PACKET_ZEROBYTES_def)
    show ?thesis
    proof (cases "pl > PACKET_LIMIT \<or> length d < pl + 4")
      case True
      then show ?thesis
        unfolding packet_get_plain_def Let_def r bindr_Inr u(3) u(1,2) plain_parse_def l_def [symmetric] pl_def [symmetric]
        using c d4 by auto
    next
      case False
      define body where "body = take pl (drop 4 d)"
      define rest where "rest = drop (pl + 4) d"
      define x where "x = take (pl - (unat (hd body) + 1)) (tl body)"
      have lb: "length body = pl" "pl \<le> 4096" using False by (auto simp: body_def PACKET_LIMIT_def min_def)
      have d: "d = take 4 d @ body @ rest" unfolding body_def rest_def by (metis append_take_drop_id drop_drop)
      have mem: "bmem ?rb = (z @ take 4 d) @ body @ rest @ slack" unfolding z(2) by (subst d) simp
      have l68: "length (z @ take 4 d) = 68" using z(1) d4 by simp
      have p: "rd1 (bmem ?rb) (PACKET_ZEROBYTES + 4) = Inr ((body @ rest @ slack) ! 0)"
        unfolding mem by (rule rd1_mid) (use l68 assms(3) in \<open>auto simp: PACKET_ZEROBYTES_def\<close>)
      note test = padding_test [OF lb(1), of "rest @ slack"]
      show ?thesis
      proof (cases "body = [] \<or> pl \<le> unat (hd body) + 1")
        case True
        then have "packet_get_plain b w = Inl Eproto"
          unfolding packet_get_plain_def Let_def r bindr_Inr u(3) p test(1) using c False u by simp
        moreover have "plain_parse d = Inl Eproto"
          using True False d4 by (simp add: plain_parse_def l_def [symmetric] pl_def [symmetric] body_def [symmetric])
        ultimately show ?thesis by simp
      next
        case ok: False
        have len: "int pl - (uint ((body @ rest @ slack) ! 0) + 1) = int (pl - (unat (hd body) + 1))"
          using test(2) ok by blast
        have put: "buf_put b (drop (nat (PACKET_ZEROBYTES + 5)) (bmem ?rb)) (int (pl - (unat (hd body) + 1))) = bput b x"
          unfolding mem x_def using ok lb by (intro deliver_nat [OF assms(1) _ _ _ l68]) auto
        have dp: "drop_packet (blen ?rb) (int pl) 4 (bmem ?rb) =
            Inr (z @ rest @ take 8 slack @ replicate (4 + pl) 0 @ drop 8 slack)"
        proof -
          have "length d = 4 + pl + length rest" using False by (simp add: rest_def)
          then show ?thesis
            unfolding mem append_assoc using drop_packet_eq [OF z(1), of "take 4 d @ body" "int pl" 4 "blen ?rb" rest slack] z(3) d4 lb assms(3)
            by (simp add: z(1))
        qed
        let ?sl = "take 8 slack @ replicate (4 + pl) 0 @ drop 8 slack"
        let ?rb' = "?rb\<lparr>bmem := z @ rest @ ?sl, blen := blen ?rb - (int pl + 4)\<rparr>"
        have get: "packet_get_plain b w = bindr (bput b x) (\<lambda>b. Inr (b, w\<lparr>recvbuf := ?rb', receivepacketid := receivepacketid w + 1\<rparr>))"
        proof -
          have "\<not> int pl > int PACKET_LIMIT" "\<not> int pl + 4 > blen ?rb - PACKET_ZEROBYTES" using False u by simp_all
          moreover have "\<not> int (pl - (unat (hd body) + 1)) \<le> 0" using ok by (simp only: of_nat_le_0_iff) simp
          ultimately show ?thesis
            unfolding packet_get_plain_def Let_def r bindr_Inr u(3) p len put dp using c by (simp only: if_False bindr_Inr)
        qed
        have parse: "plain_parse d = Inr (Some (x, rest))"
          using ok False d4 by (simp add: plain_parse_def l_def [symmetric] pl_def [symmetric] body_def [symmetric] rest_def x_def)
        have rh: "recv_holds ?rb' rest ?sl" "length ?sl + length rest = length slack + length d"
          using z assms(3) False by (auto simp: recv_holds_def rest_def)
        show ?thesis unfolding parse get using rh by (auto simp: bput_def intro!: exI [of _ ?rb'] exI [of _ ?sl])
      qed
    qed
  qed
qed

end
