(* ===== verification/Packet_Stream.thy ===== *)
theory Packet_Stream
  imports Packet_Correct
begin

text \<open>
  The packet layer over a byte stream: both packet formats satisfy one framing contract (locale
  \<open>framing\<close>), so what \<open>packet_getall\<close> delivers does not depend on how the network cut the stream.
\<close>

section \<open>The framing contract\<close>

text \<open>
  A framing reads the first message off a stream. Bytes that follow a complete message do not
  change it, a refused stream stays refused, a message takes at least one byte, and a stream that
  is long enough holds a complete message or is refused.
\<close>

locale framing =
  fixes parse :: "bytes \<Rightarrow> (bytes \<times> bytes) option res"
    and maximum :: nat
  assumes more_bytes: "parse d = Inr (Some (x, rest)) \<Longrightarrow> parse (d @ e) = Inr (Some (x, rest @ e))"
    and refused: "parse d = Inl err \<Longrightarrow> parse (d @ e) = Inl err"
    and takes: "parse d = Inr (Some (x, rest)) \<Longrightarrow> length rest < length d"
    and bounded: "parse d = Inr None \<Longrightarrow> length d < maximum"
begin

lemma prefix_cases:
  assumes "parse (d @ e) = Inr (Some (x, rest))"
  obtains "parse d = Inr None" "e \<noteq> []" | r where "parse d = Inr (Some (x, r))" "rest = r @ e"
proof (cases "parse d")
  case (Inl err)
  then show ?thesis using assms refused by simp
next
  case (Inr m)
  show ?thesis
  proof (cases m)
    case None
    then show ?thesis using Inr assms that(1) by (cases "e = []") simp_all
  next
    case (Some p)
    then obtain x' r where "parse d = Inr (Some (x', r))" using Inr by (cases p) simp
    then show ?thesis using assms more_bytes [of d x' r e] that(2) by simp
  qed
qed

lemma long_enough: "maximum \<le> length d \<Longrightarrow> parse d \<noteq> Inr None"
  using bounded leD by blast

end

section \<open>Both formats keep the contract\<close>

lemma openssh_len_append: "4 \<le> length d \<Longrightarrow> openssh_len key seq (d @ e) = openssh_len key seq d"
  by (simp add: openssh_len_def)

interpretation openssh: framing "openssh_parse key seq" 4116
proof
  fix d e rest x err
  define pl where "pl = unat (openssh_len key seq d)"
  have app: "take (pl + 20) (d @ e) = take (pl + 20) d" "take pl (drop 4 (d @ e)) = take pl (drop 4 d)"
    "drop (pl + 20) (d @ e) = drop (pl + 20) d @ e" if "pl + 20 \<le> length d"
    using that by simp_all
  show "openssh_parse key seq (d @ e) = Inr (Some (x, rest @ e))" if "openssh_parse key seq d = Inr (Some (x, rest))"
    using that app
    by (auto simp: openssh_parse_def openssh_len_append Let_def not_less pl_def split: if_splits)
  show "openssh_parse key seq (d @ e) = Inl err" if "openssh_parse key seq d = Inl err"
    using that app
    by (auto simp: openssh_parse_def openssh_len_append Let_def not_less pl_def split: if_splits)
  show "length rest < length d" if "openssh_parse key seq d = Inr (Some (x, rest))"
    using that by (auto simp: openssh_parse_def Let_def split: if_splits)
  show "length d < 4116" if "openssh_parse key seq d = Inr None"
    using that by (auto simp: openssh_parse_def PACKET_LIMIT_def Let_def split: if_splits)
qed

interpretation plain: framing plain_parse 4116
proof
  fix d e rest x err
  define pl where "pl = unat (unpack_be (take 4 d) :: u32)"
  have app: "take pl (drop 4 (d @ e)) = take pl (drop 4 d)" "drop (pl + 4) (d @ e) = drop (pl + 4) d @ e"
    if "pl + 4 \<le> length d"
    using that by simp_all
  have t: "take 4 (d @ e) = take 4 d" if "4 \<le> length d" using that by simp
  show "plain_parse (d @ e) = Inr (Some (x, rest @ e))" if "plain_parse d = Inr (Some (x, rest))"
    using that app t by (auto simp: plain_parse_def Let_def not_less pl_def simp del: hd_take split: if_splits)
  show "plain_parse (d @ e) = Inl err" if "plain_parse d = Inl err"
    using that app t by (auto simp: plain_parse_def Let_def not_less pl_def simp del: hd_take split: if_splits)
  show "length rest < length d" if "plain_parse d = Inr (Some (x, rest))"
    using that by (auto simp: plain_parse_def Let_def split: if_splits)
  show "length d < 4116" if "plain_parse d = Inr None"
    using that by (auto simp: plain_parse_def PACKET_LIMIT_def Let_def split: if_splits)
qed

section \<open>Round trips\<close>

lemma unat_u32_small: "n \<le> 65536 \<Longrightarrow> unat (of_nat n :: u32) = n"
  by (simp add: unsigned_of_nat take_bit_nat_eq_self)

lemma openssh_parse_packet:
  assumes "length key = 128" and "x \<noteq> []" and "1 + length x + pad \<le> PACKET_LIMIT" and "pad < 256"
  shows "openssh_parse key seq (openssh_packet key seq (packet_body pad x) @ rest) = Inr (Some (x, rest))"
proof -
  let ?n = "packet_nonce seq"
  define body where "body = packet_body pad x"
  have lb: "length body = 1 + length x + pad" by (simp add: body_def packet_body_def)
  define E where "E = openssh_length key ?n (of_nat (length body))"
  define C where "C = openssh_body key ?n body"
  define T where "T = openssh_tag key ?n (E @ C)"
  have pk: "openssh_packet key seq body = E @ C @ T" by (simp add: openssh_packet_def Let_def E_def C_def T_def)
  have l: "length E = 4" "length C = length body" "length T = 16" by (simp_all add: E_def C_def T_def)
  have "openssh_len key seq (E @ r) = of_nat (length body)" for r
    using l(1) by (simp add: openssh_len_def E_def openssh_length_def xor_bytes_involution)
  moreover have "unat (of_nat (length body) :: u32) = length body"
    using assms(3) lb by (intro unat_u32_small) (simp add: PACKET_LIMIT_def)
  ultimately have ol: "unat (openssh_len key seq ((E @ C @ T) @ rest)) = length body" by simp
  have hd: "unat (hd body) = pad" "body \<noteq> []" "tl body = x @ replicate pad 0"
    using assms(4) by (simp_all add: body_def packet_body_def unsigned_of_nat take_bit_nat_eq_self)
  have "openssh_body key ?n C = body" by (simp add: C_def openssh_body_involution)
  then show ?thesis
    unfolding body_def [symmetric] openssh_parse_def pk Let_def ol
    using l lb hd assms by (simp add: pk)
qed

lemma plain_parse_packet:
  assumes "x \<noteq> []" and "1 + length x + pad \<le> PACKET_LIMIT" and "pad < 256"
  shows "plain_parse (plain_packet (packet_body pad x) @ rest) = Inr (Some (x, rest))"
proof -
  define body where "body = packet_body pad x"
  have lb: "length body = 1 + length x + pad" by (simp add: body_def packet_body_def)
  have u: "unat (of_nat (length body) :: u32) = length body"
    using assms(2) lb by (intro unat_u32_small) (simp add: PACKET_LIMIT_def)
  have hd: "unat (hd body) = pad" "body \<noteq> []" "tl body = x @ replicate pad 0"
    using assms(3) by (simp_all add: body_def packet_body_def unsigned_of_nat take_bit_nat_eq_self)
  show ?thesis
    unfolding body_def [symmetric] plain_parse_def plain_packet_def Let_def
    using lb hd assms u by simp
qed

section \<open>packet_get on a stream\<close>

definition net_parse :: "'a net_scheme \<Rightarrow> bytes \<Rightarrow> (bytes \<times> bytes) option res" where
  "net_parse w d = (if flagkeys w then openssh_parse (clientkey w) (receivepacketid w) d else plain_parse d)"

definition recv_ready :: "'a net_scheme \<Rightarrow> bytes \<Rightarrow> bytes \<Rightarrow> bool" where
  "recv_ready w d slack \<longleftrightarrow> recv_holds (recvbuf w) d slack \<and>
     (flagkeys w \<longrightarrow> cipher_ready (crypt w) \<and> length (clientkey w) = 128 \<and> len_cached w d)"

lemma net_framing: "framing (net_parse w) 4116"
proof (cases "flagkeys w")
  case True
  then have "net_parse w = openssh_parse (clientkey w) (receivepacketid w)" by (simp add: net_parse_def fun_eq_iff)
  then show ?thesis by (simp only: openssh.framing_axioms)
next
  case False
  then have "net_parse w = plain_parse" by (simp add: net_parse_def fun_eq_iff)
  then show ?thesis by (simp only: plain.framing_axioms)
qed

text \<open>What a successful read of the stream changes; in the encrypted mode also the cached length.\<close>

lemma packet_get_raw_refines:
  assumes "recv_ready w d slack" and "wf_buf b" and "40 \<le> length slack"
  shows "case net_parse w d of
      Inl e \<Rightarrow> packet_get_raw b w = Inl e
    | Inr None \<Rightarrow> (\<exists>l. packet_get_raw b w = Inr (b, w\<lparr>packet_length := l\<rparr>) \<and> recv_ready (w\<lparr>packet_length := l\<rparr>) d slack)
    | Inr (Some (x, rest)) \<Rightarrow>
        if blen b + int (length x) < balloc b
        then \<exists>rb slack' l. length slack' + length rest = length slack + length d \<and> balloc rb = balloc (recvbuf w) \<and>
          packet_get_raw b w = Inr (bapp b x, w\<lparr>recvbuf := rb, receivepacketid := receivepacketid w + 1, packet_length := l\<rparr>) \<and>
          recv_ready (w\<lparr>recvbuf := rb, receivepacketid := receivepacketid w + 1, packet_length := l\<rparr>) rest slack'
        else packet_get_raw b w = Inl Enomem"
proof (cases "flagkeys w")
  case True
  then have r: "cipher_ready (crypt w)" "length (clientkey w) = 128" "len_cached w d" "recv_holds (recvbuf w) d slack"
    using assms(1) by (simp_all add: recv_ready_def)
  have g: "packet_get_raw b w = chachapoly_packet_get b w"
    using True r(1) by (auto simp: packet_get_raw_def cipher_ready_def)
  have p: "net_parse w d = openssh_parse (clientkey w) (receivepacketid w) d" using True by (simp add: net_parse_def)
  note main = chachapoly_packet_get_refines [OF r(1,2) assms(2) r(4,3) assms(3)]
  show ?thesis
  proof (cases "openssh_parse (clientkey w) (receivepacketid w) d")
    case (Inl e)
    then show ?thesis unfolding p g using main by simp
  next
    case (Inr m)
    show ?thesis
    proof (cases m)
      case None
      then show ?thesis unfolding p g using main r True Inr by (auto simp: recv_ready_def)
    next
      case (Some y)
      obtain x rest where y: "m = Some (x, rest)" using Some by (cases y) simp
      show ?thesis
      proof (cases "blen b + int (length x) < balloc b")
        case fit: True
        then obtain rb slack' where "length slack' + length rest = length slack + length d" "recv_holds rb rest slack'"
          "balloc rb = balloc (recvbuf w)"
          "chachapoly_packet_get b w = Inr (bapp b x, w\<lparr>recvbuf := rb, receivepacketid := receivepacketid w + 1, packet_length := 0\<rparr>)"
          using main Inr y by auto
        then show ?thesis unfolding p g using r True Inr y fit
          by (auto simp: recv_ready_def len_cached_def intro!: exI [of _ rb] exI [of _ slack'] exI [of _ 0])
      next
        case False
        then show ?thesis unfolding p g using main Inr y by simp
      qed
    qed
  qed
next
  case False
  then have r: "recv_holds (recvbuf w) d slack" using assms(1) by (simp add: recv_ready_def)
  have g: "packet_get_raw b w = packet_get_plain b w" using False by (simp add: packet_get_raw_def)
  have p: "net_parse w d = plain_parse d" using False by (simp add: net_parse_def)
  have "8 \<le> length slack" using assms(3) by simp
  note main = packet_get_plain_refines [OF assms(2) r this]
  show ?thesis
  proof (cases "plain_parse d")
    case (Inl e)
    then show ?thesis unfolding p g using main by simp
  next
    case (Inr m)
    show ?thesis
    proof (cases m)
      case None
      then have "packet_get_plain b w = Inr (b, w\<lparr>packet_length := packet_length w\<rparr>)" using main Inr by simp
      then show ?thesis unfolding p g using Inr None r False
        by (auto simp: recv_ready_def intro!: exI [of _ "packet_length w"])
    next
      case (Some y)
      obtain x rest where y: "m = Some (x, rest)" using Some by (cases y) simp
      show ?thesis
      proof (cases "blen b + int (length x) < balloc b")
        case fit: True
        then obtain rb slack' where "length slack' + length rest = length slack + length d" "recv_holds rb rest slack'"
          "balloc rb = balloc (recvbuf w)"
          "packet_get_plain b w = Inr (bapp b x, w\<lparr>recvbuf := rb, receivepacketid := receivepacketid w + 1, packet_length := packet_length w\<rparr>)"
          using main Inr y by auto
        then show ?thesis unfolding p g using r False Inr y fit
          by (auto simp: recv_ready_def intro!: exI [of _ rb] exI [of _ slack'] exI [of _ "packet_length w"])
      next
        case False
        then show ?thesis unfolding p g using main Inr y by simp
      qed
    qed
  qed
qed

section \<open>packet_getall delivers\<close>

lemma packet_recv_stream:
  assumes "recv_ready w d slack" and "balloc (recvbuf w) = 17265" and "64 + length d + length slack = 17265"
    and "length d \<le> 8192" and "rxs w = Rx p # es" and "p \<noteq> []"
  shows "\<exists>rb slack'. packet_recv w = Inr (True, w\<lparr>rxs := rx_rest (drop 4300 p) es, recvbuf := rb\<rparr>) \<and>
    recv_ready (w\<lparr>rxs := rx_rest (drop 4300 p) es, recvbuf := rb\<rparr>) (d @ take 4300 p) slack' \<and>
    balloc rb = 17265 \<and> 64 + length (d @ take 4300 p) + length slack' = 17265"
proof -
  let ?r = "take 4300 p" and ?rb = "recvbuf w"
  obtain z where z: "length z = 64" "bmem ?rb = z @ d @ slack" "blen ?rb = int (64 + length d)"
    using assms(1) by (auto simp: recv_ready_def recv_holds_def)
  define slack' where "slack' = drop (length ?r) slack"
  define rb where "rb = ?rb\<lparr>bmem := z @ d @ ?r @ slack', blen := blen ?rb + int (length ?r)\<rparr>"
  have r: "length ?r \<le> 4300" "length ?r \<le> length slack" using assms(3,4) by auto
  have bad: "\<not> buf_bad ?rb" using z assms(2,4) by (auto simp: buf_bad_def)
  have sl: "slack = take (length ?r) slack @ slack'" unfolding slack'_def by (metis append_take_drop_id)
  have "wr (bmem ?rb) (blen ?rb) ?r = Inr (z @ d @ ?r @ slack')"
    using wr_mid [of "blen ?rb" "z @ d" ?r "take (length ?r) slack" slack'] r z sl by (simp add: nat_int_add)
  then have "packet_recv_read w = Inr (True, w\<lparr>rxs := rx_rest (drop 4300 p) es, recvbuf := rb\<rparr>)"
    unfolding packet_recv_read_def assms(5) using assms(6) by (simp add: PACKET_FULLLIMIT_def Let_def rb_def)
  moreover have "packet_recvisready w = Inr True"
    unfolding packet_recvisready_def buf_ready_def using bad z(3) assms(2,4) by (simp add: PACKET_FULLLIMIT_def)
  moreover have "\<not> blen ?rb < PACKET_ZEROBYTES" using z(3) by (simp add: PACKET_ZEROBYTES_def)
  ultimately have 1: "packet_recv w = Inr (True, w\<lparr>rxs := rx_rest (drop 4300 p) es, recvbuf := rb\<rparr>)"
    by (simp add: packet_recv_def)
  have "recv_holds rb (d @ ?r) slack'" using z by (auto simp: recv_holds_def rb_def)
  then have 2: "recv_ready (w\<lparr>rxs := rx_rest (drop 4300 p) es, recvbuf := rb\<rparr>) (d @ ?r) slack'"
    using assms(1) by (auto simp: recv_ready_def len_cached_def openssh_len_append)
  have "64 + length (d @ ?r) + length slack' = 17265" using assms(3) r by (simp add: slack'_def)
  then show ?thesis using 1 2 assms(2) by (auto simp: rb_def intro!: exI [of _ rb] exI [of _ slack'])
qed

text \<open>A message that \<open>packet_get\<close> hands to its caller who waits for type \<open>t\<close>.\<close>

definition passes :: "'a net_scheme \<Rightarrow> u8 \<Rightarrow> bytes \<Rightarrow> bool" where
  "passes w t x \<longleftrightarrow> x \<noteq> [] \<and> hd x \<notin> {SSH_MSG_DISCONNECT, SSH_MSG_IGNORE, SSH_MSG_DEBUG} \<and> (t = 0 \<or> t = hd x) \<and>
     (flagauthorized w \<or> unat (receivepacketid w + 1) \<le> PACKET_UNAUTHENTICATED_MESSAGES)"

lemma bdata_hd:
  assumes "wf_buf b" and "bdata b = x" and "x \<noteq> []"
  shows "rd1 (bmem b) 0 = Inr (hd x)" "0 < blen b"
proof -
  have l: "int (length x) = blen b" using bdata_length [OF assms(1)] assms(2) by simp
  then show "0 < blen b" using assms(3) by (cases x) auto
  have "bmem b \<noteq> []" using wf_bufD [OF assms(1)] by blast
  moreover have "hd x = bmem b ! 0"
    using assms(2,3) \<open>0 < blen b\<close> by (auto simp: bdata_def hd_conv_nth)
  ultimately show "rd1 (bmem b) 0 = Inr (hd x)" by (simp add: rd1_in)
qed

lemma packet_get_stream:
  assumes "recv_ready w d slack" and "wf_buf b" and "40 \<le> length slack"
  shows "net_parse w d = Inr None \<Longrightarrow> \<exists>b' l. packet_get b t w = Inr (True, b', w\<lparr>packet_length := l\<rparr>) \<and> wf_buf b' \<and>
      blen b' = 0 \<and> balloc b' = balloc b \<and> recv_ready (w\<lparr>packet_length := l\<rparr>) d slack"
    and "net_parse w d = Inr (Some (x, rest)) \<Longrightarrow> passes w t x \<Longrightarrow> int (length x) < balloc b \<Longrightarrow>
      \<exists>b' rb slack' l. packet_get b t w =
        Inr (True, b', w\<lparr>recvbuf := rb, receivepacketid := receivepacketid w + 1, packet_length := l\<rparr>) \<and> wf_buf b' \<and>
        bdata b' = x \<and> 0 < blen b' \<and> balloc rb = balloc (recvbuf w) \<and>
        recv_ready (w\<lparr>recvbuf := rb, receivepacketid := receivepacketid w + 1, packet_length := l\<rparr>) rest slack'"
proof -
  obtain b0 where b0: "buf_purge b = Inr b0" "wf_buf b0" "bdata b0 = []" "balloc b0 = balloc b" "blen b0 = 0"
    using buf_purge_wf [OF assms(2)] buf_purge_eq [OF assms(2)] by simp
  note raw = packet_get_raw_refines [OF assms(1) b0(2) assms(3)]
  show "\<exists>b' l. packet_get b t w = Inr (True, b', w\<lparr>packet_length := l\<rparr>) \<and> wf_buf b' \<and>
      blen b' = 0 \<and> balloc b' = balloc b \<and> recv_ready (w\<lparr>packet_length := l\<rparr>) d slack" if "net_parse w d = Inr None"
    using raw that b0 by (auto simp: packet_get_def)
  assume p: "net_parse w d = Inr (Some (x, rest))" "passes w t x" "int (length x) < balloc b"
  then obtain rb slack' l where r: "balloc rb = balloc (recvbuf w)"
    "packet_get_raw b0 w = Inr (bapp b0 x, w\<lparr>recvbuf := rb, receivepacketid := receivepacketid w + 1, packet_length := l\<rparr>)"
    "recv_ready (w\<lparr>recvbuf := rb, receivepacketid := receivepacketid w + 1, packet_length := l\<rparr>) rest slack'"
    using raw b0 by auto
  have wf: "wf_buf (bapp b0 x)" "bdata (bapp b0 x) = x"
    using wf_bapp [OF b0(2)] bdata_bapp [OF b0(2), of x] b0 p(3) by simp_all
  have x: "x \<noteq> []" using p(2) by (simp add: passes_def)
  note h = bdata_hd [OF wf x]
  have "packet_get b t w =
      Inr (True, bapp b0 x, w\<lparr>recvbuf := rb, receivepacketid := receivepacketid w + 1, packet_length := l\<rparr>)"
    unfolding packet_get_def b0(1) bindr_Inr r(2) prod.case using h p(2) by (auto simp: passes_def)
  then show "\<exists>b' rb slack' l. packet_get b t w =
        Inr (True, b', w\<lparr>recvbuf := rb, receivepacketid := receivepacketid w + 1, packet_length := l\<rparr>) \<and> wf_buf b' \<and>
        bdata b' = x \<and> 0 < blen b' \<and> balloc rb = balloc (recvbuf w) \<and>
        recv_ready (w\<lparr>recvbuf := rb, receivepacketid := receivepacketid w + 1, packet_length := l\<rparr>) rest slack'"
    using r wf h(2) by blast
qed

lemma net_parse_update [simp]:
  "net_parse (w\<lparr>packet_length := l\<rparr>) = net_parse w"
  "net_parse (w\<lparr>rxs := es, recvbuf := rb\<rparr>) = net_parse w"
  by (simp_all add: net_parse_def fun_eq_iff)

lemma passes_update [simp]:
  "passes (w\<lparr>packet_length := l\<rparr>) = passes w"
  "passes (w\<lparr>rxs := es, recvbuf := rb\<rparr>) = passes w"
  by (simp_all add: passes_def fun_eq_iff)

definition stream_left :: "'a net_scheme \<Rightarrow> rxev list \<Rightarrow> bytes \<Rightarrow> bool" where
  "stream_left w es rest \<longleftrightarrow>
     (\<exists>d slack pieces. recv_ready w d slack \<and> rxs w = map Rx pieces @ es \<and> d @ concat pieces = rest)"

lemma getall_loop_delivers:
  assumes "recv_ready w d slack" and "wf_buf b" and "balloc (recvbuf w) = 17265" and "64 + length d + length slack = 17265"
    and "rxs w = map Rx pieces @ es" and "[] \<notin> set pieces" and "length (d @ concat pieces) \<le> 8192"
    and "net_parse w (d @ concat pieces) = Inr (Some (x, rest))" and "passes w t x" and "int (length x) < balloc b"
  shows "\<exists>b' w'. getall_loop b t w = Inr (True, b', w') \<and> bdata b' = x \<and> receivepacketid w' = receivepacketid w + 1 \<and>
    stream_left w' es rest"
  using assms
proof (induction "length (concat pieces)" arbitrary: w d slack b pieces rule: less_induct)
  case less
  have slack: "40 \<le> length slack" using less.prems(4,7) by simp
  note get = packet_get_stream [OF less.prems(1,2) slack, where t = t]
  note loop = getall_loop.simps [of b t w]
  show ?case
  proof (rule framing.prefix_cases [OF net_framing less.prems(8)], goal_cases)
    case 1
    obtain b1 l where g: "packet_get b t w = Inr (True, b1, w\<lparr>packet_length := l\<rparr>)" "wf_buf b1" "blen b1 = 0"
      "balloc b1 = balloc b" "recv_ready (w\<lparr>packet_length := l\<rparr>) d slack"
      using get(1) [OF 1(1)] by blast
    let ?w1 = "w\<lparr>packet_length := l\<rparr>"
    obtain p ps where ps: "pieces = p # ps" "p \<noteq> []" using 1(2) less.prems(6) by (cases pieces) auto
    have rx: "rxs ?w1 = Rx p # (map Rx ps @ es)" using less.prems(5) ps by simp
    obtain rb slack' where r: "packet_recv ?w1 = Inr (True, ?w1\<lparr>rxs := rx_rest (drop 4300 p) (map Rx ps @ es), recvbuf := rb\<rparr>)"
      "recv_ready (?w1\<lparr>rxs := rx_rest (drop 4300 p) (map Rx ps @ es), recvbuf := rb\<rparr>) (d @ take 4300 p) slack'"
      "balloc rb = 17265" "64 + length (d @ take 4300 p) + length slack' = 17265"
      using packet_recv_stream [OF g(5) _ less.prems(4) _ rx ps(2)] less.prems(3,7) by auto
    define w2 where "w2 = ?w1\<lparr>rxs := rx_rest (drop 4300 p) (map Rx ps @ es), recvbuf := rb\<rparr>"
    define qs where "qs = (if drop 4300 p = [] then ps else drop 4300 p # ps)"
    have qs: "rx_rest (drop 4300 p) (map Rx ps @ es) = map Rx qs @ es" by (simp add: rx_rest_def qs_def)
    have cq: "concat qs = drop 4300 p @ concat ps" by (simp add: qs_def)
    have all: "(d @ take 4300 p) @ concat qs = d @ concat pieces" by (simp add: cq ps(1))
    have shorter: "length (concat qs) < length (concat pieces)" using ps by (simp add: cq)
    have "rxs w2 \<noteq> rxs ?w1"
    proof
      assume "rxs w2 = rxs ?w1"
      then have "map Rx qs @ es = map Rx pieces @ es" using rx qs ps(1) by (simp add: w2_def)
      then have "map Rx qs = map Rx pieces" by simp
      then have "qs = pieces" by (rule map_injective) (simp add: inj_def)
      then show False using shorter by simp
    qed
    then have step: "getall_loop b t w = getall_loop b1 t w2"
      unfolding loop g(1) using g(3) r(1) by (simp add: w2_def)
    have "\<exists>b' w'. getall_loop b1 t w2 = Inr (True, b', w') \<and> bdata b' = x \<and> receivepacketid w' = receivepacketid w2 + 1 \<and>
      stream_left w' es rest"
    proof (rule less.hyps [OF shorter])
      show "recv_ready w2 (d @ take 4300 p) slack'" using r(2) by (simp only: w2_def)
      show "rxs w2 = map Rx qs @ es" by (simp add: w2_def qs)
      show "[] \<notin> set qs" using less.prems(6) by (simp add: qs_def ps(1))
      show "length ((d @ take 4300 p) @ concat qs) \<le> 8192" unfolding all by (rule less.prems(7))
      show "net_parse w2 ((d @ take 4300 p) @ concat qs) = Inr (Some (x, rest))"
        unfolding all using less.prems(8) by (simp add: w2_def)
      show "passes w2 t x" using less.prems(9) by (simp add: w2_def)
    qed (use r(3,4) g(2,4) less.prems(10) in \<open>simp_all add: w2_def\<close>)
    then show ?case unfolding step by (simp add: w2_def)
  next
    case (2 r)
    then obtain b1 rb slack' l where g: "packet_get b t w =
        Inr (True, b1, w\<lparr>recvbuf := rb, receivepacketid := receivepacketid w + 1, packet_length := l\<rparr>)"
      "bdata b1 = x" "0 < blen b1" "recv_ready (w\<lparr>recvbuf := rb, receivepacketid := receivepacketid w + 1, packet_length := l\<rparr>) r slack'"
      using get(2) less.prems(9,10) by blast
    have "getall_loop b t w = Inr (True, b1, w\<lparr>recvbuf := rb, receivepacketid := receivepacketid w + 1, packet_length := l\<rparr>)"
      unfolding loop g(1) using g(3) by simp
    moreover have "stream_left (w\<lparr>recvbuf := rb, receivepacketid := receivepacketid w + 1, packet_length := l\<rparr>) es rest"
      unfolding stream_left_def using g(4) less.prems(5) 2(2) by auto
    ultimately show ?case using g(2) by auto
  qed
qed

section \<open>What a packet on the wire is\<close>

text \<open>The bytes \<open>packet_put\<close> appends for payload \<open>x\<close>; \<open>r\<close> is the random choice of the padding.\<close>

definition wire :: "'a net_scheme \<Rightarrow> nat \<Rightarrow> bytes \<Rightarrow> bytes" where
  "wire w r x =
     (if flagkeys w then openssh_packet (serverkey w) (sendpacketid w) (packet_body (padding_of r (length x)) x)
      else plain_packet (packet_body (16 - (5 + length x) mod 8) x))"

definition send_ready :: "'a net_scheme \<Rightarrow> bool" where
  "send_ready w \<longleftrightarrow> wf_buf (sendbuf w) \<and> (flagkeys w \<longrightarrow> cipher_ready (crypt w) \<and> length (serverkey w) = 128)"

lemma length_openssh_packet: "length (openssh_packet key seq body) = length body + 20"
  by (simp add: openssh_packet_def Let_def)

lemma length_packet_body: "length (packet_body pad x) = 1 + length x + pad"
  by (simp add: packet_body_def)

lemma randommod_value_le: "randommod_value w \<le> 1"
proof -
  obtain v w1 where rm: "randommod 2 w = (v, w1)" by fastforce
  from randommod_bounds [OF this] have "nat v \<le> 1" by linarith
  then show ?thesis by (simp add: randommod_value_def rm)
qed

lemma wire_length:
  assumes "r \<le> 1"
  shows "length (wire w r x) \<le> length x + 49" "(if flagkeys w then length (wire w r x) mod 8 = 4 else length (wire w r x) mod 8 = 0)"
proof -
  note p = padding_of_bounds [OF assms, of "length x"]
  have "4 + (1 + length x + (16 - (5 + length x) mod 8)) = 21 + length x - (5 + length x) mod 8"
    using mod_less_divisor [of 8 "5 + length x"] by linarith
  also have "\<dots> mod 8 = 0" by presburger
  finally have q: "(4 + (1 + length x + (16 - (5 + length x) mod 8))) mod 8 = 0" .
  have "(1 + length x + padding_of r (length x) + 20) mod 8 = 4" using p(3) by presburger
  then show "if flagkeys w then length (wire w r x) mod 8 = 4 else length (wire w r x) mod 8 = 0"
    using q by (simp add: wire_def length_openssh_packet length_packet_body plain_packet_def)
  show "length (wire w r x) \<le> length x + 49"
    using p(2) diff_le_self [of "20 + length x" "(5 + length x) mod 8"]
    by (simp add: wire_def length_openssh_packet length_packet_body plain_packet_def) linarith
qed

lemma packet_put_wire:
  assumes "send_ready w" and "buf_contents b"
  shows "if blen (sendbuf w) + (if flagkeys w then 60 else 0) + int (length (wire w (randommod_value w) (bdata b))) < balloc (sendbuf w)
    then \<exists>sb p. packet_put b w = Inr (w\<lparr>sendpacketid := sendpacketid w + 1, rndpos := p, sendbuf := sb\<rparr>) \<and>
      wf_buf sb \<and> bdata sb = bdata (sendbuf w) @ wire w (randommod_value w) (bdata b) \<and> balloc sb = balloc (sendbuf w) \<and>
      length (bmem sb) = length (bmem (sendbuf w))
    else packet_put b w = Inl Enomem"
proof (cases "flagkeys w")
  case True
  then have r: "cipher_ready (crypt w)" "wf_buf (sendbuf w)" "length (serverkey w) = 128"
    using assms(1) by (simp_all add: send_ready_def)
  have "packet_put b w = chachapoly_packet_put b w" using True r(1) by (auto simp: packet_put_def cipher_ready_def)
  then show ?thesis
    using chachapoly_packet_put_eq [OF r assms(2)] True by (simp add: Let_def wire_def split: if_splits)
next
  case False
  then have r: "wf_buf (sendbuf w)" using assms(1) by (simp add: send_ready_def)
  let ?x = "plain_packet (packet_body (16 - (5 + length (bdata b)) mod 8) (bdata b))"
  let ?sb = "bapp (sendbuf w) ?x"
  have put: "packet_put b w = bindr (bput (sendbuf w) ?x) (\<lambda>sb. Inr (w\<lparr>sendpacketid := sendpacketid w + 1, sendbuf := sb\<rparr>))"
    using False packet_put_plain_eq [OF r assms(2)] by (simp add: packet_put_def)
  show ?thesis
  proof (cases "blen (sendbuf w) + int (length ?x) < balloc (sendbuf w)")
    case True
    then have "packet_put b w = Inr (w\<lparr>sendpacketid := sendpacketid w + 1, rndpos := rndpos w, sendbuf := ?sb\<rparr>)"
      using put by (simp add: bput_def)
    then show ?thesis
      using True False wf_bapp [OF r True] bdata_bapp [OF r True] bapp_bmem_length [OF r True]
      by (auto simp: wire_def intro!: exI [of _ ?sb] exI [of _ "rndpos w"])
  next
    case F: False
    then show ?thesis using put False by (simp add: bput_def wire_def)
  qed
qed

section \<open>Properties\<close>

text \<open>A state as it is before \<open>packet_init\<close>, and one in the encrypted mode, for the examples.\<close>

definition net_start :: "rxev list \<Rightarrow> txev list \<Rightarrow> net" where
  "net_start rx tx = \<lparr>crypt = sshc_start, flagkeys = False, flagauthorized = False, flagrekeying = False,
     flageofsent = False, flagclosesent = False, flagchanneleofreceived = False, sendpacketid = 0, receivepacketid = 0,
     serverkey = [], clientkey = [], servermackey = [], clientmackey = [], servernonce = [], clientnonce = [],
     sessionid = [], pname = [], kex_packet_follows = 0, kex_guess = 0, hellosend = null_buf, helloreceive = null_buf,
     kexsend = null_buf, kexrecv = null_buf, hashbuf = null_buf, recvbuf = null_buf, sendbuf = null_buf,
     packet_length = 0, rxs = rx, txs = tx, sent = [], rnds = \<lambda>i. of_nat i, rndpos = 0, logstr = [0]\<rparr>"

definition empty_buf :: "nat \<Rightarrow> buf" where
  "empty_buf n = \<lparr>bmem = replicate n 0, blen = 0, balloc = int n\<rparr>"

definition net_enc :: net where
  "net_enc = (net_start [] [])\<lparr>crypt := sshc_start\<lparr>cipher_sel := Some (hd sshcrypto_ciphers)\<rparr>, flagkeys := True,
     serverkey := replicate 128 7, clientkey := replicate 128 7, sendbuf := empty_buf 17201\<rparr>"

lemma wf_empty_buf: "0 < n \<Longrightarrow> n \<le> 1073741824 \<Longrightarrow> wf_buf (empty_buf n)"
  by (simp add: wf_buf_def empty_buf_def)

lemma cipher_ready_start: "cipher_ready (sshc_start\<lparr>cipher_sel := Some (hd sshcrypto_ciphers)\<rparr>)"
  by (simp add: cipher_ready_def sshcrypto_ciphers_def)

definition payload_buf :: "bytes \<Rightarrow> buf" where
  "payload_buf x = \<lparr>bmem = x, blen = int (length x), balloc = int (length x) + 1\<rparr>"

lemma payload_buf: "length x \<le> 65536 \<Longrightarrow> buf_contents (payload_buf x)" "bdata (payload_buf x) = x"
  by (simp_all add: payload_buf_def buf_contents_def bdata_def)

text \<open>
  C13. \<open>packet_put\<close> appends exactly one packet to the send buffer, in the format of the mode the
  connection is in (RFC 4253 plain, or chacha20-poly1305@openssh.com under the server's key and
  sequence number), its length a multiple of the block size where the format asks for it, leaves the
  bytes before it, and counts it; if it does not fit, the process ends with \<open>ENOMEM\<close>.
\<close>

theorem packet_put_format:
  assumes "send_ready w" and "buf_contents b"
  shows "let p = wire w (randommod_value w) (bdata b)
    in length p \<le> length (bdata b) + 49 \<and> (if flagkeys w then length p mod 8 = 4 else length p mod 8 = 0) \<and>
       (if blen (sendbuf w) + (if flagkeys w then 60 else 0) + int (length p) < balloc (sendbuf w)
        then \<exists>sb i. packet_put b w = Inr (w\<lparr>sendpacketid := sendpacketid w + 1, rndpos := i, sendbuf := sb\<rparr>) \<and>
          wf_buf sb \<and> bdata sb = bdata (sendbuf w) @ p \<and> balloc sb = balloc (sendbuf w)
        else packet_put b w = Inl Enomem)"
proof -
  let ?p = "wire w (randommod_value w) (bdata b)"
  have "if blen (sendbuf w) + (if flagkeys w then 60 else 0) + int (length ?p) < balloc (sendbuf w)
        then \<exists>sb i. packet_put b w = Inr (w\<lparr>sendpacketid := sendpacketid w + 1, rndpos := i, sendbuf := sb\<rparr>) \<and>
          wf_buf sb \<and> bdata sb = bdata (sendbuf w) @ ?p \<and> balloc sb = balloc (sendbuf w)
        else packet_put b w = Inl Enomem"
    using packet_put_wire [OF assms] by (metis (no_types, lifting))
  then show ?thesis
    unfolding Let_def using wire_length [OF randommod_value_le, of w w "bdata b"] by (intro conjI) assumption+
qed

theorem packet_put_format_witness:
  "\<exists>sb i. packet_put (payload_buf [21]) net_enc = Inr (net_enc\<lparr>sendpacketid := 1, rndpos := i, sendbuf := sb\<rparr>) \<and>
     bdata sb = wire net_enc (randommod_value net_enc) [21]"
proof -
  have "send_ready net_enc"
    using cipher_ready_start wf_empty_buf [of 17201] by (simp add: send_ready_def net_enc_def net_start_def)
  moreover have "blen (sendbuf net_enc) = 0" "balloc (sendbuf net_enc) = 17201" "bdata (sendbuf net_enc) = []"
    "flagkeys net_enc" "sendpacketid net_enc = 0"
    by (simp_all add: net_enc_def net_start_def empty_buf_def bdata_def)
  ultimately obtain sb i where "packet_put (payload_buf [21]) net_enc = Inr (net_enc\<lparr>sendpacketid := 1, rndpos := i, sendbuf := sb\<rparr>)"
    "bdata sb = wire net_enc (randommod_value net_enc) [21]"
    using packet_put_format [of net_enc "payload_buf [21]"] payload_buf [of "[21]"] by (auto simp: Let_def)
  then show ?thesis by blast
qed


definition net_recv :: "bytes \<Rightarrow> nat \<Rightarrow> net" where
  "net_recv d n = net_enc\<lparr>recvbuf := \<lparr>bmem = replicate 64 0 @ d @ replicate n 0, blen = int (64 + length d), balloc = 17265\<rparr>\<rparr>"

lemma net_recv_ready: "recv_ready (net_recv d n) d (replicate n 0)"
  using cipher_ready_start by (auto simp: recv_ready_def recv_holds_def net_recv_def net_enc_def net_start_def len_cached_def)


text \<open>
  C11. What one end puts, the other end gets: if the peer has the same keys, the same sequence number
  and the same mode, the packet \<open>packet_put\<close> wrote for a payload of at most 4047 bytes is read back
  as exactly this payload, whatever follows it in the stream and whatever padding was chosen.
\<close>

theorem packet_roundtrip:
  assumes "send_ready w" and "buf_contents b" and "bdata b \<noteq> []" and "length (bdata b) \<le> 4047"
    and "packet_put b w = Inr w'"
    and "flagkeys peer = flagkeys w" and "clientkey peer = serverkey w" and "receivepacketid peer = sendpacketid w"
  shows "\<exists>p. bdata (sendbuf w') = bdata (sendbuf w) @ p \<and> (\<forall>rest. net_parse peer (p @ rest) = Inr (Some (bdata b, rest)))"
proof -
  let ?r = "randommod_value w"
  have "bdata (sendbuf w') = bdata (sendbuf w) @ wire w ?r (bdata b)"
    using packet_put_wire [OF assms(1,2)] assms(5) by (auto split: if_splits)
  moreover have "net_parse peer (wire w ?r (bdata b) @ rest) = Inr (Some (bdata b, rest))" for rest
  proof (cases "flagkeys w")
    case True
    have "1 + length (bdata b) + padding_of ?r (length (bdata b)) \<le> PACKET_LIMIT" "padding_of ?r (length (bdata b)) < 256"
      using padding_of_bounds(2) [OF randommod_value_le, of w "length (bdata b)"] assms(4) by (simp_all add: PACKET_LIMIT_def)
    then show ?thesis
      using True assms(1,3,6-8) openssh_parse_packet by (simp add: net_parse_def wire_def send_ready_def)
  next
    case False
    have "1 + length (bdata b) + (16 - (5 + length (bdata b)) mod 8) \<le> PACKET_LIMIT" "16 - (5 + length (bdata b)) mod 8 < 256"
      using assms(4) diff_le_self [of 16 "(5 + length (bdata b)) mod 8"] by (simp_all add: PACKET_LIMIT_def)
    then show ?thesis
      using False assms(3,6) plain_parse_packet by (simp add: net_parse_def wire_def)
  qed
  ultimately show ?thesis by blast
qed

definition net_plain :: net where
  "net_plain = (net_start [Rx [0, 0, 0, 12], Rx [10, 21], Rx [0, 0, 0, 0, 0, 0, 0, 0, 0, 0, 9]] [])\<lparr>sendbuf := empty_buf 17201,
     recvbuf := \<lparr>bmem = replicate 17265 0, blen = 64, balloc = 17265\<rparr>\<rparr>"

theorem packet_roundtrip_witness:
  "\<exists>w'. packet_put (payload_buf [21]) net_plain = Inr w' \<and>
     (\<exists>p. bdata (sendbuf w') = p \<and> net_parse net_plain (p @ [1, 2]) = Inr (Some ([21], [1, 2])))"
proof -
  have r: "send_ready net_plain" using wf_empty_buf [of 17201] by (simp add: send_ready_def net_plain_def net_start_def)
  have n: "\<not> flagkeys net_plain" "sendbuf net_plain = empty_buf 17201" "clientkey net_plain = serverkey net_plain"
    "receivepacketid net_plain = sendpacketid net_plain" by (simp_all add: net_plain_def net_start_def)
  have "length (wire net_plain 0 [21]) = 16" by (simp add: wire_def n plain_packet_def packet_body_def)
  moreover have "wire net_plain (randommod_value net_plain) [21] = wire net_plain 0 [21]" by (simp add: wire_def n)
  ultimately obtain w' where w': "packet_put (payload_buf [21]) net_plain = Inr w'"
    using packet_put_wire [OF r payload_buf(1) [of "[21]"]] n payload_buf(2) [of "[21]"]
    by (auto simp: empty_buf_def split: if_splits)
  have "bdata (sendbuf net_plain) = []" by (simp add: n empty_buf_def bdata_def)
  then show ?thesis
    using packet_roundtrip [OF r payload_buf(1) _ _ w', of net_plain] n w' payload_buf(2) [of "[21]"] by auto
qed

text \<open>
  C34. Taking a packet out of the receive buffer is right only if \<open>2 * x\<close> bytes (40 in the encrypted
  mode, 8 in the plain one) follow the received bytes inside the array: the copy and the purge run
  that far past \<open>recvbuf->len\<close>. With fewer it accesses memory behind the buffer.
\<close>

theorem drop_packet_bounds:
  assumes "recv_holds rb (p @ rest) slack" and "int (length p) = pl + x" and "0 \<le> pl" and "0 < x"
  shows "drop_packet (blen rb) pl x (bmem rb) =
    (if 2 * x \<le> int (length slack)
     then Inr (take 64 (bmem rb) @ rest @ take (nat (2 * x)) slack @ replicate (length p) 0 @ drop (nat (2 * x)) slack)
     else Inl Oob)"
proof -
  obtain z where z: "length z = 64" "bmem rb = z @ p @ rest @ slack" "blen rb = int (length z + length p + length rest)"
    using assms(1) by (auto simp: recv_holds_def)
  show ?thesis using drop_packet_eq [OF z(1) assms(2-4) z(3), of slack] z by simp
qed

theorem drop_packet_bounds_witness:
  "drop_packet 88 4 20 (replicate 64 0 @ replicate 24 1 @ replicate 39 2) = Inl Oob \<and>
   drop_packet 88 4 20 (replicate 64 0 @ replicate 24 1 @ replicate 40 2) =
     Inr (replicate 64 0 @ replicate 40 2 @ replicate 24 0)"
proof -
  let ?b = "\<lambda>n. \<lparr>bmem = replicate 64 0 @ (replicate 24 1 @ []) @ replicate n 2, blen = 88, balloc = 200\<rparr>"
  have h: "recv_holds (?b n) (replicate 24 1 @ []) (replicate n 2)" for n by (auto simp: recv_holds_def)
  show ?thesis
    using drop_packet_bounds [OF h [of 39], of 4 20] drop_packet_bounds [OF h [of 40], of 4 20] by simp
qed

text \<open>
  C12. \<open>packet_getall\<close> delivers: however the network cuts the stream into pieces, if the bytes in the
  buffer and in the coming pieces (at most 8192) begin with a message the caller waits for, the call
  returns with exactly this message, and the rest of the stream is still to be read.
\<close>

theorem packet_getall_delivers:
  assumes "recv_ready w d slack" and "wf_buf b" and "balloc (recvbuf w) = 17265" and "64 + length d + length slack = 17265"
    and "rxs w = map Rx pieces @ es" and "[] \<notin> set pieces" and "length (d @ concat pieces) \<le> 8192"
    and "net_parse w (d @ concat pieces) = Inr (Some (x, rest))" and "passes w t x" and "int (length x) < balloc b"
  shows "\<exists>b' w'. packet_getall b t w = Inr (True, b', w') \<and> bdata b' = x \<and> receivepacketid w' = receivepacketid w + 1 \<and>
    stream_left w' es rest"
proof -
  obtain b0 where b0: "buf_purge b = Inr b0" "wf_buf b0" "balloc b0 = balloc b"
    using buf_purge_wf [OF assms(2)] buf_purge_eq [OF assms(2)] by simp
  then show ?thesis
    using getall_loop_delivers [OF assms(1) b0(2) assms(3-9)] assms(10) by (simp add: packet_getall_def)
qed

theorem packet_getall_delivers_witness:
  "\<exists>b' w'. packet_getall (empty_buf 100) 21 net_plain = Inr (True, b', w') \<and> bdata b' = [21] \<and> stream_left w' [] [9]"
proof -
  have "recv_ready net_plain [] (replicate 17201 0)"
    by (simp add: recv_ready_def recv_holds_def net_plain_def net_start_def exI [of _ "replicate 64 0"] flip: replicate_add)
  moreover have "net_parse net_plain ([] @ concat [[0, 0, 0, 12], [10, 21], [0, 0, 0, 0, 0, 0, 0, 0, 0, 0, 9]]) = Inr (Some ([21], [9]))"
  proof -
    have "plain_parse [0, 0, 0, 12, 10, 21, 0, 0, 0, 0, 0, 0, 0, 0, 0, 0, 9] = Inr (Some ([21], [9]))" by code_simp
    then show ?thesis by (simp add: net_parse_def net_plain_def net_start_def)
  qed
  moreover have "passes net_plain 21 [21]"
    by (simp add: passes_def net_plain_def net_start_def PACKET_UNAUTHENTICATED_MESSAGES_def)
  ultimately show ?thesis
    using packet_getall_delivers [of net_plain "[]" "replicate 17201 0" "empty_buf 100"
        "[[0, 0, 0, 12], [10, 21], [0, 0, 0, 0, 0, 0, 0, 0, 0, 0, 9]]" "[]" "[21]" "[9]" 21] wf_empty_buf [of 100]
    by (auto simp: net_plain_def net_start_def empty_buf_def)
qed

end
