(* ===== verification/Packet_Frame.thy ===== *)
theory Packet_Frame
  imports Packet
begin

text \<open>
  What the packet operations leave alone: all of the state but the buffers and counters of the
  stream and the environment, including the fields later theories add.
\<close>

definition mask :: "'a net_scheme \<Rightarrow> 'a net_scheme" where
  "mask w = w\<lparr>sendpacketid := 0, receivepacketid := 0, recvbuf := null_buf, sendbuf := null_buf, packet_length := 0,
     rxs := [], txs := [], sent := [], rndpos := 0\<rparr>"

definition kept :: "'a net_scheme \<Rightarrow> 'a net_scheme \<Rightarrow> bool" where
  "kept w w' \<longleftrightarrow> mask w' = mask w"

lemma kept_refl [simp, intro]: "kept w w"
  by (simp add: kept_def)

lemma kept_trans [trans]: "kept w w' \<Longrightarrow> kept w' w'' \<Longrightarrow> kept w w''"
  by (simp add: kept_def)

lemma kept_update [simp]:
  "kept w (w'\<lparr>sendpacketid := sp\<rparr>) = kept w w'" "kept w (w'\<lparr>receivepacketid := rp\<rparr>) = kept w w'"
  "kept w (w'\<lparr>recvbuf := rb\<rparr>) = kept w w'" "kept w (w'\<lparr>sendbuf := sb\<rparr>) = kept w w'"
  "kept w (w'\<lparr>packet_length := pl\<rparr>) = kept w w'" "kept w (w'\<lparr>rxs := rx\<rparr>) = kept w w'"
  "kept w (w'\<lparr>txs := tx\<rparr>) = kept w w'" "kept w (w'\<lparr>sent := se\<rparr>) = kept w w'"
  "kept w (w'\<lparr>rndpos := rn\<rparr>) = kept w w'"
  by (simp_all add: kept_def mask_def)

lemma kept_update_left [simp]: "kept (w\<lparr>sendpacketid := sp\<rparr>) w' = kept w w'" "kept (w\<lparr>packet_length := pl\<rparr>) w' = kept w w'"
  by (simp_all add: kept_def mask_def)

lemma keptD:
  assumes "kept w w'"
  shows "crypt w' = crypt w" "flagkeys w' = flagkeys w" "flagauthorized w' = flagauthorized w" "flagrekeying w' = flagrekeying w"
    "flageofsent w' = flageofsent w" "flagclosesent w' = flagclosesent w" "flagchanneleofreceived w' = flagchanneleofreceived w"
    "serverkey w' = serverkey w" "clientkey w' = clientkey w" "sessionid w' = sessionid w" "pname w' = pname w"
    "kex_packet_follows w' = kex_packet_follows w" "kex_guess w' = kex_guess w" "hellosend w' = hellosend w"
    "helloreceive w' = helloreceive w" "kexsend w' = kexsend w" "kexrecv w' = kexrecv w" "hashbuf w' = hashbuf w"
    "rnds w' = rnds w" "logstr w' = logstr w" "net.more w' = net.more w"
proof -
  have m: "mask w' = mask w" using assms by (simp add: kept_def)
  show "crypt w' = crypt w" using arg_cong [OF m, of crypt] by (simp add: mask_def)
  show "flagkeys w' = flagkeys w" using arg_cong [OF m, of flagkeys] by (simp add: mask_def)
  show "flagauthorized w' = flagauthorized w" using arg_cong [OF m, of flagauthorized] by (simp add: mask_def)
  show "flagrekeying w' = flagrekeying w" using arg_cong [OF m, of flagrekeying] by (simp add: mask_def)
  show "flageofsent w' = flageofsent w" using arg_cong [OF m, of flageofsent] by (simp add: mask_def)
  show "flagclosesent w' = flagclosesent w" using arg_cong [OF m, of flagclosesent] by (simp add: mask_def)
  show "flagchanneleofreceived w' = flagchanneleofreceived w" using arg_cong [OF m, of flagchanneleofreceived] by (simp add: mask_def)
  show "serverkey w' = serverkey w" using arg_cong [OF m, of serverkey] by (simp add: mask_def)
  show "clientkey w' = clientkey w" using arg_cong [OF m, of clientkey] by (simp add: mask_def)
  show "sessionid w' = sessionid w" using arg_cong [OF m, of sessionid] by (simp add: mask_def)
  show "pname w' = pname w" using arg_cong [OF m, of pname] by (simp add: mask_def)
  show "kex_packet_follows w' = kex_packet_follows w" using arg_cong [OF m, of kex_packet_follows] by (simp add: mask_def)
  show "kex_guess w' = kex_guess w" using arg_cong [OF m, of kex_guess] by (simp add: mask_def)
  show "hellosend w' = hellosend w" using arg_cong [OF m, of hellosend] by (simp add: mask_def)
  show "helloreceive w' = helloreceive w" using arg_cong [OF m, of helloreceive] by (simp add: mask_def)
  show "kexsend w' = kexsend w" using arg_cong [OF m, of kexsend] by (simp add: mask_def)
  show "kexrecv w' = kexrecv w" using arg_cong [OF m, of kexrecv] by (simp add: mask_def)
  show "hashbuf w' = hashbuf w" using arg_cong [OF m, of hashbuf] by (simp add: mask_def)
  show "rnds w' = rnds w" using arg_cong [OF m, of rnds] by (simp add: mask_def)
  show "logstr w' = logstr w" using arg_cong [OF m, of logstr] by (simp add: mask_def)
  show "net.more w' = net.more w" using arg_cong [OF m, of net.more] by (simp add: mask_def)
qed

named_theorems kept_intros \<open>operations that keep everything but the stream\<close>

lemma kept_writeall [kept_intros]: "net_writeall b w = Inr (r, w') \<Longrightarrow> kept w w'"
  by (auto simp: net_writeall_def bindr_eq_Inr)

lemma kept_send [kept_intros]: "packet_send w = Inr (r, w') \<Longrightarrow> kept w w'"
  by (auto simp: packet_send_def bindr_eq_Inr Let_def split: if_splits list.splits txev.splits)

lemma kept_sendall [kept_intros]: "packet_sendall w = Inr (r, w') \<Longrightarrow> kept w w'"
  by (auto simp: packet_sendall_def bindr_eq_Inr dest!: kept_writeall split: if_splits)

lemma kept_recv_read: "packet_recv_read w = Inr (r, w') \<Longrightarrow> kept w w'"
  by (auto simp: packet_recv_read_def bindr_eq_Inr Let_def split: if_splits list.splits rxev.splits)

lemma kept_recv [kept_intros]: "packet_recv w = Inr (r, w') \<Longrightarrow> kept w w'"
  by (auto simp: packet_recv_def bindr_eq_Inr kept_def mask_def dest!: kept_recv_read split: if_splits)

lemma kept_randommod: "randommod n w = (r, w') \<Longrightarrow> kept w w'"
  by (auto simp: randommod_def randombytes_def split: if_splits)

lemma kept_put [kept_intros]: "packet_put b w = Inr w' \<Longrightarrow> kept w w'"
proof -
  have "kept w w'" if "chachapoly_packet_put b w = Inr w'"
  proof -
    obtain v w1 where r: "randommod 2 (w\<lparr>sendpacketid := sendpacketid w + 1\<rparr>) = (v, w1)" by fastforce
    then have "kept w w1" using kept_randommod [OF r] by simp
    then show ?thesis using that by (auto simp: chachapoly_packet_put_def bindr_eq_Inr Let_def r)
  qed
  moreover have "kept w w'" if "packet_put_plain b w = Inr w'"
    using that by (auto simp: packet_put_plain_def bindr_eq_Inr Let_def)
  moreover assume "packet_put b w = Inr w'"
  ultimately show ?thesis by (auto simp: packet_put_def split: if_splits option.splits cipher_fn.splits)
qed

lemma kept_chachapoly_get: "chachapoly_packet_get b w = Inr (b', w') \<Longrightarrow> kept w w'"
  by (auto simp: chachapoly_packet_get_def bindr_eq_Inr Let_def dest!: chachapoly_packet_length_only split: if_splits)

lemma kept_get_plain: "packet_get_plain b w = Inr (b', w') \<Longrightarrow> kept w w'"
  by (auto simp: packet_get_plain_def bindr_eq_Inr Let_def split: if_splits)

lemma kept_get [kept_intros]: "packet_get b x w = Inr (r, b', w') \<Longrightarrow> kept w w'"
  by (auto simp: packet_get_def packet_get_raw_def bindr_eq_Inr dest!: kept_chachapoly_get kept_get_plain
      split: if_splits option.splits cipher_fn.splits)

text \<open>The loop of \<open>packet_getall\<close>: what every step keeps, the loop keeps.\<close>

lemma getall_loop_rule:
  assumes get: "\<And>b w r b' w'. packet_get b x w = Inr (r, b', w') \<Longrightarrow> I b w \<Longrightarrow> I b' w'"
    and recv: "\<And>b w r w'. packet_recv w = Inr (r, w') \<Longrightarrow> I b w \<Longrightarrow> I b w'"
    and run: "getall_loop b x w = Inr (r, b', w')" and start: "I b w"
  shows "I b' w' \<and> (r \<longrightarrow> (\<exists>b1 w1. packet_get b1 x w1 = Inr (True, b', w') \<and> 0 < blen b'))"
proof -
  have "getall_loop b y w = Inr (r, b', w') \<Longrightarrow> y = x \<Longrightarrow> I b w \<Longrightarrow>
      I b' w' \<and> (r \<longrightarrow> (\<exists>b1 w1. packet_get b1 x w1 = Inr (True, b', w') \<and> 0 < blen b'))" for y
  proof (induction b y w rule: getall_loop.induct)
    case (1 b y w)
    have "\<exists>p. packet_get b y w = Inr p"
      using 1(3) unfolding getall_loop.simps [of b y w] bindr_eq_Inr [of "packet_get b y w"] by blast
    then obtain r1 b1 w1 where g: "packet_get b y w = Inr (r1, b1, w1)" by (metis prod_cases3)
    have i1: "I b1 w1" using get g 1(4,5) by simp
    note step = 1(3) [unfolded getall_loop.simps [of b y w] g bindr_Inr prod.case]
    show ?case
    proof (cases "\<not> r1 \<or> blen b1 > 0")
      case True
      then show ?thesis using step i1 g 1(4) by (auto split: if_splits)
    next
      case more: False
      show ?thesis
      proof (cases "blen (recvbuf w) \<noteq> blen (recvbuf w1)")
        case True
        then show ?thesis using step more 1(1) [OF g refl refl] i1 1(4) by auto
      next
        case False
        then obtain r2 w2 where rc: "packet_recv w1 = Inr (r2, w2)" using step more by (auto simp: bindr_eq_Inr)
        have i2: "I b1 w2" using recv rc i1 by blast
        show ?thesis
        proof (cases "\<not> r2 \<or> rxs w2 = rxs w1")
          case True
          then show ?thesis using step more False rc i2 by (auto split: if_splits)
        next
          case F2: False
          then show ?thesis using step more False rc 1(2) [OF g refl refl _ _ _ rc refl] i2 1(4) by auto
        qed
      qed
    qed
  qed
  then show ?thesis using run start by blast
qed

lemma kept_getall_loop: "getall_loop b x w = Inr (r, b', w') \<Longrightarrow> kept w w'"
  using getall_loop_rule [of x "\<lambda>b w'. kept w w'" b w r b' w'] kept_get kept_recv kept_trans by blast

lemma kept_getall [kept_intros]: "packet_getall b x w = Inr (r, b', w') \<Longrightarrow> kept w w'"
  by (auto simp: packet_getall_def bindr_eq_Inr dest: kept_getall_loop)

section \<open>What a successful buffer operation did\<close>

text \<open>These need no invariant: success itself shows that the accesses were inside the arrays.\<close>

lemma buf_put_Inr:
  assumes "buf_put b x n = Inr b'"
  shows "0 \<le> n" "n \<le> int (length x)" "bdata b' = bdata b @ take (nat n) x" "blen b' = blen b + n" "balloc b' = balloc b"
    "length (bmem b') = length (bmem b)" "0 \<le> blen b" "blen b + n < balloc b" "bmem b' \<noteq> []"
proof -
  from assms obtain m where m: "\<not> buf_bad b" "0 \<le> n" "blen b + n < balloc b" "byte_copy (bmem b) (blen b) n x 0 = Inr m"
    "b' = b\<lparr>bmem := m, blen := blen b + n\<rparr>"
    by (auto simp: buf_put_def bindr_eq_Inr not_less split: if_splits)
  have b0: "0 \<le> blen b" using m(1) by (auto simp: buf_bad_def not_less)
  have ins: "n = 0 \<or> blen b + n \<le> int (length (bmem b)) \<and> n \<le> int (length x)"
    using m(2,4) b0 by (auto simp: byte_copy_def dest!: byte_copy_loop_Inr split: if_splits)
  then have nx: "n \<le> int (length x)" by auto
  have d: "take (nat (blen b + n)) m = take (nat (blen b)) (bmem b) @ take (nat n) x"
  proof (cases "n = 0")
    case True
    then show ?thesis using m(4) by (simp add: byte_copy_def)
  next
    case False
    then have i: "blen b + n \<le> int (length (bmem b))" "n \<le> int (length x)" using ins by auto
    then have "m = take (nat (blen b)) (bmem b) @ take (nat n) x @ drop (nat (blen b) + nat n) (bmem b)"
      using byte_copy_eq [of "blen b" 0 n "bmem b" x] m(2,4) b0 by simp
    then show ?thesis using i b0 m(2) by (simp add: nat_add_distrib)
  qed
  show "0 \<le> n" "n \<le> int (length x)" "0 \<le> blen b" "blen b + n < balloc b" using m(2,3) b0 nx by simp_all
  show "bdata b' = bdata b @ take (nat n) x" "blen b' = blen b + n" "balloc b' = balloc b"
    using d by (simp_all add: m(5) bdata_def)
  show "length (bmem b') = length (bmem b)" using byte_copy_length [OF m(4)] by (simp add: m(5))
  then show "bmem b' \<noteq> []" using m(1) by (auto simp: buf_bad_def)
qed

lemma buf_put_wf: "wf_buf b \<Longrightarrow> buf_put b x n = Inr b' \<Longrightarrow> wf_buf b' \<and> balloc b' = balloc b"
  using buf_put_Inr [of b x n b'] by (auto simp: wf_buf_def)

lemma buf_purge_Inr:
  assumes "buf_purge b = Inr b'"
  shows "bdata b' = []" "blen b' = 0" "balloc b' = balloc b" "length (bmem b') = length (bmem b)" "\<not> buf_bad b"
proof -
  from assms obtain m where m: "\<not> buf_bad b" "purge (bmem b) 0 (blen b) = Inr m" "b' = b\<lparr>bmem := m, blen := 0\<rparr>"
    by (auto simp: buf_purge_def bindr_eq_Inr split: if_splits)
  show "bdata b' = []" "blen b' = 0" "balloc b' = balloc b" "\<not> buf_bad b" using m(1) by (simp_all add: m(3) bdata_def)
  show "length (bmem b') = length (bmem b)"
    using byte_zero_length [OF m(2) [unfolded purge_byte_zero]] by (simp add: m(3))
qed

text \<open>The buffer a message is received into stays well formed.\<close>

lemma chachapoly_get_buf: "chachapoly_packet_get b w = Inr (b', w') \<Longrightarrow> b' = b \<or> (\<exists>x n. buf_put b x n = Inr b')"
  by (auto simp: chachapoly_packet_get_def bindr_eq_Inr Let_def split: if_splits)

lemma plain_get_buf: "packet_get_plain b w = Inr (b', w') \<Longrightarrow> b' = b \<or> (\<exists>x n. buf_put b x n = Inr b')"
  by (auto simp: packet_get_plain_def bindr_eq_Inr Let_def split: if_splits)

lemma packet_get_raw_wf:
  assumes "packet_get_raw b w = Inr (b', w')" and "wf_buf b"
  shows "wf_buf b' \<and> balloc b' = balloc b"
proof -
  have "b' = b \<or> (\<exists>x n. buf_put b x n = Inr b')"
    using assms(1) chachapoly_get_buf [of b w b' w'] plain_get_buf [of b w b' w']
    by (simp add: packet_get_raw_def split: if_splits option.splits cipher_fn.splits)
  then show ?thesis using buf_put_wf [OF assms(2)] assms(2) by blast
qed

lemma packet_get_wf: "packet_get b x w = Inr (r, b', w') \<Longrightarrow> wf_buf b \<Longrightarrow> wf_buf b' \<and> balloc b' = balloc b"
proof -
  assume g: "packet_get b x w = Inr (r, b', w')" and wf: "wf_buf b"
  then obtain b0 b1 w1 where b: "buf_purge b = Inr b0" "packet_get_raw b0 w = Inr (b1, w1)"
    by (auto simp: packet_get_def bindr_eq_Inr)
  have "wf_buf b1 \<and> balloc b1 = balloc b"
    using packet_get_raw_wf [OF b(2)] buf_purge_wf [OF wf b(1)] by simp
  then show ?thesis
    using g b buf_purge_wf [of b1] by (auto simp: packet_get_def bindr_eq_Inr split: if_splits)
qed

lemma packet_getall_wf:
  assumes "packet_getall b x w = Inr (r, b', w')" and "wf_buf b"
  shows "wf_buf b'" "balloc b' = balloc b" "r \<Longrightarrow> 0 < blen b'"
proof -
  obtain b0 where b0: "buf_purge b = Inr b0" "getall_loop b0 x w = Inr (r, b', w')"
    using assms(1) by (auto simp: packet_getall_def bindr_eq_Inr)
  have i: "wf_buf b0 \<and> balloc b0 = balloc b" using buf_purge_wf [OF assms(2) b0(1)] by simp
  have "(wf_buf b' \<and> balloc b' = balloc b) \<and> (r \<longrightarrow> (\<exists>b1 w1. packet_get b1 x w1 = Inr (True, b', w') \<and> 0 < blen b'))"
  proof (rule getall_loop_rule [where I = "\<lambda>b' w'. wf_buf b' \<and> balloc b' = balloc b", OF _ _ b0(2)], goal_cases)
    case (1 b1 w1 r1 b2 w2)
    then show ?case using packet_get_wf [OF 1(1)] by simp
  qed (use i in simp_all)
  then show "wf_buf b'" "balloc b' = balloc b" "r \<Longrightarrow> 0 < blen b'" by auto
qed

end
