(* ===== verification/Kex.thy ===== *)
theory Kex
  imports Packet_Stream Packet_Frame Sha256 Sha512
begin

text \<open>
  The key exchange: packet_kex.c, packet_kexdh.c, port_sign.c and port_load.c. The public-key
  primitives are function pointers of the algorithm tables; what they point to is the record
  \<open>prims\<close>. The flash storage (the NVS library of the board) is not part of the repository: the
  result of each of its calls is read from a script, its stored blobs are a map.
\<close>

section \<open>The primitives behind the function pointers\<close>

text \<open>
  \<open>p_enc\<close> is \<open>sshcrypto_enc\<close>: its result, the ciphertext, the shared secret and how many random bytes
  it used. \<open>p_sign m sk\<close> is the signed message, \<open>p_open\<close> the message if the signature is right.
\<close>

record prims =
  p_enc :: "kem_fn \<Rightarrow> (nat \<Rightarrow> u8) \<Rightarrow> bytes \<Rightarrow> int \<times> bytes \<times> bytes \<times> nat"
  p_keypair :: "(nat \<Rightarrow> u8) \<Rightarrow> int \<times> bytes \<times> bytes \<times> nat"
  p_sign :: "sign_fn \<Rightarrow> bytes \<Rightarrow> bytes \<Rightarrow> int \<times> bytes"
  p_open :: "sign_fn \<Rightarrow> bytes \<Rightarrow> bytes \<Rightarrow> bytes option"

definition fresh :: "'a net_scheme \<Rightarrow> nat \<Rightarrow> u8" where
  "fresh w = (\<lambda>i. rnds w (rndpos w + i))"

section \<open>The flash storage\<close>

datatype esp_err = ESP_OK | ESP_ERR_NVS_NO_FREE_PAGES | ESP_ERR_NVS_NEW_VERSION_FOUND | ESP_ERR_NVS_NOT_FOUND | ESP_FAIL

record host = net +
  nvs_initialized :: bool
  nvs_script :: "esp_err list"
  nvs_blobs :: "bytes \<Rightarrow> bytes option"
  nvs_strings :: "bytes \<Rightarrow> bytes option"

lemma more_host: "net.more w' = net.more w \<Longrightarrow> host.more w' = host.more w"
  by (cases w; cases w') simp

lemma more_strings: "net.more w' = net.more w \<Longrightarrow> nvs_strings w' = nvs_strings w"
  by (cases w; cases w') simp

text \<open>The next result; without a script every call succeeds.\<close>

definition nvs_call :: "'a host_scheme \<Rightarrow> esp_err \<times> 'a host_scheme" where
  "nvs_call w = (case nvs_script w of [] \<Rightarrow> (ESP_OK, w) | e # es \<Rightarrow> (e, w\<lparr>nvs_script := es\<rparr>))"

text \<open>A blob longer than the space offered is an error.\<close>

definition nvs_get_blob :: "bytes \<Rightarrow> int \<Rightarrow> 'a host_scheme \<Rightarrow> esp_err \<times> bytes \<times> 'a host_scheme" where
  "nvs_get_blob k sz w =
     (let (e, w) = nvs_call w in
      if e \<noteq> ESP_OK then (e, [], w)
      else case nvs_blobs w k of
             None \<Rightarrow> (ESP_ERR_NVS_NOT_FOUND, [], w)
           | Some v \<Rightarrow> if int (length v) > sz then (ESP_FAIL, [], w) else (ESP_OK, v, w))"

definition nvs_set_blob :: "bytes \<Rightarrow> bytes \<Rightarrow> 'a host_scheme \<Rightarrow> esp_err \<times> 'a host_scheme" where
  "nvs_set_blob k v w =
     (let (e, w) = nvs_call w in
      if e = ESP_OK then (e, w\<lparr>nvs_blobs := (nvs_blobs w)(k \<mapsto> v)\<rparr>) else (e, w))"

section \<open>port_load.c\<close>

definition init_nvs :: "'a host_scheme \<Rightarrow> bool \<times> 'a host_scheme" where
  "init_nvs w =
     (if nvs_initialized w then (True, w)
      else
        let (err, w) = nvs_call w;
            (err, w) = (if err = ESP_ERR_NVS_NO_FREE_PAGES \<or> err = ESP_ERR_NVS_NEW_VERSION_FOUND
                        then nvs_call (w\<lparr>nvs_blobs := Map.empty, nvs_strings := Map.empty\<rparr>) else (err, w))
        in if err = ESP_OK then (True, w\<lparr>nvs_initialized := True\<rparr>) else (False, w))"

text \<open>The key of the storage for a file name.\<close>

definition load_key :: "bytes \<Rightarrow> bytes option" where
  "load_key fn =
     (if fn = cstr ''ed25519.pk'' then Some (lit ''ed25519_pk'')
      else if fn = cstr ''.ed25519.sk'' then Some (lit ''ed25519_sk'') else None)"

text \<open>
  \<open>load(fn, x, xlen)\<close> returns \<open>xlen\<close> or -1 and what \<open>x\<close> holds then. Keys that are not there are made;
  that they cannot be stored is only logged.
\<close>

definition load_generate :: "prims \<Rightarrow> bytes \<Rightarrow> bytes \<Rightarrow> int \<Rightarrow> 'a host_scheme \<Rightarrow> (int \<times> bytes \<times> 'a host_scheme) res" where
  "load_generate p nk x xlen w =
     (let (r, pk, sk, n) = p_keypair p (fresh w); w = w\<lparr>rndpos := rndpos w + n\<rparr> in
      if r \<noteq> 0 then Inr (-1, x, w)
      else
        let (err_pk, w) = nvs_set_blob (lit ''ed25519_pk'') pk w;
            (err_sk, w) = nvs_set_blob (lit ''ed25519_sk'') sk w;
            w = (if err_pk = ESP_OK \<and> err_sk = ESP_OK then snd (nvs_call w) else w);
            v = (if nk = lit ''ed25519_pk'' then take (nat (min xlen 32)) pk else take (nat (min xlen 64)) sk)
        in bindr (wr x 0 v) (\<lambda>x. Inr (xlen, x, w)))"

definition load :: "prims \<Rightarrow> bytes \<Rightarrow> bytes \<Rightarrow> int \<Rightarrow> 'a host_scheme \<Rightarrow> (int \<times> bytes \<times> 'a host_scheme) res" where
  "load p fn x xlen w =
     (let (ok, w) = init_nvs w in
      if \<not> ok then Inr (-1, x, w)
      else
        let (err, w) = nvs_call w in
        if err \<noteq> ESP_OK then Inr (-1, x, w)
        else case load_key fn of
               None \<Rightarrow> Inr (-1, x, w)
             | Some nk \<Rightarrow>
                 let (err, v, w) = nvs_get_blob nk xlen w in
                 if err = ESP_ERR_NVS_NOT_FOUND then load_generate p nk x xlen w
                 else if err = ESP_OK then bindr (wr x 0 v) (\<lambda>x. Inr (xlen, x, w))
                 else Inr (-1, x, w))"

text \<open>There are no files and no descriptors: the stubs of the port.\<close>

definition open_cwd :: int where
  "open_cwd = 999"

definition open_pipe :: int where
  "open_pipe = -1"

definition open_read :: "bytes \<Rightarrow> int" where
  "open_read fn = -1"

definition open_write :: "bytes \<Rightarrow> int" where
  "open_write fn = -1"

section \<open>port_sign.c\<close>

text \<open>The selected algorithms; a null pointer has no fields.\<close>

definition sel_kex :: "'a net_scheme \<Rightarrow> kex res" where
  "sel_kex w = (case kex_sel (crypt w) of None \<Rightarrow> Inl Oob | Some k \<Rightarrow> Inr k)"

definition sel_key :: "'a net_scheme \<Rightarrow> (nat \<times> key) res" where
  "sel_key w = (case key_sel (crypt w) of None \<Rightarrow> Inl Oob | Some k \<Rightarrow> Inr k)"

text \<open>
  \<open>subprocess_sign(y, ylen, keydir, x, xlen)\<close> with arrays that are not null; the result is 0 or -1
  and the contents of \<open>y\<close>.
\<close>

definition subprocess_sign :: "prims \<Rightarrow> bytes \<Rightarrow> int \<Rightarrow> bytes \<Rightarrow> int \<Rightarrow> 'a host_scheme \<Rightarrow> (int \<times> bytes \<times> 'a host_scheme) res" where
  "subprocess_sign p y ylen x xlen w =
     bindr (sel_key w) (\<lambda>(_, k).
     bindr (sel_kex w) (\<lambda>kx.
     if ylen \<noteq> ky_bytes k then Inl Einval
     else if xlen \<noteq> kx_hashbytes kx then Inl Einval
     else if y = [] \<or> x = [] then Inl Einval
     else
       bindr (load p (ky_secretkeyfilename k) (replicate 64 0) (ky_secretkeybytes k) w) (\<lambda>(r, sk, w).
       if r = -1 then Inr (-1, y, w)
       else
         (case ky_sign k of
            None \<Rightarrow> Inl Oob
          | Some f \<Rightarrow>
              bindr (rd x 0 (kx_hashbytes kx)) (\<lambda>m.
              let (r, sm) = p_sign p f m sk in
              if r \<noteq> 0 then Inr (-1, y, w)
              else bindr (rd sm 0 ylen) (\<lambda>s. bindr (wr y 0 s) (\<lambda>y. Inr (0, y, w))))))))"

section \<open>packet_kex.c\<close>

definition putrandom :: "buf \<Rightarrow> nat \<Rightarrow> 'a net_scheme \<Rightarrow> (buf \<times> 'a net_scheme) res" where
  "putrandom b n w =
     (let (r, w) = randombytes n w in bindr (buf_putrandombytes (\<lambda>_. r) b (int n)) (\<lambda>b. Inr (b, w)))"

definition packet_kex_send :: "'a net_scheme \<Rightarrow> (bool \<times> 'a net_scheme) res" where
  "packet_kex_send w =
     bindr (buf_purge (kexsend w)) (\<lambda>b.
     bindr (buf_putnum8 b SSH_MSG_KEXINIT) (\<lambda>b.
     bindr (putrandom b 16 w) (\<lambda>(b, w).
     bindr (sshcrypto_kex_put (crypt w) b) (\<lambda>b.
     bindr (sshcrypto_key_put (crypt w) b) (\<lambda>b.
     bindr (sshcrypto_cipher_put (crypt w) b) (\<lambda>b.
     bindr (sshcrypto_cipher_put (crypt w) b) (\<lambda>b.
     bindr (sshcrypto_cipher_macput b) (\<lambda>b.
     bindr (sshcrypto_cipher_macput b) (\<lambda>b.
     bindr (buf_putstring b (cstr ''none'')) (\<lambda>b.
     bindr (buf_putstring b (cstr ''none'')) (\<lambda>b.
     bindr (buf_putstring b (cstr [])) (\<lambda>b.
     bindr (buf_putstring b (cstr [])) (\<lambda>b.
     bindr (buf_putnum8 b 0) (\<lambda>b.
     bindr (buf_putnum32 b 0) (\<lambda>b.
     bindr (packet_put b (w\<lparr>kexsend := b\<rparr>)) packet_sendall)))))))))))))))"

text \<open>\<open>pos = packetparser_uint32(.., &len); pos = packetparser_skip(.., len);\<close>\<close>

definition skip_string :: "buf \<Rightarrow> int \<Rightarrow> (int \<times> int) res" where
  "skip_string b pos =
     bindr (packetparser_uint32 (bmem b) (blen b) pos) (\<lambda>(pos, len).
     bindr (packetparser_skip (bmem b) (blen b) pos (uint len)) (\<lambda>pos. Inr (pos, uint len)))"

text \<open>The string itself: \<open>b->buf + pos - len\<close>.\<close>

definition string_at :: "buf \<Rightarrow> int \<Rightarrow> int \<Rightarrow> bytes" where
  "string_at b pos len = drop (nat (pos - len)) (bmem b)"

definition kex_rest :: "buf \<Rightarrow> int \<Rightarrow> 'a net_scheme \<Rightarrow> (bool \<times> 'a net_scheme) res" where
  "kex_rest b pos w =
     bindr (skip_string b pos) (\<lambda>(pos, len).
     bindr (skip_string b pos) (\<lambda>(pos, len).
     bindr (skip_string b pos) (\<lambda>(pos, len).
     bindr (skip_string b pos) (\<lambda>(pos, len).
     bindr (skip_string b pos) (\<lambda>(pos, len).
     bindr (packetparser_uint8 (bmem b) (blen b) pos) (\<lambda>(pos, ch).
     let w = w\<lparr>kex_packet_follows := ch\<rparr> in
     bindr (packetparser_uint32 (bmem b) (blen b) pos) (\<lambda>(pos, len).
     bindr (packetparser_end (bmem b) (blen b) pos) (\<lambda>_. Inr (True, w)))))))))"

definition kex_parse :: "buf \<Rightarrow> 'a net_scheme \<Rightarrow> (bool \<times> 'a net_scheme) res" where
  "kex_parse b w =
     bindr (packetparser_uint8 (bmem b) (blen b) 0) (\<lambda>(pos, ch).
     if ch \<noteq> SSH_MSG_KEXINIT then Inl Eproto
     else
     bindr (packetparser_skip (bmem b) (blen b) pos 16) (\<lambda>pos.
     bindr (skip_string b pos) (\<lambda>(pos, len).
     bindr (sshcrypto_kex_select (crypt w) (string_at b pos len) len (kex_guess w)) (\<lambda>(r, s, g).
     let w = w\<lparr>crypt := s, kex_guess := g\<rparr> in
     if \<not> r then Inr (False, w)
     else
     bindr (skip_string b pos) (\<lambda>(pos, len).
     bindr (sshcrypto_key_select (crypt w) (string_at b pos len) len) (\<lambda>(r, s).
     let w = w\<lparr>crypt := s\<rparr> in
     if \<not> r then Inr (False, w)
     else
     bindr (skip_string b pos) (\<lambda>(pos, len).
     bindr (sshcrypto_cipher_select (crypt w) (string_at b pos len) len) (\<lambda>(r, s).
     let w = w\<lparr>crypt := s\<rparr> in
     if \<not> r then Inr (False, w)
     else
     bindr (skip_string b pos) (\<lambda>(pos, len).
     bindr (skip_string b pos) (\<lambda>(pos, len).
     bindr (sshcrypto_cipher_macselect (string_at b pos len) len) (\<lambda>r.
     if \<not> r then Inr (False, w) else kex_rest b pos w)))))))))))"

definition packet_kex_receive :: "'a net_scheme \<Rightarrow> (bool \<times> 'a net_scheme) res" where
  "packet_kex_receive w =
     bindr (packet_getall (kexrecv w) SSH_MSG_KEXINIT w) (\<lambda>(r, b, w).
     let w = w\<lparr>kexrecv := b\<rparr> in
     if \<not> r then Inr (False, w) else kex_parse b w)"

section \<open>packet_kexdh.c\<close>

text \<open>The function pointers of the selected algorithms.\<close>

definition sshcrypto_hash :: "'a net_scheme \<Rightarrow> bytes \<Rightarrow> bytes \<Rightarrow> int \<Rightarrow> bytes res" where
  "sshcrypto_hash w out m len =
     bindr (sel_kex w) (\<lambda>k.
     bindr (rd m 0 len) (\<lambda>x.
     case kx_hash k of
       None \<Rightarrow> Inl Oob
     | Some Crypto_hash_sha256 \<Rightarrow> wr out 0 (crypto_hash_sha256 x (nat len))
     | Some Crypto_hash_sha512 \<Rightarrow> wr out 0 (crypto_hash_sha512 x (nat len))))"

definition buf_putkemkey :: "'a net_scheme \<Rightarrow> buf \<Rightarrow> bytes \<Rightarrow> buf res" where
  "buf_putkemkey w b x =
     bindr (sel_kex w) (\<lambda>k.
     case kx_putkemkey k of
       None \<Rightarrow> Inl Oob
     | Some Curve25519_putkemkey \<Rightarrow> curve25519_putkemkey b x
     | Some Sntrup761x25519_putkemkey \<Rightarrow> sntrup761x25519_putkemkey b x)"

definition buf_putsignpk :: "sign_fn option \<Rightarrow> buf \<Rightarrow> bytes \<Rightarrow> buf res" where
  "buf_putsignpk f b x = (case f of None \<Rightarrow> Inl Oob | Some Crypto_sign_ed25519 \<Rightarrow> ed25519_putsignpk b x)"

definition buf_putsignature :: "sign_fn option \<Rightarrow> buf \<Rightarrow> bytes \<Rightarrow> buf res" where
  "buf_putsignature f b x = (case f of None \<Rightarrow> Inl Oob | Some Crypto_sign_ed25519 \<Rightarrow> ed25519_putsignature b x)"

text \<open>\<open>sshcrypto_sign_publickey\<close> points into the table.\<close>

definition sign_publickey :: "'a net_scheme \<Rightarrow> bytes res" where
  "sign_publickey w =
     bindr (sel_key w) (\<lambda>(i, _). if i < length (keys (crypt w)) then Inr (ky_publickey (keys (crypt w) ! i)) else Inl Oob)"

text \<open>
  The loop around \<open>sshcrypto_enc\<close>, which is repeated while a 32-byte shared secret begins with zero;
  \<open>fuel\<close> bounds the number of calls.
\<close>

primrec kem_loop :: "nat \<Rightarrow> prims \<Rightarrow> kex \<Rightarrow> bytes \<Rightarrow> bytes \<Rightarrow> bytes \<Rightarrow> 'a net_scheme \<Rightarrow> (bytes \<times> bytes \<times> 'a net_scheme) res" where
  "kem_loop 0 p k clientpk serverpk sharedsecret w = Inl Blocked"
| "kem_loop (Suc fuel) p k clientpk serverpk sharedsecret w =
     (case kx_enc k of
        None \<Rightarrow> Inl Oob
      | Some f \<Rightarrow>
          let (r, c, ss, n) = p_enc p f (fresh w) clientpk; w = w\<lparr>rndpos := rndpos w + n\<rparr> in
          if r \<noteq> 0 then Inl Eproto
          else
            bindr (wr serverpk 0 c) (\<lambda>serverpk.
            bindr (wr sharedsecret 0 ss) (\<lambda>sharedsecret.
            bindr (rd1 sharedsecret 0) (\<lambda>c0.
            if c0 = 0 \<and> kx_publickeybytes k = 32 then kem_loop fuel p k clientpk serverpk sharedsecret w
            else Inr (serverpk, sharedsecret, w)))))"

text \<open>\<open>packet_kexdh\<close> up to the shared secret: the client's message.\<close>

definition kexdh_receive :: "buf \<Rightarrow> 'a net_scheme \<Rightarrow> (bool \<times> bytes \<times> buf \<times> 'a net_scheme) res" where
  "kexdh_receive b1 w =
     bindr (if kex_packet_follows w \<noteq> 0 \<and> kex_guess w = 0
            then bindr (buf_purge b1) (\<lambda>b1. packet_getall b1 SSH_MSG_KEXDH_INIT w)
            else Inr (True, b1, w)) (\<lambda>(r, b1, w).
     if \<not> r then Inr (False, [], b1, w)
     else
     bindr (buf_purge b1) (\<lambda>b1.
     bindr (packet_getall b1 SSH_MSG_KEXDH_INIT w) (\<lambda>(r, b1, w).
     if \<not> r then Inr (False, [], b1, w)
     else
     bindr (packetparser_uint8 (bmem b1) (blen b1) 0) (\<lambda>(pos, ch).
     if ch \<noteq> SSH_MSG_KEXDH_INIT then Inl Eproto
     else
     bindr (packetparser_uint32 (bmem b1) (blen b1) pos) (\<lambda>(pos, len).
     bindr (sel_kex w) (\<lambda>k.
     if uint len \<noteq> kx_publickeybytes k then Inl Eproto
     else
     bindr (packetparser_copy (bmem b1) (blen b1) pos (replicate (nat kem_PUBLICKEYMAX) 0) (uint len)) (\<lambda>(pos, clientpk).
     bindr (packetparser_end (bmem b1) (blen b1) pos) (\<lambda>_.
     bindr (buf_purge b1) (\<lambda>b1. Inr (True, clientpk, b1, w))))))))))"

text \<open>The exchange hash (RFC 4253, section 8): what is hashed is written to \<open>packet.hashbuf\<close>.\<close>

definition kexdh_hash :: "bytes \<Rightarrow> bytes \<Rightarrow> bytes \<Rightarrow> 'a net_scheme \<Rightarrow> (bytes \<times> 'a net_scheme) res" where
  "kexdh_hash clientpk serverpk sharedsecret w =
     bindr (sel_kex w) (\<lambda>k.
     bindr (sel_key w) (\<lambda>(_, ky).
     bindr (buf_purge (hashbuf w)) (\<lambda>h.
     bindr (buf_putstringlen h (bmem (helloreceive w)) (blen (helloreceive w))) (\<lambda>h.
     bindr (buf_putstringlen h (bmem (hellosend w)) (blen (hellosend w))) (\<lambda>h.
     bindr (buf_putstringlen h (bmem (kexrecv w)) (blen (kexrecv w))) (\<lambda>h.
     bindr (buf_putstringlen h (bmem (kexsend w)) (blen (kexsend w))) (\<lambda>h.
     bindr (sign_publickey w) (\<lambda>pk.
     bindr (buf_putsignpk (ky_sign ky) h pk) (\<lambda>h.
     bindr (buf_putstringlen h clientpk (kx_publickeybytes k)) (\<lambda>h.
     bindr (buf_putstringlen h serverpk (kx_ciphertextbytes k)) (\<lambda>h.
     bindr (buf_putkemkey w h sharedsecret) (\<lambda>h.
     bindr (sshcrypto_hash w (replicate 64 0) (bmem h) (blen h)) (\<lambda>hash.
       Inr (hash, w\<lparr>hashbuf := h\<rparr>))))))))))))))"

definition kexdh_reply :: "bytes \<Rightarrow> bytes \<Rightarrow> buf \<Rightarrow> 'a net_scheme \<Rightarrow> (bool \<times> buf \<times> 'a net_scheme) res" where
  "kexdh_reply serverpk sm b2 w =
     bindr (sel_kex w) (\<lambda>k.
     bindr (sel_key w) (\<lambda>(_, ky).
     bindr (buf_putnum8 b2 SSH_MSG_KEXDH_REPLY) (\<lambda>b2.
     bindr (sign_publickey w) (\<lambda>pk.
     bindr (buf_putsignpk (ky_sign ky) b2 pk) (\<lambda>b2.
     bindr (buf_putstringlen b2 serverpk (kx_ciphertextbytes k)) (\<lambda>b2.
     bindr (buf_putsignature (ky_sign ky) b2 sm) (\<lambda>b2.
     bindr (packet_put b2 w) (\<lambda>w.
     bindr (buf_purge b2) (\<lambda>b2.
     bindr (buf_putnum8 b2 SSH_MSG_NEWKEYS) (\<lambda>b2.
     bindr (packet_put b2 w) (\<lambda>w.
     bindr (packet_sendall w) (\<lambda>(r, w). Inr (r, b2, w)))))))))))))"

text \<open>\<open>do { .. } while (b2->buf[0] != SSH_MSG_NEWKEYS)\<close>: every round takes at least one packet.\<close>

primrec kexdh_newkeys :: "nat \<Rightarrow> buf \<Rightarrow> 'a net_scheme \<Rightarrow> (bool \<times> buf \<times> 'a net_scheme) res" where
  "kexdh_newkeys 0 b2 w = Inl Blocked"
| "kexdh_newkeys (Suc fuel) b2 w =
     bindr (buf_purge b2) (\<lambda>b2.
     bindr (packet_getall b2 0 w) (\<lambda>(r, b2, w).
     if \<not> r then Inr (False, b2, w)
     else bindr (rd1 (bmem b2) 0) (\<lambda>c.
          if c \<noteq> SSH_MSG_NEWKEYS then kexdh_newkeys fuel b2 w else Inr (True, b2, w))))"

text \<open>
  One round of the key derivation (RFC 4253, section 7.2): the first hash and its one extension, in
  the 128 bytes of \<open>key\<close>, which keeps what it held behind them.
\<close>

definition kexdh_key :: "u8 \<Rightarrow> bytes \<Rightarrow> bytes \<Rightarrow> bytes \<Rightarrow> buf \<Rightarrow> 'a net_scheme \<Rightarrow> (bytes \<times> buf) res" where
  "kexdh_key letter sharedsecret hash key b1 w =
     bindr (sel_kex w) (\<lambda>k.
     bindr (buf_purge b1) (\<lambda>b1.
     bindr (buf_putkemkey w b1 sharedsecret) (\<lambda>b1.
     bindr (buf_put b1 hash (kx_hashbytes k)) (\<lambda>b1.
     bindr (buf_putnum8 b1 letter) (\<lambda>b1.
     bindr (buf_put b1 (sessionid w) (kx_hashbytes k)) (\<lambda>b1.
     bindr (sshcrypto_hash w key (bmem b1) (blen b1)) (\<lambda>key.
     bindr (buf_purge b1) (\<lambda>b1.
     bindr (buf_putkemkey w b1 sharedsecret) (\<lambda>b1.
     bindr (buf_put b1 hash (kx_hashbytes k)) (\<lambda>b1.
     bindr (buf_put b1 key (kx_hashbytes k)) (\<lambda>b1.
     bindr (sshcrypto_hash w (drop (nat (kx_hashbytes k)) key) (bmem b1) (blen b1)) (\<lambda>ext.
       Inr (take (nat (kx_hashbytes k)) key @ ext, b1)))))))))))))"

definition kexdh_store :: "nat \<Rightarrow> bytes \<Rightarrow> 'a net_scheme \<Rightarrow> 'a net_scheme" where
  "kexdh_store i key w =
     (if i = 0 then w\<lparr>clientnonce := key\<rparr>
      else if i = 1 then w\<lparr>servernonce := key\<rparr>
      else if i = 2 then w\<lparr>clientkey := key\<rparr>
      else if i = 3 then w\<lparr>serverkey := key\<rparr>
      else if i = 4 then w\<lparr>clientmackey := key\<rparr>
      else w\<lparr>servermackey := key\<rparr>)"

primrec kexdh_keys :: "nat list \<Rightarrow> bytes \<Rightarrow> bytes \<Rightarrow> bytes \<Rightarrow> buf \<Rightarrow> 'a net_scheme \<Rightarrow> (buf \<times> 'a net_scheme) res" where
  "kexdh_keys [] sharedsecret hash key b1 w = Inr (b1, w)"
| "kexdh_keys (i # is) sharedsecret hash key b1 w =
     bindr (kexdh_key (65 + of_nat i) sharedsecret hash key b1 w) (\<lambda>(key, b1).
       kexdh_keys is sharedsecret hash key b1 (kexdh_store i key w))"

text \<open>
  \<open>junk\<close> is what the local arrays \<open>serverpk\<close>, \<open>sharedsecret\<close>, \<open>sm\<close> and \<open>key\<close> hold before they are
  written; \<open>fuel\<close> bounds the two loops that depend on the other side.
\<close>

definition packet_kexdh :: "nat \<Rightarrow> prims \<Rightarrow> (nat \<Rightarrow> bytes) \<Rightarrow> buf \<Rightarrow> buf \<Rightarrow> 'a host_scheme \<Rightarrow>
    (bool \<times> buf \<times> buf \<times> 'a host_scheme) res" where
  "packet_kexdh fuel p junk b1 b2 w =
     bindr (kexdh_receive b1 w) (\<lambda>(r, clientpk, b1, w).
     if \<not> r then Inr (False, b1, b2, w)
     else
     bindr (sel_kex w) (\<lambda>k.
     bindr (kem_loop fuel p k clientpk (junk 1071) (junk 64) w) (\<lambda>(serverpk, sharedsecret, w).
     bindr (kexdh_hash clientpk serverpk sharedsecret w) (\<lambda>(hash, w).
     bindr (if flagrekeying w then Inr (sessionid w)
            else byte_copy (sessionid w) 0 (kx_hashbytes k) hash 0) (\<lambda>sid.
     let w = w\<lparr>sessionid := sid, flagrekeying := True\<rparr> in
     bindr (sel_key w) (\<lambda>(_, ky).
     bindr (subprocess_sign p (junk 64) (ky_bytes ky) hash (kx_hashbytes k) w) (\<lambda>(r, sm, w).
     if r \<noteq> 0 then Inr (False, b1, b2, w)
     else
     bindr (buf_purge b1) (\<lambda>b1.
     bindr (buf_purge b2) (\<lambda>b2.
     bindr (kexdh_reply serverpk sm b2 w) (\<lambda>(r, b2, w).
     if \<not> r then Inr (False, b1, b2, w)
     else
     bindr (kexdh_newkeys fuel b2 w) (\<lambda>(r, b2, w).
     if \<not> r then Inr (False, b1, b2, w)
     else
     bindr (kexdh_keys [0..<6] sharedsecret hash (junk 128) b1 w) (\<lambda>(b1, w).
       Inr (True, b1, b2, w)))))))))))))"

end
