(* ===== verification/Kex_Correct.thy ===== *)
theory Kex_Correct
  imports Kex
begin

text \<open>
  The key exchange computes what RFC 4253 (sections 7.2 and 8) and the documents of the two key
  exchange methods say: the exchange hash over the two version strings, the two KEXINIT messages, the
  host key, the two public values and the shared secret, and six keys derived from it.
\<close>

section \<open>The encodings and hashes of the selected method\<close>

definition kex_digest :: "kex \<Rightarrow> bytes \<Rightarrow> bytes" where
  "kex_digest k x =
     (case kx_hash k of
        Some Crypto_hash_sha512 \<Rightarrow> crypto_hash_sha512 x (length x)
      | _ \<Rightarrow> crypto_hash_sha256 x (length x))"

definition kemkey_bytes :: "kex \<Rightarrow> bytes \<Rightarrow> bytes" where
  "kemkey_bytes k ss =
     (case kx_putkemkey k of
        Some Sntrup761x25519_putkemkey \<Rightarrow> ssh_string (take 64 ss)
      | _ \<Rightarrow> ssh_mpint (take 32 ss))"

text \<open>A selected method of the tables, and a shared secret it can encode.\<close>

definition kex_ready :: "kex \<Rightarrow> bool" where
  "kex_ready k \<longleftrightarrow>
     kx_hash k = Some Crypto_hash_sha256 \<and> kx_hashbytes k = 32 \<and> kx_putkemkey k = Some Curve25519_putkemkey \<and>
       kx_publickeybytes k = 32 \<and> kx_ciphertextbytes k = 32 \<or>
     kx_hash k = Some Crypto_hash_sha512 \<and> kx_hashbytes k = 64 \<and> kx_putkemkey k = Some Sntrup761x25519_putkemkey \<and>
       kx_publickeybytes k = 1190 \<and> kx_ciphertextbytes k = 1071"

definition secret_ok :: "kex \<Rightarrow> bytes \<Rightarrow> bool" where
  "secret_ok k ss \<longleftrightarrow> length ss = 64 \<and> (kx_putkemkey k = Some Curve25519_putkemkey \<longrightarrow> (\<exists>c \<in> set (take 32 ss). c \<noteq> 0))"

lemma wf_kex_ready:
  assumes "wf_sshc s" and "kex_sel s = Some k"
  shows "kex_ready k"
proof -
  have "kex_static k \<in> set (butlast sshcrypto_kexs)" using assms by (auto simp: wf_sshc_def)
  then have "kex_ready (kex_static k)"
    by (auto simp: sshcrypto_kexs_def kex_ready_def kex_curve25519_def kex_sntrup_def)
  then show ?thesis by (simp add: kex_ready_def kex_static_def)
qed

lemma put_then:
  "wf_buf b \<Longrightarrow> m = bput b xs \<Longrightarrow> (\<And>b'. wf_buf b' \<Longrightarrow> f b' = bput b' ys) \<Longrightarrow> bindr m f = bput b (xs @ ys)"
  using bput_then by blast

lemma put_contents:
  "wf_buf b \<Longrightarrow> buf_contents c \<Longrightarrow> buf_putstringlen b (bmem c) (blen c) = bput b (ssh_string (bdata c))"
  by (simp add: buf_putstringlen_eq buf_contents_def bdata_def)

lemma put_prefix:
  "wf_buf b \<Longrightarrow> n \<le> length x \<Longrightarrow> n \<le> 65536 \<Longrightarrow> buf_putstringlen b x (int n) = bput b (ssh_string (take n x))"
  by (simp add: buf_putstringlen_eq)

lemma put_take: "wf_buf b \<Longrightarrow> n \<le> length x \<Longrightarrow> n \<le> 65536 \<Longrightarrow> buf_put b x (int n) = bput b (take n x)"
  by (simp add: buf_put_eq)

lemma first_nonzero_less:
  assumes "n \<le> length x" and "\<exists>c \<in> set (take n x). c \<noteq> 0"
  obtains p where "first_nonzero x 0 n = Inr p" "first_nonzero (take n x) 0 n = Inr p" "p < n"
proof
  let ?t = "takeWhile (\<lambda>c. c = 0) (take n x)"
  show "first_nonzero x 0 n = Inr (length ?t)" "first_nonzero (take n x) 0 n = Inr (length ?t)"
    using assms(1) first_nonzero_eq [of 0 n x] first_nonzero_eq [of 0 n "take n x"] by simp_all
  have "?t \<noteq> take n x" using assms(2) by (simp add: takeWhile_eq_all_conv)
  then have "length ?t < length (take n x)"
    by (metis length_takeWhile_le nat_less_le takeWhile_eq_take take_all)
  then show "length ?t < n" using assms(1) by simp
qed

text \<open>Only the first \<open>n\<close> bytes of a longer array are encoded.\<close>

lemma putsharedsecret_prefix:
  assumes "wf_buf b" and "n \<le> length x" and "n \<le> 1073741824" and "\<exists>c \<in> set (take n x). c \<noteq> 0"
  shows "buf_putsharedsecret b x (int n) = bput b (ssh_mpint (take n x))"
proof -
  obtain p where p: "first_nonzero x 0 n = Inr p" "first_nonzero (take n x) 0 n = Inr p" "p < n"
    using first_nonzero_less [OF assms(2,4)] .
  have c: "rd1 x (int p) = Inr (x ! p)" "rd1 (take n x) (int p) = Inr (x ! p)"
    using p(3) assms(2) by (simp_all add: rd1_in)
  have put: "buf_put b' (drop p x) (int n - int p) = buf_put b' (drop p (take n x)) (int n - int p)" if "wf_buf b'" for b'
    using that p(3) assms(2,3) buf_put_eq [of b' "int (n - p)" "drop p x"] buf_put_eq [of b' "int (n - p)" "drop p (take n x)"]
    by (simp add: of_nat_diff drop_take)
  have wf: "wf_buf b'" if "bindr (buf_putnum32 b m) (\<lambda>b. buf_putnum8 b 0) = Inr b' \<or> buf_putnum32 b m = Inr b'" for b' m
    using that assms(1) wf_bput by (auto simp: buf_putnum32_eq bindr_eq_Inr) (metis buf_putnum8_eq)
  have "buf_putsharedsecret b x (int n) = buf_putsharedsecret b (take n x) (int n)"
    unfolding buf_putsharedsecret_def nat_int p bindr_Inr c
    by (intro if_cong refl bindr_cong put) (auto intro: wf split: if_splits)
  then show ?thesis using buf_putsharedsecret_eq [OF assms(1), of "take n x"] assms by simp
qed

lemma putkemkey_eq:
  assumes "wf_buf b" and "kex_sel (crypt w) = Some k" and "kex_ready k" and "secret_ok k ss"
  shows "buf_putkemkey w b ss = bput b (kemkey_bytes k ss)"
proof -
  have l: "length ss = 64" using assms(4) by (simp add: secret_ok_def)
  consider "kx_putkemkey k = Some Curve25519_putkemkey" | "kx_putkemkey k = Some Sntrup761x25519_putkemkey"
    using assms(3) by (auto simp: kex_ready_def)
  then show ?thesis
  proof cases
    case 1
    then show ?thesis
      using assms putsharedsecret_prefix [of b 32 ss] l
      by (simp add: buf_putkemkey_def sel_kex_def curve25519_putkemkey_def kemkey_bytes_def secret_ok_def)
  next
    case 2
    then show ?thesis
      using assms l put_prefix [OF assms(1), of 64 ss]
      by (simp add: buf_putkemkey_def sel_kex_def sntrup761x25519_putkemkey_def kemkey_bytes_def)
  qed
qed

section \<open>The exchange hash\<close>

definition kex_transcript :: "kex \<Rightarrow> bytes \<Rightarrow> bytes \<Rightarrow> bytes \<Rightarrow> bytes \<Rightarrow> bytes \<Rightarrow> bytes \<Rightarrow> bytes \<Rightarrow> bytes \<Rightarrow> bytes" where
  "kex_transcript k vc vs ic is pk qc qs ss =
     ssh_string vc @ ssh_string vs @ ssh_string ic @ ssh_string is @ ssh_string (ed25519_blob pk) @
     ssh_string (take (nat (kx_publickeybytes k)) qc) @ ssh_string (take (nat (kx_ciphertextbytes k)) qs) @ kemkey_bytes k ss"

lemma length_kex_digest: "kex_ready k \<Longrightarrow> int (length (kex_digest k x)) = kx_hashbytes k"
  by (auto simp: kex_ready_def kex_digest_def)

lemma sshcrypto_hash_eq:
  assumes "kex_sel (crypt w) = Some k" and "kex_ready k" and "wf_buf b" and "kx_hashbytes k \<le> int (length out)"
  shows "sshcrypto_hash w out (bmem b) (blen b) =
    Inr (kex_digest k (bdata b) @ drop (nat (kx_hashbytes k)) out)"
proof -
  have r: "rd (bmem b) 0 (blen b) = Inr (bdata b)"
    using wf_bufD [OF assms(3)] by (simp add: rd_in bdata_def)
  have l: "nat (blen b) = length (bdata b)" using bdata_length [OF assms(3)] by simp
  have "wr out 0 (kex_digest k (bdata b)) = Inr (kex_digest k (bdata b) @ drop (length (kex_digest k (bdata b))) out)"
    using assms(4) length_kex_digest [OF assms(2), of "bdata b"] by (simp add: wr_in)
  moreover have "length (kex_digest k (bdata b)) = nat (kx_hashbytes k)"
    using length_kex_digest [OF assms(2), of "bdata b"] by simp
  ultimately show ?thesis
    using assms(1,2) r l by (auto simp: sshcrypto_hash_def sel_kex_def kex_ready_def kex_digest_def)
qed

text \<open>What the state of a session holds when the exchange hash is computed.\<close>

definition kex_state :: "'a net_scheme \<Rightarrow> kex \<Rightarrow> bytes \<Rightarrow> bool" where
  "kex_state w k pk \<longleftrightarrow>
     wf_sshc (crypt w) \<and> kex_sel (crypt w) = Some k \<and> wf_buf (hashbuf w) \<and>
     buf_contents (helloreceive w) \<and> buf_contents (hellosend w) \<and> buf_contents (kexrecv w) \<and> buf_contents (kexsend w) \<and>
     length pk = 32 \<and> (\<exists>ky. key_sel (crypt w) = Some (0, ky) \<and> ky_publickey (keys (crypt w) ! 0) = pk)"

lemma wf_sshc_key:
  assumes "wf_sshc s" and "key_sel s = Some (i, ky)"
  shows "i = 0" "ky_sign ky = Some Crypto_sign_ed25519" "0 < length (keys s)"
proof -
  show "i = 0" using assms by (auto simp: wf_sshc_def)
  have "key_static ky \<in> set (butlast sshcrypto_keys)" using assms by (auto simp: wf_sshc_def)
  then have "ky_sign (key_static ky) = Some Crypto_sign_ed25519" by (auto simp: sshcrypto_keys_def)
  then show "ky_sign ky = Some Crypto_sign_ed25519" by (simp add: key_static_def)
  have "length (keys s) = length sshcrypto_keys" using assms(1) by (metis wf_sshc_def length_map)
  then show "0 < length (keys s)" by (simp add: sshcrypto_keys_def)
qed

lemma put_chain:
  assumes "wf_buf b" and "m = bput b xs" and "\<And>b'. wf_buf b' \<Longrightarrow> f b' = bindr (bput b' ys) g"
  shows "bindr m f = bindr (bput b (xs @ ys)) g"
proof -
  have "bindr m f = bindr (bput b xs) (\<lambda>b'. bindr (bput b' ys) g)"
    unfolding assms(2) by (intro bindr_cong refl assms(3)) (rule wf_bput [OF assms(1)])
  then show ?thesis by (simp add: bput_bput [OF assms(1)] flip: bindr_assoc)
qed

lemma put_last: "m = bput b xs \<Longrightarrow> bindr m f = bindr (bput b xs) f"
  by simp

lemma kexdh_hash_eq:
  assumes "kex_state w k pk" and "kx_publickeybytes k \<le> int (length qc)" and "kx_ciphertextbytes k \<le> int (length qs)"
    and "secret_ok k ss"
  shows "kexdh_hash qc qs ss w =
    bindr (buf_purge (hashbuf w)) (\<lambda>h.
    bindr (bput h (kex_transcript k (bdata (helloreceive w)) (bdata (hellosend w)) (bdata (kexrecv w)) (bdata (kexsend w)) pk qc qs ss))
      (\<lambda>h. Inr (kex_digest k (bdata h) @ replicate (64 - nat (kx_hashbytes k)) 0, w\<lparr>hashbuf := h\<rparr>)))"
proof -
  have st: "wf_sshc (crypt w)" "kex_sel (crypt w) = Some k" "wf_buf (hashbuf w)" "length pk = 32"
    "buf_contents (helloreceive w)" "buf_contents (hellosend w)" "buf_contents (kexrecv w)" "buf_contents (kexsend w)"
    using assms(1) by (auto simp: kex_state_def)
  obtain ky where ky: "key_sel (crypt w) = Some (0, ky)" "ky_publickey (keys (crypt w) ! 0) = pk"
    using assms(1) by (auto simp: kex_state_def)
  have key: "ky_sign ky = Some Crypto_sign_ed25519" "sign_publickey w = Inr pk"
    using wf_sshc_key [OF st(1) ky(1)] ky by (simp_all add: sign_publickey_def sel_key_def)
  have rd: "kex_ready k" using wf_kex_ready st by blast
  have pub: "buf_putstringlen b qc (kx_publickeybytes k) = bput b (ssh_string (take (nat (kx_publickeybytes k)) qc))"
    "buf_putstringlen b qs (kx_ciphertextbytes k) = bput b (ssh_string (take (nat (kx_ciphertextbytes k)) qs))"
    if "wf_buf b" for b
    using that assms(2,3) rd buf_putstringlen_eq [of b "kx_publickeybytes k" qc] buf_putstringlen_eq [of b "kx_ciphertextbytes k" qs]
    by (auto simp: kex_ready_def)
  have hash: "bindr (sshcrypto_hash w (replicate 64 0) (bmem h) (blen h)) (\<lambda>hash. Inr (hash, w\<lparr>hashbuf := h\<rparr>)) =
      Inr (kex_digest k (bdata h) @ replicate (64 - nat (kx_hashbytes k)) 0, w\<lparr>hashbuf := h\<rparr>)" if "wf_buf h" for h
    using sshcrypto_hash_eq [OF st(2) rd that, of "replicate 64 0"] rd by (auto simp: kex_ready_def)
  have "bindr (buf_putstringlen h (bmem (helloreceive w)) (blen (helloreceive w))) (\<lambda>h.
      bindr (buf_putstringlen h (bmem (hellosend w)) (blen (hellosend w))) (\<lambda>h.
      bindr (buf_putstringlen h (bmem (kexrecv w)) (blen (kexrecv w))) (\<lambda>h.
      bindr (buf_putstringlen h (bmem (kexsend w)) (blen (kexsend w))) (\<lambda>h.
      bindr (ed25519_putsignpk h pk) (\<lambda>h.
      bindr (buf_putstringlen h qc (kx_publickeybytes k)) (\<lambda>h.
      bindr (buf_putstringlen h qs (kx_ciphertextbytes k)) (\<lambda>h.
      bindr (buf_putkemkey w h ss) (\<lambda>h.
      bindr (sshcrypto_hash w (replicate 64 0) (bmem h) (blen h)) (\<lambda>hash. Inr (hash, w\<lparr>hashbuf := h\<rparr>)))))))))) =
    bindr (bput h (kex_transcript k (bdata (helloreceive w)) (bdata (hellosend w)) (bdata (kexrecv w)) (bdata (kexsend w)) pk qc qs ss))
      (\<lambda>h. Inr (kex_digest k (bdata h) @ replicate (64 - nat (kx_hashbytes k)) 0, w\<lparr>hashbuf := h\<rparr>))"
    (is "_ = bindr _ ?g") if "wf_buf h" for h
  proof -
    have last: "bindr (buf_putkemkey w h ss) (\<lambda>h.
        bindr (sshcrypto_hash w (replicate 64 0) (bmem h) (blen h)) (\<lambda>hash. Inr (hash, w\<lparr>hashbuf := h\<rparr>))) =
      bindr (bput h (kemkey_bytes k ss)) ?g" if "wf_buf h" for h
      unfolding putkemkey_eq [OF that st(2) rd assms(4)]
      by (intro bindr_cong refl hash) (rule wf_bput [OF that])
    show ?thesis
      unfolding kex_transcript_def
      by (intro put_chain that last) (auto simp: put_contents st ed25519_put_eq pub that)
  qed
  then show ?thesis
    using st ky key buf_purge_wf [OF st(3)]
    by (cases "buf_purge (hashbuf w)") (auto simp: kexdh_hash_def sel_kex_def sel_key_def buf_putsignpk_def)
qed

section \<open>The shared secret\<close>

lemma kem_loop_secret:
  assumes "kex_ready k" and "length ss0 = 64" and "kem_loop fuel p k qc qs0 ss0 w = Inr (qs, ss, w')"
  shows "secret_ok k ss \<and> length qs = length qs0"
  using assms(2,3)
proof (induction fuel arbitrary: qs0 ss0 w)
  case (Suc fuel)
  obtain f r c s n where e: "kx_enc k = Some f" "p_enc p f (fresh w) qc = (r, c, s, n)"
    using Suc.prems(2) by (cases "kx_enc k"; cases "p_enc p (the (kx_enc k)) (fresh w) qc") auto
  obtain q1 s1 where w1: "wr qs0 0 c = Inr q1" "wr ss0 0 s = Inr s1"
    using Suc.prems(2) e by (auto simp: Let_def bindr_eq_Inr split: if_splits)
  have len: "length q1 = length qs0" "length s1 = 64" using wr_length [OF w1(1)] wr_length [OF w1(2)] Suc.prems(1) by simp_all
  have c0: "rd1 s1 0 = Inr (s1 ! 0)" using len(2) by (simp add: rd1_in)
  show ?case
  proof (cases "s1 ! 0 = 0 \<and> kx_publickeybytes k = 32")
    case True
    then have "kem_loop fuel p k qc q1 s1 (w\<lparr>rndpos := rndpos w + n\<rparr>) = Inr (qs, ss, w')"
      using Suc.prems(2) e w1 c0 by (simp add: Let_def split: if_splits)
    then show ?thesis using Suc.IH [OF len(2)] len(1) by simp
  next
    case False
    then have "qs = q1" "ss = s1" using Suc.prems(2) e w1 c0 by (auto simp: Let_def split: if_splits)
    moreover have "s1 ! 0 \<in> set (take 32 s1)" using len(2) by (auto simp: in_set_conv_nth intro!: exI [of _ 0])
    moreover have "kx_publickeybytes k = 32" if "kx_putkemkey k = Some Curve25519_putkemkey"
      using that assms(1) by (auto simp: kex_ready_def)
    ultimately show ?thesis using False len by (auto simp: secret_ok_def)
  qed
qed simp

section \<open>The keys\<close>

definition kex_key :: "kex \<Rightarrow> bytes \<Rightarrow> bytes \<Rightarrow> bytes \<Rightarrow> u8 \<Rightarrow> bytes" where
  "kex_key k ss H sid letter =
     (let k1 = kex_digest k (kemkey_bytes k ss @ H @ [letter] @ sid)
      in k1 @ kex_digest k (kemkey_bytes k ss @ H @ k1))"

lemma length_kemkey: "kex_ready k \<Longrightarrow> secret_ok k ss \<Longrightarrow> length (kemkey_bytes k ss) \<le> 68"
proof -
  assume a: "kex_ready k" "secret_ok k ss"
  have "length (strip_zeros x) \<le> length x" for x unfolding strip_zeros_def by (rule length_dropWhile_le)
  from this [of "take 32 ss"] show ?thesis using a
    by (auto simp: kemkey_bytes_def secret_ok_def kex_ready_def ssh_mpint_def ssh_string_def Let_def)
qed

lemma bput_result:
  assumes "wf_buf c" and "bput c xs = Inr d"
  shows "wf_buf d" "bdata d = bdata c @ xs" "balloc d = balloc c"
  using assms wf_bput [OF assms] bdata_bapp [OF assms(1), of xs] by (auto simp: bput_def split: if_splits)

lemma kexdh_key_eq:
  assumes "kex_sel (crypt w) = Some k" and "kex_ready k" and "secret_ok k ss" and "wf_buf b1" and "260 < balloc b1"
    and "length H = nat (kx_hashbytes k)" and "nat (kx_hashbytes k) \<le> length (sessionid w)" and "length key = 128"
  shows "\<exists>b. kexdh_key letter ss (H @ z) key b1 w =
      Inr (kex_key k ss H (take (nat (kx_hashbytes k)) (sessionid w)) letter @ drop (2 * nat (kx_hashbytes k)) key, b) \<and>
    wf_buf b \<and> balloc b = balloc b1"
proof -
  define n where "n = nat (kx_hashbytes k)"
  have n: "kx_hashbytes k = int n" "n = 32 \<or> n = 64" using assms(2) by (auto simp: n_def kex_ready_def)
  have Hn: "length H = n" "n \<le> length (sessionid w)" using assms(6,7) by (simp_all add: n_def)
  have small: "n \<le> 64" using n(2) by auto
  have dl: "length (kex_digest k x) = n" for x using length_kex_digest [OF assms(2), of x] n by simp
  let ?K = "kemkey_bytes k ss"
  have K: "length ?K \<le> 68" using length_kemkey assms(2,3) .
  define sid where "sid = take n (sessionid w)"
  have sid: "length sid = n" using assms(7) by (simp add: sid_def n_def)
  have put: "buf_put b (H @ z) (int n) = bput b H" "buf_put b (sessionid w) (int n) = bput b sid" if "wf_buf b" for b
    using put_take [OF that, of n "H @ z"] put_take [OF that, of n "sessionid w"] Hn small by (simp_all add: sid_def)
  obtain c where c: "buf_purge b1 = Inr c" "wf_buf c" "bdata c = []" "balloc c = balloc b1"
    using buf_purge_eq [OF assms(4)] buf_purge_wf [OF assms(4)] by auto
  have put1: "bindr (buf_putkemkey w c ss) (\<lambda>b1. bindr (buf_put b1 (H @ z) (int n)) (\<lambda>b1. bindr (buf_putnum8 b1 letter) (\<lambda>b1.
      bindr (buf_put b1 (sessionid w) (int n)) g))) = bindr (bput c (?K @ H @ [letter] @ sid)) g" for g :: "buf \<Rightarrow> 'b res"
    using c(2) by (intro put_chain put_last) (simp_all add: putkemkey_eq [OF _ assms(1-3)] put buf_putnum8_eq)
  have b0: "blen c = 0" using bdata_length [OF c(2)] c(3) by simp
  obtain d where f1: "bput c (?K @ H @ [letter] @ sid) = Inr d"
    using K sid assms(5) Hn small c(4) b0 by (simp add: bput_def)
  have d: "wf_buf d" "bdata d = ?K @ H @ [letter] @ sid" "balloc d = balloc b1"
    using bput_result [OF c(2) f1] c(3,4) by simp_all
  let ?k1 = "kex_digest k (?K @ H @ [letter] @ sid)"
  have h1: "sshcrypto_hash w key (bmem d) (blen d) = Inr (?k1 @ drop n key)"
    using sshcrypto_hash_eq [OF assms(1,2) d(1), of key] assms(8) n(1) small by (simp add: d(2))
  obtain e where e: "buf_purge d = Inr e" "wf_buf e" "bdata e = []" "balloc e = balloc b1"
    using buf_purge_eq [OF d(1)] buf_purge_wf [OF d(1)] d(3) by auto
  have put2: "bindr (buf_putkemkey w e ss) (\<lambda>b1. bindr (buf_put b1 (H @ z) (int n)) (\<lambda>b1.
      bindr (buf_put b1 (?k1 @ drop n key) (int n)) g)) = bindr (bput e (?K @ H @ ?k1)) g" for g :: "buf \<Rightarrow> 'b res"
    using e(2) small by (intro put_chain put_last) (simp_all add: putkemkey_eq [OF _ assms(1-3)] put put_take dl)
  have b1: "blen e = 0" using bdata_length [OF e(2)] e(3) by simp
  obtain f where f2: "bput e (?K @ H @ ?k1) = Inr f"
    using K assms(5) Hn small e(4) b1 dl by (simp add: bput_def)
  have f: "wf_buf f" "bdata f = ?K @ H @ ?k1" "balloc f = balloc b1"
    using bput_result [OF e(2) f2] e(3,4) by simp_all
  have h2: "sshcrypto_hash w (drop n key) (bmem f) (blen f) =
      Inr (kex_digest k (?K @ H @ ?k1) @ drop (n + n) key)"
    using sshcrypto_hash_eq [OF assms(1,2) f(1), of "drop n key"] assms(8) n(1) small dl by (simp add: f(2))
  note cons = append_Cons append_Nil
  have two: "2 * nat (kx_hashbytes k) = n + n" by (simp add: n_def)
  show ?thesis
    unfolding two using assms(1) f(1,3)
    by (simp add: kexdh_key_def sel_kex_def c(1) n(1) e(1) kex_key_def Let_def dl
        put1 [unfolded cons] f1 [unfolded cons] h1 [unfolded cons] put2 [unfolded cons] f2 [unfolded cons] h2 [unfolded cons]
        flip: sid_def)
qed

text \<open>The six rounds: the letters A to F, and the fields of the state in the order the code has them.\<close>

definition store_keys :: "(u8 \<Rightarrow> bytes) \<Rightarrow> 'a net_scheme \<Rightarrow> 'a net_scheme" where
  "store_keys K w = w\<lparr>clientnonce := K 65, servernonce := K 66, clientkey := K 67, serverkey := K 68,
     clientmackey := K 69, servermackey := K 70\<rparr>"

lemma kexdh_store_same [simp]: "crypt (kexdh_store i key w) = crypt w" "sessionid (kexdh_store i key w) = sessionid w"
  by (simp_all add: kexdh_store_def)

lemma kexdh_keys_eq:
  assumes "kex_sel (crypt w) = Some k" and "kex_ready k" and "secret_ok k ss" and "wf_buf b1" and "260 < balloc b1"
    and "length H = nat (kx_hashbytes k)" and "nat (kx_hashbytes k) \<le> length (sessionid w)" and "length key = 128"
    and "length r = 128 - 2 * nat (kx_hashbytes k)" and "drop (2 * nat (kx_hashbytes k)) key = r"
  shows "\<exists>b. kexdh_keys is ss (H @ z) key b1 w =
      Inr (b, fold (\<lambda>i. kexdh_store i (kex_key k ss H (take (nat (kx_hashbytes k)) (sessionid w)) (65 + of_nat i) @ r)) is w) \<and>
    wf_buf b"
  using assms(1,4,5,7,8,10)
proof (induction "is" arbitrary: key b1 w)
  case (Cons i "is")
  have "kx_hashbytes k = 32 \<or> kx_hashbytes k = 64" using assms(2) by (auto simp: kex_ready_def)
  then have len: "length (kex_key k ss H sid l) = 2 * nat (kx_hashbytes k)" for sid l
    using length_kex_digest [OF assms(2)] by (auto simp: kex_key_def Let_def)
  let ?K = "kex_key k ss H (take (nat (kx_hashbytes k)) (sessionid w)) (65 + of_nat i) @ r"
  obtain b where b: "kexdh_key (65 + of_nat i) ss (H @ z) key b1 w = Inr (?K, b)" "wf_buf b" "balloc b = balloc b1"
    using kexdh_key_eq [OF Cons.prems(1) assms(2,3) Cons.prems(2,3) assms(6) Cons.prems(4,5), of "65 + of_nat i" z] Cons.prems(6)
    by auto
  have "length ?K = 128" "drop (2 * nat (kx_hashbytes k)) ?K = r"
    using len assms(9) \<open>kx_hashbytes k = 32 \<or> kx_hashbytes k = 64\<close> by auto
  then show ?case
    using Cons.IH [of "kexdh_store i ?K w" b ?K] Cons.prems b by auto
qed (use assms(4) in auto)

lemma kexdh_six: "[0..<6] = [0, 1, 2, 3, 4, 5 :: nat]"
  by (simp add: upt_rec)

section \<open>The session identifier\<close>

definition same_session :: "'a host_scheme \<Rightarrow> 'a host_scheme \<Rightarrow> bool" where
  "same_session w w' \<longleftrightarrow> sessionid w' = sessionid w \<and> flagrekeying w' = flagrekeying w \<and>
     flagauthorized w' = flagauthorized w \<and> flagclosesent w' = flagclosesent w \<and> crypt w' = crypt w \<and>
     host.more w' = host.more w \<and> (\<forall>k v. nvs_strings w' k = Some v \<longrightarrow> nvs_strings w k = Some v)"

lemma same_sessionI: "kept w w' \<Longrightarrow> same_session w w'"
  using more_host [OF keptD(21), of w w'] more_strings [OF keptD(21), of w w'] by (simp add: same_session_def keptD)

lemma same_session_trans: "same_session w w' \<Longrightarrow> same_session w' w'' \<Longrightarrow> same_session w w''"
  by (simp add: same_session_def)

lemma same_session_receive:
  assumes "kexdh_receive b1 w = Inr (r, c, b, w')"
  shows "same_session w w'"
proof -
  obtain r1 b2 w1 where 1: "(if kex_packet_follows w \<noteq> 0 \<and> kex_guess w = 0
      then bindr (buf_purge b1) (\<lambda>b1. packet_getall b1 SSH_MSG_KEXDH_INIT w) else Inr (True, b1, w)) = Inr (r1, b2, w1)"
    and 2: "\<not> r1 \<and> w' = w1 \<or> (\<exists>r2 b3 b4. packet_getall b3 SSH_MSG_KEXDH_INIT w1 = Inr (r2, b4, w'))"
    using assms by (auto simp: kexdh_receive_def bindr_eq_Inr split: if_splits) blast+
  have "kept w w1" using 1 kept_getall by (auto simp: bindr_eq_Inr split: if_splits)
  moreover have "kept w1 w'" using 2 kept_getall by auto
  ultimately show ?thesis by (metis kept_trans same_sessionI)
qed

lemma same_session_kem: "kem_loop fuel p k c q s w = Inr (q', s', w') \<Longrightarrow> same_session w w'"
proof (induction fuel arbitrary: q s w)
  case (Suc fuel)
  obtain r ct ss n where e: "p_enc p (the (kx_enc k)) (fresh w) c = (r, ct, ss, n)"
    by (cases "p_enc p (the (kx_enc k)) (fresh w) c") auto
  obtain q1 s1 where c: "kem_loop fuel p k c q1 s1 (w\<lparr>rndpos := rndpos w + n\<rparr>) = Inr (q', s', w') \<or>
      w' = w\<lparr>rndpos := rndpos w + n\<rparr>"
    using Suc.prems e by (cases "kx_enc k") (auto simp: Let_def bindr_eq_Inr split: if_splits)
  have "same_session w (w\<lparr>rndpos := rndpos w + n\<rparr>)" by (simp add: same_session_def)
  then show ?case using c Suc.IH same_session_trans by blast
qed simp

lemma same_session_hash: "kexdh_hash c q s w = Inr (h, w') \<Longrightarrow> same_session w w'"
  unfolding kexdh_hash_def bindr_eq_Inr by (auto simp: bindr_eq_Inr same_session_def)

lemma same_session_nvs: "nvs_call w = (e, w') \<Longrightarrow> same_session w w'"
  by (auto simp: nvs_call_def same_session_def split: list.splits)

lemma same_session_init_nvs: "init_nvs w = (ok, w') \<Longrightarrow> same_session w w'"
proof (cases "nvs_initialized w")
  case False
  assume i: "init_nvs w = (ok, w')"
  obtain e1 w1 where c1: "nvs_call w = (e1, w1)" by fastforce
  obtain e2 w2 where c2: "nvs_call (w1\<lparr>nvs_blobs := Map.empty, nvs_strings := Map.empty\<rparr>) = (e2, w2)" by fastforce
  from same_session_nvs [OF c1] same_session_nvs [OF c2] show ?thesis
    using i False by (auto simp: init_nvs_def c1 c2 same_session_def Let_def split: if_splits)
qed (simp add: init_nvs_def same_session_def)

lemma same_session_get_blob: "nvs_get_blob k n w = (e, v, w') \<Longrightarrow> same_session w w'"
  using same_session_nvs [of w "fst (nvs_call w)" "snd (nvs_call w)"]
  by (cases "nvs_call w") (auto simp: nvs_get_blob_def Let_def split: if_splits option.splits)

lemma same_session_set_blob: "nvs_set_blob k v w = (e, w') \<Longrightarrow> same_session w w'"
  using same_session_nvs [of w "fst (nvs_call w)" "snd (nvs_call w)"]
  by (cases "nvs_call w") (auto simp: nvs_set_blob_def Let_def same_session_def split: if_splits)

lemma same_session_generate: "load_generate p nk x n w = Inr (r, y, w') \<Longrightarrow> same_session w w'"
proof -
  assume g: "load_generate p nk x n w = Inr (r, y, w')"
  obtain c pk sk k where kp: "p_keypair p (fresh w) = (c, pk, sk, k)" by (cases "p_keypair p (fresh w)") auto
  let ?w = "w\<lparr>rndpos := rndpos w + k\<rparr>"
  obtain e1 w1 where s1: "nvs_set_blob (lit ''ed25519_pk'') pk ?w = (e1, w1)" by fastforce
  obtain e2 w2 where s2: "nvs_set_blob (lit ''ed25519_sk'') sk w1 = (e2, w2)" by fastforce
  obtain e3 w3 where s3: "nvs_call w2 = (e3, w3)" by fastforce
  have "same_session w ?w" by (simp add: same_session_def)
  with same_session_set_blob [OF s1] same_session_set_blob [OF s2] same_session_nvs [OF s3]
  have "same_session w ?w" "same_session w w2" "same_session w w3" by (simp_all add: same_session_def)
  then show ?thesis
    using g unfolding load_generate_def kp s1 s2 s3 Let_def
    by (auto simp: s1 s2 s3 bindr_eq_Inr simp del: lit_Cons split: if_splits)
qed

lemma same_session_load: "load p fn x n w = Inr (r, y, w') \<Longrightarrow> same_session w w'"
proof -
  assume l: "load p fn x n w = Inr (r, y, w')"
  obtain ok w1 where c1: "init_nvs w = (ok, w1)" by fastforce
  obtain e w2 where c2: "nvs_call w1 = (e, w2)" by fastforce
  define nk where "nk = the (load_key fn)"
  obtain e3 v w3 where c3: "nvs_get_blob nk n w2 = (e3, v, w3)" by (cases "nvs_get_blob nk n w2") auto
  have "same_session w w1" "same_session w w2" "same_session w w3"
    using same_session_init_nvs [OF c1] same_session_nvs [OF c2] same_session_get_blob [OF c3]
    by (auto simp: same_session_def)
  moreover have "same_session w3 w'" if "load_generate p nk x n w3 = Inr (r, y, w')"
    using same_session_generate [OF that] .
  ultimately show ?thesis
  proof (cases "load_key fn")
    case (Some a)
    then have "nk = a" by (simp add: nk_def)
    with Some l \<open>same_session w w3\<close> \<open>same_session w w1\<close> \<open>same_session w w2\<close>
      \<open>load_generate p nk x n w3 = Inr (r, y, w') \<Longrightarrow> same_session w3 w'\<close> c3
    show ?thesis
      by (auto simp: load_def c1 c2 bindr_eq_Inr dest: same_session_trans split: if_splits)
  qed (use l in \<open>auto simp: load_def c1 c2 split: if_splits\<close>)
qed

lemma same_session_sign:
  assumes "subprocess_sign p y n x m w = Inr (r, y', w')"
  shows "same_session w w'"
proof -
  obtain i k where k: "sel_key w = Inr (i, k)" using assms unfolding subprocess_sign_def bindr_eq_Inr by fastforce
  obtain kx where kx: "sel_kex w = Inr kx" using assms unfolding subprocess_sign_def by (auto simp: k bindr_eq_Inr)
  obtain r2 sk w2 where l: "load p (ky_secretkeyfilename k) (replicate 64 0) (ky_secretkeybytes k) w = Inr (r2, sk, w2)"
    using assms by (auto simp: subprocess_sign_def k kx bindr_eq_Inr split: if_splits)
  have "w' = w2"
    using assms
    by (cases "ky_sign k"; cases "rd x 0 (kx_hashbytes kx)"; cases "p_sign p (the (ky_sign k)) (projr (rd x 0 (kx_hashbytes kx))) sk")
      (auto simp: subprocess_sign_def k kx l bindr_eq_Inr split: if_splits)
  then show ?thesis using same_session_load [OF l] by simp
qed

lemma same_session_reply:
  assumes "kexdh_reply q sm b w = Inr (r, b', w')"
  shows "same_session w w'"
proof -
  obtain c1 c2 w1 w2 where p: "packet_put c1 w = Inr w1" "packet_put c2 w1 = Inr w2" "packet_sendall w2 = Inr (r, w')"
    using assms unfolding kexdh_reply_def by (auto simp: bindr_eq_Inr)
  show ?thesis using kept_put [OF p(1)] kept_put [OF p(2)] kept_sendall [OF p(3)] by (blast intro: same_sessionI kept_trans)
qed

lemma same_session_newkeys: "kexdh_newkeys fuel b w = Inr (r, b', w') \<Longrightarrow> same_session w w'"
proof (induction fuel arbitrary: b w)
  case (Suc fuel)
  obtain c r1 c1 w1 where g: "packet_getall c 0 w = Inr (r1, c1, w1)" "w' = w1 \<or> kexdh_newkeys fuel c1 w1 = Inr (r, b', w')"
    using Suc.prems by (auto simp: bindr_eq_Inr split: if_splits)
  have "same_session w w1" using kept_getall [OF g(1)] by (rule same_sessionI)
  then show ?case using g(2) Suc.IH same_session_trans by blast
qed simp

lemma same_session_keys: "kexdh_keys is ss H key b w = Inr (b', w') \<Longrightarrow> same_session w w'"
proof (induction "is" arbitrary: key b w)
  case (Cons i "is")
  obtain key1 b1 where "kexdh_keys is ss H key1 b1 (kexdh_store i key1 w) = Inr (b', w')"
    using Cons.prems by (auto simp: bindr_eq_Inr)
  then show ?case using Cons.IH by (fastforce simp: same_session_def kexdh_store_def)
qed (simp add: same_session_def)

text \<open>\<open>packet_kexdh\<close> from the signature on.\<close>

lemma same_session_tail:
  fixes junk :: "nat \<Rightarrow> bytes"
  assumes "bindr (sel_key w) (\<lambda>(_, ky).
     bindr (subprocess_sign p (junk 64) (ky_bytes ky) hash n w) (\<lambda>(r, sm, w).
     if r \<noteq> 0 then Inr (False, b1, b2, w)
     else
     bindr (buf_purge b1) (\<lambda>b1.
     bindr (buf_purge b2) (\<lambda>b2.
     bindr (kexdh_reply qs sm b2 w) (\<lambda>(r, b2, w).
     if \<not> r then Inr (False, b1, b2, w)
     else
     bindr (kexdh_newkeys fuel b2 w) (\<lambda>(r, b2, w).
     if \<not> r then Inr (False, b1, b2, w)
     else
     bindr (kexdh_keys [0..<6] ss hash (junk 128) b1 w) (\<lambda>(b1, w).
       Inr (True, b1, b2, w)))))))) = Inr (r, b1', b2', w')"
  shows "same_session w w'"
proof -
  obtain i ky where k: "sel_key w = Inr (i, ky)" using assms by (auto simp: bindr_eq_Inr)
  obtain r1 sm w1 where 1: "subprocess_sign p (junk 64) (ky_bytes ky) hash n w = Inr (r1, sm, w1)"
    using assms by (auto simp: k bindr_eq_Inr)
  show ?thesis
  proof (cases "r1 = 0")
    case True
    obtain c1 c2 where c: "buf_purge b1 = Inr c1" "buf_purge b2 = Inr c2"
      using assms True by (auto simp: k 1 bindr_eq_Inr)
    obtain r2 c3 w2 where 2: "kexdh_reply qs sm c2 w1 = Inr (r2, c3, w2)"
      using assms True by (auto simp: k 1 c bindr_eq_Inr)
    have "same_session w w2" using same_session_sign [OF 1] same_session_reply [OF 2] by (rule same_session_trans)
    moreover have "same_session w2 w'"
    proof (cases r2)
      case r2: True
      obtain r3 c4 w3 where 3: "kexdh_newkeys fuel c3 w2 = Inr (r3, c4, w3)"
        using assms True r2 by (auto simp: k 1 c 2 bindr_eq_Inr)
      have s3: "same_session w2 w3" by (rule same_session_newkeys [OF 3])
      show ?thesis
        using assms True r2 s3 same_session_trans [OF s3]
        by (cases r3) (auto simp: k 1 c 2 3 bindr_eq_Inr dest!: same_session_keys)
    qed (use assms True in \<open>auto simp: k 1 c 2 same_session_def\<close>)
    ultimately show ?thesis by (rule same_session_trans)
  qed (use assms same_session_sign [OF 1] in \<open>auto simp: k 1\<close>)
qed

section \<open>Properties\<close>

text \<open>A session that has selected the curve25519 method and the only host key type.\<close>

definition kex_example :: net where
  "kex_example = (net_start [] [])\<lparr>crypt := sshc_start\<lparr>kex_sel := Some (hd sshcrypto_kexs), key_sel := Some (0, hd sshcrypto_keys)\<rparr>,
     hellosend := payload_buf (lit ''SSH-2.0-tinyssh''), helloreceive := payload_buf (lit ''SSH-2.0-client''),
     kexsend := payload_buf (replicate 100 20), kexrecv := payload_buf (replicate 200 20), hashbuf := empty_buf 8192,
     sessionid := replicate 64 5\<rparr>"

lemma kex_example_state: "kex_state kex_example (hd sshcrypto_kexs) (replicate 32 0)"
  by (simp add: kex_state_def kex_example_def net_start_def payload_buf wf_empty_buf wf_sshc_def sshc_start_def sshcrypto_kexs_def
      sshcrypto_keys_def sshcrypto_ciphers_def kex_static_def key_static_def cipher_static_def kex_curve25519_def kex_sntrup_def
      kex_zero_def key_zero_def cipher_zero_def)

lemma kex_example_ready: "kex_ready (hd sshcrypto_kexs)" "secret_ok (hd sshcrypto_kexs) (replicate 64 9)"
  by (simp_all add: kex_ready_def secret_ok_def sshcrypto_kexs_def kex_curve25519_def)

text \<open>
  C3. The exchange hash is the hash of exactly the fields of RFC 4253 section 8, in their order and
  encoding: both version strings, both KEXINIT messages, the host key, both public values and the
  shared secret. It fails only where these do not fit the hash buffer, and within the limits of the
  session's buffers (version strings below 256 bytes, our KEXINIT below 1024, the client's at most
  \<open>PACKET_LIMIT\<close>) they always fit its 8192 bytes.
\<close>

theorem exchange_hash_rfc4253:
  assumes "kex_state w k pk" and "length qc = 1190" and "length qs = 1071" and "secret_ok k ss"
  shows "let T = kex_transcript k (bdata (helloreceive w)) (bdata (hellosend w)) (bdata (kexrecv w)) (bdata (kexsend w)) pk qc qs ss
    in (if int (length T) < balloc (hashbuf w)
        then \<exists>h. kexdh_hash qc qs ss w = Inr (kex_digest k T @ replicate (64 - nat (kx_hashbytes k)) 0, w\<lparr>hashbuf := h\<rparr>) \<and> bdata h = T
        else kexdh_hash qc qs ss w = Inl Enomem) \<and>
      (if blen (helloreceive w) < 256 \<and> blen (hellosend w) < 256 \<and> blen (kexsend w) < 1024 \<and> blen (kexrecv w) \<le> int PACKET_LIMIT
       then length T < 8192 else True)"
proof -
  define T where "T = kex_transcript k (bdata (helloreceive w)) (bdata (hellosend w)) (bdata (kexrecv w)) (bdata (kexsend w)) pk qc qs ss"
  have st: "wf_buf (hashbuf w)" "kex_ready k" "length pk = 32" "buf_contents (helloreceive w)" "buf_contents (hellosend w)"
    "buf_contents (kexrecv w)" "buf_contents (kexsend w)"
    using assms(1) wf_kex_ready by (auto simp: kex_state_def)
  have pub: "kx_publickeybytes k \<le> 1190" "kx_ciphertextbytes k \<le> 1071" using st(2) by (auto simp: kex_ready_def)
  obtain h where h: "buf_purge (hashbuf w) = Inr h" "wf_buf h" "bdata h = []" "balloc h = balloc (hashbuf w)"
    using buf_purge_eq [OF st(1)] buf_purge_wf [OF st(1)] by auto
  have h0: "blen h = 0" using bdata_length [OF h(2)] h(3) by simp
  have eq: "kexdh_hash qc qs ss w = bindr (bput h T) (\<lambda>h.
      Inr (kex_digest k (bdata h) @ replicate (64 - nat (kx_hashbytes k)) 0, w\<lparr>hashbuf := h\<rparr>))"
    using kexdh_hash_eq [OF assms(1) _ _ assms(4)] pub assms(2,3) h(1) by (simp add: T_def)
  have fit: "length T < 8192"
    if "blen (helloreceive w) < 256" "blen (hellosend w) < 256" "blen (kexsend w) < 1024" "blen (kexrecv w) \<le> 4096"
  proof -
    have len: "length T = length (bdata (helloreceive w)) + length (bdata (hellosend w)) + length (bdata (kexrecv w)) +
        length (bdata (kexsend w)) + min 1190 (nat (kx_publickeybytes k)) + min 1071 (nat (kx_ciphertextbytes k)) +
        length (kemkey_bytes k ss) + 79"
      using st(3) assms(2,3) by (simp add: T_def kex_transcript_def ssh_string_def ed25519_blob_def)
    have "length (kemkey_bytes k ss) \<le> 68" by (rule length_kemkey [OF st(2) assms(4)])
    moreover have "min 1190 (nat (kx_publickeybytes k)) \<le> 1190" "min 1071 (nat (kx_ciphertextbytes k)) \<le> 1071" by simp_all
    moreover have "int (length (bdata (helloreceive w))) < 256" "int (length (bdata (hellosend w))) < 256"
      "int (length (bdata (kexrecv w))) \<le> 4096" "int (length (bdata (kexsend w))) < 1024"
      using that buf_contents_len st(4-7) by simp_all
    ultimately show ?thesis unfolding len by linarith
  qed
  have "\<exists>h. kexdh_hash qc qs ss w = Inr (kex_digest k T @ replicate (64 - nat (kx_hashbytes k)) 0, w\<lparr>hashbuf := h\<rparr>) \<and> bdata h = T"
    if "int (length T) < balloc (hashbuf w)"
  proof -
    have p: "bput h T = Inr (bapp h T)" using that h0 h(4) by (simp add: bput_def)
    have "kexdh_hash qc qs ss w = Inr (kex_digest k T @ replicate (64 - nat (kx_hashbytes k)) 0, w\<lparr>hashbuf := bapp h T\<rparr>)"
      "bdata (bapp h T) = T" using eq p bput_result [OF h(2) p] h(3) by simp_all
    then show ?thesis by blast
  qed
  moreover have "kexdh_hash qc qs ss w = Inl Enomem" if "\<not> int (length T) < balloc (hashbuf w)"
    using that eq h0 h(4) by (simp add: bput_def)
  moreover have "if blen (helloreceive w) < 256 \<and> blen (hellosend w) < 256 \<and> blen (kexsend w) < 1024 \<and> blen (kexrecv w) \<le> int PACKET_LIMIT
      then length T < 8192 else True" using fit by (simp add: PACKET_LIMIT_def)
  ultimately show ?thesis
    unfolding T_def [symmetric] Let_def by (cases "int (length T) < balloc (hashbuf w)") (simp_all only: if_True if_False simp_thms)
qed

theorem exchange_hash_rfc4253_witness:
  "\<exists>T h. kexdh_hash (replicate 1190 1) (replicate 1071 2) (replicate 64 9) kex_example =
     Inr (crypto_hash_sha256 T (length T) @ replicate 32 0, kex_example\<lparr>hashbuf := h\<rparr>) \<and> length T < 8192"
proof -
  have ex: "blen (helloreceive kex_example) < 256" "blen (hellosend kex_example) < 256" "blen (kexsend kex_example) < 1024"
    "blen (kexrecv kex_example) \<le> int PACKET_LIMIT" "balloc (hashbuf kex_example) = 8192"
    by (simp_all add: kex_example_def payload_buf_def empty_buf_def PACKET_LIMIT_def)
  have k: "kex_digest (hd sshcrypto_kexs) T = crypto_hash_sha256 T (length T)" "kx_hashbytes (hd sshcrypto_kexs) = 32" for T
    by (simp_all add: kex_digest_def sshcrypto_kexs_def kex_curve25519_def)
  define T where "T = kex_transcript (hd sshcrypto_kexs) (bdata (helloreceive kex_example)) (bdata (hellosend kex_example))
      (bdata (kexrecv kex_example)) (bdata (kexsend kex_example)) (replicate 32 0) (replicate 1190 1) (replicate 1071 2) (replicate 64 9)"
  note W = exchange_hash_rfc4253 [OF kex_example_state length_replicate length_replicate kex_example_ready(2), of 1 2,
      unfolded Let_def, folded T_def]
  have len: "length T < 8192" using W [THEN conjunct2] ex by (simp only: if_True simp_thms)
  then obtain h where "kexdh_hash (replicate 1190 1) (replicate 1071 2) (replicate 64 9) kex_example =
      Inr (crypto_hash_sha256 T (length T) @ replicate 32 0, kex_example\<lparr>hashbuf := h\<rparr>)"
    using W [THEN conjunct1] unfolding ex k by auto
  with len show ?thesis by blast
qed

text \<open>
  C4. The six keys of a session are those of RFC 4253 section 7.2, one extension long: with \<open>K\<close> the
  encoded secret, \<open>H\<close> the exchange hash and \<open>sid\<close> the session identifier, \<open>HASH(K, H, letter, sid)\<close>
  followed by \<open>HASH(K, H, the first part)\<close>, the letters A to F in the order initial vectors, cipher
  keys, MAC keys, each from client to server first.
\<close>

theorem session_keys_rfc4253:
  assumes "kex_sel (crypt w) = Some k" and "kex_ready k" and "secret_ok k ss" and "wf_buf b1" and "260 < balloc b1"
    and "length H = nat (kx_hashbytes k)" and "length (sessionid w) = 64" and "length key = 128"
  shows "\<exists>b. kexdh_keys [0..<6] ss (H @ z) key b1 w =
      Inr (b, store_keys (\<lambda>letter. kex_key k ss H (take (nat (kx_hashbytes k)) (sessionid w)) letter @
        drop (2 * nat (kx_hashbytes k)) key) w) \<and> wf_buf b"
proof -
  have "kx_hashbytes k = 32 \<or> kx_hashbytes k = 64" using assms(2) by (auto simp: kex_ready_def)
  then have "nat (kx_hashbytes k) \<le> length (sessionid w)" "length (drop (2 * nat (kx_hashbytes k)) key) = 128 - 2 * nat (kx_hashbytes k)"
    using assms(7,8) by auto
  from kexdh_keys_eq [OF assms(1-6) this(1) assms(8) this(2) refl, of "[0..<6]" z] show ?thesis
    unfolding kexdh_six by (simp add: kexdh_store_def store_keys_def)
qed

theorem session_keys_rfc4253_witness:
  "\<exists>b. kexdh_keys [0..<6] (replicate 64 9) (replicate 32 7 @ replicate 32 0) (replicate 128 1) (empty_buf 8192) kex_example =
      Inr (b, store_keys (\<lambda>letter. kex_key (hd sshcrypto_kexs) (replicate 64 9) (replicate 32 7) (replicate 32 5) letter @
        replicate 64 1) kex_example) \<and> wf_buf b"
proof -
  have hb: "kx_hashbytes (hd sshcrypto_kexs) = 32" by (simp add: sshcrypto_kexs_def kex_curve25519_def)
  have "kex_sel (crypt kex_example) = Some (hd sshcrypto_kexs)" "sessionid kex_example = replicate 64 5"
    by (simp_all add: kex_example_def)
  then show ?thesis
    using session_keys_rfc4253 [of kex_example "hd sshcrypto_kexs" "replicate 64 9" "empty_buf 8192" "replicate 32 7" "replicate 128 1"
        "replicate 32 0"] kex_example_ready wf_empty_buf [of 8192] hb
    by (simp add: empty_buf_def)
qed

text \<open>What a key exchange does to the session: the identifier is set once.\<close>

lemma kexdh_session:
  assumes "packet_kexdh fuel p junk b1 b2 w = Inr (r, b1', b2', w')"
  shows "flagauthorized w' = flagauthorized w" "flagclosesent w' = flagclosesent w" "crypt w' = crypt w"
    "host.more w' = host.more w" "\<And>k v. nvs_strings w' k = Some v \<Longrightarrow> nvs_strings w k = Some v"
    "flagrekeying w \<Longrightarrow> sessionid w' = sessionid w \<and> flagrekeying w'"
    "length (sessionid w') = length (sessionid w)" "r \<Longrightarrow> flagrekeying w'"
proof -
  obtain r1 qc c1 w1 where 1: "kexdh_receive b1 w = Inr (r1, qc, c1, w1)"
    using assms unfolding packet_kexdh_def bindr_eq_Inr by fastforce
  have s1: "same_session w w1" by (rule same_session_receive [OF 1])
  have "flagauthorized w' = flagauthorized w \<and> flagclosesent w' = flagclosesent w \<and> crypt w' = crypt w \<and>
    host.more w' = host.more w \<and> (\<forall>k v. nvs_strings w' k = Some v \<longrightarrow> nvs_strings w k = Some v) \<and> (flagrekeying w \<longrightarrow> sessionid w' = sessionid w \<and> flagrekeying w') \<and> length (sessionid w') = length (sessionid w) \<and>
    (r \<longrightarrow> flagrekeying w')"
  proof (cases r1)
    case False
    then show ?thesis using assms 1 s1 by (auto simp: packet_kexdh_def same_session_def)
  next
    case True
    obtain k qs ss w2 where 2: "kem_loop fuel p k qc (junk 1071) (junk 64) w1 = Inr (qs, ss, w2)" "sel_kex w1 = Inr k"
      using assms True unfolding packet_kexdh_def by (auto simp: 1 bindr_eq_Inr)
    obtain hash w3 where 3: "kexdh_hash qc qs ss w2 = Inr (hash, w3)"
      using assms True unfolding packet_kexdh_def by (auto simp: 1 2 bindr_eq_Inr)
    have s3: "same_session w w3"
      using s1 same_session_kem [OF 2(1)] same_session_hash [OF 3] by (simp add: same_session_def)
    obtain sid where 4: "(if flagrekeying w3 then Inr (sessionid w3) else byte_copy (sessionid w3) 0 (kx_hashbytes k) hash 0) = Inr sid"
      using assms True unfolding packet_kexdh_def by (auto simp: 1 2 3 bindr_eq_Inr split: if_splits)
    define w4 where "w4 = w3\<lparr>sessionid := sid, flagrekeying := True\<rparr>"
    have w4: "flagrekeying w4" "flagauthorized w4 = flagauthorized w" "flagclosesent w4 = flagclosesent w" "crypt w4 = crypt w"
      "host.more w4 = host.more w" "\<forall>k v. nvs_strings w4 k = Some v \<longrightarrow> nvs_strings w k = Some v"
      "if flagrekeying w then sessionid w4 = sessionid w else length (sessionid w4) = length (sessionid w)"
      using 4 s3 byte_copy_length by (auto simp: w4_def same_session_def split: if_splits)
    have "same_session w4 w'"
      unfolding w4_def
      by (rule same_session_tail [of _ p junk hash "kx_hashbytes k" c1 b2 qs fuel ss r b1' b2'])
        (use assms True in \<open>simp add: packet_kexdh_def 1 2 3 4 Let_def\<close>)
    then show ?thesis using w4 by (auto simp: same_session_def split: if_splits)
  qed
  then show "flagauthorized w' = flagauthorized w" "flagclosesent w' = flagclosesent w" "crypt w' = crypt w"
    "host.more w' = host.more w" "\<And>k v. nvs_strings w' k = Some v \<Longrightarrow> nvs_strings w k = Some v"
    "flagrekeying w \<Longrightarrow> sessionid w' = sessionid w \<and> flagrekeying w'"
    "length (sessionid w') = length (sessionid w)" "r \<Longrightarrow> flagrekeying w'"
    by simp_all
qed

text \<open>
  C14. The session identifier is set by the first key exchange and never changes: a key exchange in a
  session that already has one leaves it as it is, and one that succeeds leaves the session marked.
\<close>

theorem sessionid_fixed:
  "case packet_kexdh fuel p junk b1 b2 w of
     Inl e \<Rightarrow> True
   | Inr (r, b1', b2', w') \<Rightarrow>
       (if flagrekeying w then sessionid w' = sessionid w \<and> flagrekeying w'
        else length (sessionid w') = length (sessionid w) \<and> (if r then flagrekeying w' else True))"
proof (cases "packet_kexdh fuel p junk b1 b2 w")
  case (Inr t)
  obtain r b1' b2' w' where t: "t = (r, b1', b2', w')" by (cases t) auto
  show ?thesis using kexdh_session [OF Inr [unfolded t]] by (auto simp: Inr t)
qed simp

end
