(* ===== verification/Auth.thy ===== *)
theory Auth
  imports Kex
begin

text \<open>
  User authentication: packet_auth.c and port_auth.c.
\<close>

section \<open>port_auth.c\<close>

text \<open>\<open>x\<close>, \<open>keyname\<close> and \<open>key\<close> are C strings; a pointer moved forward is the rest of its string.\<close>

definition findnameandkey :: "bytes \<Rightarrow> bytes \<Rightarrow> bytes \<Rightarrow> int res" where
  "findnameandkey keyname key x =
     bindr (str_start x keyname) (\<lambda>r.
     if r = 0 then Inr 0
     else
     bindr (str_len keyname) (\<lambda>n.
     let x = drop (nat n) x in
     bindr (rd1 x 0) (\<lambda>c.
     if c \<noteq> 32 then Inr 0
     else
     let x = drop 1 x in
     bindr (str_start x key) (\<lambda>r.
     if r = 0 then Inr 0
     else
     bindr (str_len key) (\<lambda>n.
     let x = drop (nat n) x in
     bindr (rd1 x 0) (\<lambda>c. Inr (if c = 32 \<or> c = 10 \<or> c = 13 \<or> c = 0 then 1 else 0)))))))"

text \<open>
  The NVS string: with its terminating zero it must fit the 511 bytes offered; \<open>line\<close> is zeroed
  before.
\<close>

definition nvs_get_str :: "bytes \<Rightarrow> bytes \<Rightarrow> int \<Rightarrow> 'a host_scheme \<Rightarrow> esp_err \<times> bytes \<times> 'a host_scheme" where
  "nvs_get_str k line sz w =
     (let (e, w) = nvs_call w in
      if e \<noteq> ESP_OK then (e, line, w)
      else case nvs_strings w k of
             None \<Rightarrow> (ESP_ERR_NVS_NOT_FOUND, line, w)
           | Some v \<Rightarrow> if int (length v) + 1 > sz then (ESP_FAIL, line, w)
                       else (ESP_OK, v @ 0 # drop (Suc (length v)) line, w))"

definition subprocess_auth :: "bytes \<Rightarrow> bytes \<Rightarrow> bytes \<Rightarrow> 'a host_scheme \<Rightarrow> (int \<times> 'a host_scheme) res" where
  "subprocess_auth account keyname key w =
     (let (err, w) = nvs_call w in
      if err \<noteq> ESP_OK then Inr (-1, w)
      else
        let (err, line, w) = nvs_get_str (lit ''authorized_key'') (replicate 512 0) 511 w in
        if err = ESP_OK
        then bindr (findnameandkey keyname key line) (\<lambda>r. Inr (if r \<noteq> 0 then 0 else 111, w))
        else Inr (111, w))"

section \<open>packet_auth.c\<close>

text \<open>The service request.\<close>

definition auth_service :: "buf \<Rightarrow> 'a net_scheme \<Rightarrow> (bool \<times> buf \<times> 'a net_scheme) res" where
  "auth_service b w =
     bindr (buf_purge b) (\<lambda>b.
     bindr (packet_getall b SSH_MSG_SERVICE_REQUEST w) (\<lambda>(r, b, w).
     if \<not> r then Inr (False, b, w)
     else
     bindr (packetparser_uint8 (bmem b) (blen b) 0) (\<lambda>(pos, ch).
     if ch \<noteq> SSH_MSG_SERVICE_REQUEST then Inl Eproto
     else
     bindr (skip_string b pos) (\<lambda>(pos, len).
     bindr (str_equaln (string_at b pos len) len (cstr ''ssh-userauth'')) (\<lambda>eq.
     if eq = 0 then Inl Eproto
     else
     bindr (packetparser_end (bmem b) (blen b) pos) (\<lambda>_.
     bindr (wr1 (bmem b) 0 SSH_MSG_SERVICE_ACCEPT) (\<lambda>m.
     let b = b\<lparr>bmem := m\<rparr> in
     bindr (packet_put b w) (\<lambda>w.
     bindr (packet_sendall w) (\<lambda>(r, w). Inr (r, b, w))))))))))"

text \<open>
  The head of a request: user name, service, and where the method's name is.
\<close>

definition auth_head :: "buf \<Rightarrow> 'a net_scheme \<Rightarrow> (int \<times> int \<times> 'a net_scheme) res" where
  "auth_head b w =
     bindr (packetparser_uint8 (bmem b) (blen b) 0) (\<lambda>(pos, ch).
     if ch \<noteq> SSH_MSG_USERAUTH_REQUEST then Inl Eproto
     else
     bindr (packetparser_uint32 (bmem b) (blen b) pos) (\<lambda>(pos, len).
     if uint len \<ge> int (length (pname w)) then Inl Eproto
     else
     bindr (packetparser_copy (bmem b) (blen b) pos (pname w) (uint len)) (\<lambda>(pos, nm).
     bindr (wr1 nm (uint len) 0) (\<lambda>nm.
     let w = w\<lparr>pname := nm\<rparr> in
     bindr (skip_string b pos) (\<lambda>(pos, len).
     bindr (str_equaln (string_at b pos len) len (cstr ''ssh-connection'')) (\<lambda>eq.
     if eq = 0 then Inl Eproto
     else bindr (skip_string b pos) (\<lambda>(pos, len). Inr (pos, len, w))))))))"

text \<open>
  The signature: it is checked over the session id and the request without the signature
  (RFC 4252, section 7). \<open>sig\<close> is the local array. \<open>crypto_sign_ed25519_open\<close> leaves the message and
  64 zero bytes in \<open>b\<close>.
\<close>

definition auth_verify :: "prims \<Rightarrow> key \<Rightarrow> bytes \<Rightarrow> bytes \<Rightarrow> buf \<Rightarrow> buf \<Rightarrow> int \<Rightarrow> 'a net_scheme \<Rightarrow> (buf \<times> buf) res" where
  "auth_verify p k pk sig b b2 pos w =
     bindr (skip_string b pos) (\<lambda>(pos, len).
     bindr (ed25519_parsesignature sig (string_at b pos len) len) (\<lambda>(r, sig).
     if \<not> r then Inl Eproto
     else
     bindr (packetparser_end (bmem b) (blen b) pos) (\<lambda>_.
     bindr (purge (bmem b) (blen b - len - 4) (len + 4)) (\<lambda>m.
     let b = b\<lparr>bmem := m, blen := blen b - (len + 4)\<rparr> in
     bindr (sel_kex w) (\<lambda>kx.
     bindr (buf_purge b2) (\<lambda>b2.
     bindr (buf_put b2 sig (ky_bytes k)) (\<lambda>b2.
     bindr (buf_putstringlen b2 (sessionid w) (kx_hashbytes kx)) (\<lambda>b2.
     bindr (buf_put b2 (bmem b) (blen b)) (\<lambda>b2.
     bindr (buf_purge b) (\<lambda>b.
     if balloc b \<le> blen b2 then Inl Enomem
     else
     case ky_sign k of
       None \<Rightarrow> Inl Oob
     | Some f \<Rightarrow>
         bindr (rd (bmem b2) 0 (blen b2)) (\<lambda>sm.
         case p_open p f sm pk of
           None \<Rightarrow> Inl Eauth
         | Some m \<Rightarrow>
             bindr (wr (bmem b) 0 (m @ replicate 64 0)) (\<lambda>mem.
             bindr (buf_purge (b\<lparr>bmem := mem, blen := int (length m)\<rparr>)) (\<lambda>b. Inr (b, b2))))))))))))))"

text \<open>
  The public key part. The result says whether the request goes on to the next round (after the
  answer that the key would do), was rejected, or is authorized.
\<close>

datatype verdict = Next | Reject | Authorized | Failed

definition auth_publickey :: "prims \<Rightarrow> bytes \<Rightarrow> bytes \<Rightarrow> buf \<Rightarrow> buf \<Rightarrow> int \<Rightarrow> 'a host_scheme \<Rightarrow>
    (verdict \<times> buf \<times> buf \<times> 'a host_scheme) res" where
  "auth_publickey p pk0 sig0 b b2 pos w =
     bindr (packetparser_uint8 (bmem b) (blen b) pos) (\<lambda>(pos, flagsignature).
     bindr (skip_string b pos) (\<lambda>(pos, len).
     bindr (rd1 (bmem b) pos) (\<lambda>c.
     if c \<noteq> 0 then Inl Eproto
     else
     bindr (table_find ky_name (\<lambda>k. ky_flagclient k \<noteq> 0) (keys (crypt w)) 0 (string_at b pos len) len) (\<lambda>found.
     case found of
       None \<Rightarrow> Inr (Reject, b, b2, w)
     | Some (_, k) \<Rightarrow>
         if ky_sign k = None then Inr (Reject, b, b2, w)
         else
         bindr (skip_string b pos) (\<lambda>(pos, len).
         bindr (ed25519_parsesignpk pk0 (string_at b pos len) len) (\<lambda>(r, pk).
         if \<not> r then Inl Eproto
         else if flagsignature = 0 then
           bindr (buf_purge b) (\<lambda>b.
           bindr (buf_putnum8 b SSH_MSG_USERAUTH_PK_OK) (\<lambda>b.
           bindr (buf_putstring b (the (ky_name k))) (\<lambda>b.
           bindr (buf_putsignpk (ky_sign k) b pk) (\<lambda>b.
           bindr (packet_put b w) (\<lambda>w.
           bindr (packet_sendall w) (\<lambda>(r, w). Inr (if r then Next else Failed, b, b2, w)))))))
         else
           bindr (auth_verify p k pk sig0 b b2 pos w) (\<lambda>(b, b2).
           bindr (buf_purge b) (\<lambda>b.
           bindr (ed25519_putsignpkbase64 b pk) (\<lambda>b.
           bindr (buf_putnum8 b 0) (\<lambda>b.
           bindr (subprocess_auth (pname w) (the (ky_name k)) (bmem b) w) (\<lambda>(r, w).
             Inr (if r = 0 then Authorized else Reject, b, b2, w))))))))))))"

definition auth_reject :: "buf \<Rightarrow> 'a net_scheme \<Rightarrow> (bool \<times> buf \<times> 'a net_scheme) res" where
  "auth_reject b w =
     bindr (buf_purge b) (\<lambda>b.
     bindr (buf_putnum8 b SSH_MSG_USERAUTH_FAILURE) (\<lambda>b.
     bindr (buf_putstring b (cstr ''publickey'')) (\<lambda>b.
     bindr (buf_putnum8 b 0) (\<lambda>b.
     bindr (packet_put b w) (\<lambda>w.
     bindr (packet_sendall w) (\<lambda>(r, w). Inr (r, b, w)))))))"

definition auth_accept :: "buf \<Rightarrow> 'a net_scheme \<Rightarrow> (bool \<times> buf \<times> 'a net_scheme) res" where
  "auth_accept b w =
     bindr (buf_purge b) (\<lambda>b.
     bindr (buf_putnum8 b SSH_MSG_USERAUTH_SUCCESS) (\<lambda>b.
     bindr (packet_put b w) (\<lambda>w.
     bindr (packet_sendall w) (\<lambda>(r, w). Inr (r, b, w)))))"

definition auth_request :: "prims \<Rightarrow> bytes \<Rightarrow> bytes \<Rightarrow> buf \<Rightarrow> buf \<Rightarrow> 'a host_scheme \<Rightarrow>
    (verdict \<times> buf \<times> buf \<times> 'a host_scheme) res" where
  "auth_request p pk0 sig0 b b2 w =
     bindr (buf_purge b) (\<lambda>b.
     bindr (packet_getall b SSH_MSG_USERAUTH_REQUEST w) (\<lambda>(r, b, w).
     if \<not> r then Inr (Failed, b, b2, w)
     else
     bindr (auth_head b w) (\<lambda>(pos, len, w).
     bindr (str_equaln (string_at b pos len) len (cstr ''publickey'')) (\<lambda>eq.
     bindr (if eq \<noteq> 0 then auth_publickey p pk0 sig0 b b2 pos w else Inr (Reject, b, b2, w)) (\<lambda>(v, b, b2, w).
     if v = Reject
     then bindr (auth_reject b w) (\<lambda>(r, b, w). Inr (if r then Next else Failed, b, b2, w))
     else Inr (v, b, b2, w))))))"

text \<open>\<open>for (count = 0; count < 32; ++count)\<close>\<close>

primrec auth_loop :: "nat \<Rightarrow> prims \<Rightarrow> bytes \<Rightarrow> bytes \<Rightarrow> buf \<Rightarrow> buf \<Rightarrow> 'a host_scheme \<Rightarrow>
    (bool \<times> buf \<times> buf \<times> 'a host_scheme) res" where
  "auth_loop 0 p pk0 sig0 b b2 w = Inr (False, b, b2, w)"
| "auth_loop (Suc n) p pk0 sig0 b b2 w =
     bindr (auth_request p pk0 sig0 b b2 w) (\<lambda>(v, b, b2, w).
     case v of
       Failed \<Rightarrow> Inr (False, b, b2, w)
     | Authorized \<Rightarrow> Inr (True, b, b2, w)
     | _ \<Rightarrow> auth_loop n p pk0 sig0 b b2 w)"

text \<open>\<open>pk0\<close> and \<open>sig0\<close> are what the local arrays \<open>pk\<close> and \<open>sig\<close> hold at first.\<close>

definition packet_auth :: "prims \<Rightarrow> bytes \<Rightarrow> bytes \<Rightarrow> buf \<Rightarrow> buf \<Rightarrow> 'a host_scheme \<Rightarrow>
    (bool \<times> buf \<times> buf \<times> 'a host_scheme) res" where
  "packet_auth p pk0 sig0 b b2 w =
     bindr (auth_service b w) (\<lambda>(r, b, w).
     if \<not> r then Inr (False, b, b2, w)
     else
     bindr (auth_loop 32 p pk0 sig0 b b2 w) (\<lambda>(r, b, b2, w).
     if \<not> r then Inr (False, b, b2, w)
     else bindr (auth_accept b w) (\<lambda>(r, b, w). Inr (r, b, b2, w))))"

section \<open>The authorized key\<close>

lemma str_start_split:
  assumes "0 \<notin> set s" and "0 \<notin> set t"
  shows "str_start (s @ 0 # r) (t @ 0 # q) = Inr (if \<exists>u. s = t @ u then 1 else 0)"
proof -
  have "take (length t) s = t \<longleftrightarrow> (\<exists>u. s = t @ u)" by (metis append_take_drop_id append_eq_conv_conj)
  then show ?thesis using str_start_eq [OF assms, of r q] by simp
qed

text \<open>\<open>findnameandkey\<close> accepts exactly the lines \<open>name key\<close>, alone or followed by a space or a line end.\<close>

definition key_line :: "bytes \<Rightarrow> bytes \<Rightarrow> bytes \<Rightarrow> bool" where
  "key_line name key line \<longleftrightarrow> (\<exists>rest. line = name @ 32 # key @ rest \<and> (rest = [] \<or> hd rest \<in> {32, 10, 13}))"

lemma findnameandkey_eq:
  assumes "0 \<notin> set name" and "0 \<notin> set key" and "0 \<notin> set line"
  shows "findnameandkey (name @ 0 # r1) (key @ 0 # r2) (line @ 0 # r3) = Inr (if key_line name key line then 1 else 0)"
proof (cases "\<exists>u. line = name @ u")
  case True
  then obtain u where u: "line = name @ u" by blast
  have u0: "0 \<notin> set u" using assms(3) u by simp
  have n: "str_len (name @ 0 # r1) = Inr (int (length name))" by (rule str_len_eq [OF assms(1)])
  show ?thesis
  proof (cases "\<exists>v. u = 32 # v")
    case sp: True
    then obtain v where v: "u = 32 # v" by blast
    have v0: "0 \<notin> set v" using u0 v by simp
    show ?thesis
    proof (cases "\<exists>t. v = key @ t")
      case True
      then obtain t where t: "v = key @ t" by blast
      have k: "str_len (key @ 0 # r2) = Inr (int (length key))" by (rule str_len_eq [OF assms(2)])
      have "key_line name key line \<longleftrightarrow> t = [] \<or> hd t \<in> {32, 10, 13}" by (auto simp: key_line_def u v t)
      moreover have "rd1 (t @ 0 # r3) 0 = Inr (if t = [] then 0 else hd t)" by (cases t) (simp_all add: rd1_in)
      moreover have "t \<noteq> [] \<Longrightarrow> hd t \<noteq> 0" using v0 t by (cases t) auto
      ultimately show ?thesis
        using str_start_split [OF assms(3,1), of r3 r1] str_start_split [OF v0 assms(2), of r3 r2]
        by (auto simp: findnameandkey_def n k u v t rd1_in)
    next
      case False
      then have "\<not> key_line name key line" by (auto simp: key_line_def u v)
      then show ?thesis
        using False str_start_split [OF assms(3,1), of r3 r1] str_start_split [OF v0 assms(2), of r3 r2]
        by (auto simp: findnameandkey_def n u v rd1_in)
    qed
  next
    case False
    then have "\<not> key_line name key line" by (auto simp: key_line_def u)
    moreover have "rd1 (u @ 0 # r3) 0 = Inr (if u = [] then 0 else hd u)" by (cases u) (simp_all add: rd1_in)
    moreover have "(if u = [] then 0 else hd u) \<noteq> 32" using False by (cases u) auto
    ultimately show ?thesis
      using str_start_split [OF assms(3,1), of r3 r1] by (simp add: findnameandkey_def n u)
  qed
next
  case False
  then have "\<not> key_line name key line" by (auto simp: key_line_def)
  then show ?thesis using False str_start_split [OF assms(3,1), of r3 r1] by (simp add: findnameandkey_def)
qed

lemma of_bits_less: "of_bits bs < 2 ^ length bs"
proof -
  have "foldl (\<lambda>n b. 2 * n + of_bool b) a bs < (a + 1) * 2 ^ length bs" for a :: nat
  proof (induction bs arbitrary: a)
    case (Cons b bs)
    have "foldl (\<lambda>n b. 2 * n + of_bool b) (2 * a + of_bool b) bs < (2 * a + of_bool b + 1) * 2 ^ length bs"
      by (rule Cons.IH)
    also have "\<dots> \<le> (a + 1) * 2 ^ length (b # bs)" by (cases b) simp_all
    finally show ?case by simp
  qed simp
  from this [of 0] show ?thesis by (simp add: of_bits_def)
qed

lemma b64chars_nonzero: "n < 64 \<Longrightarrow> b64chars ! n \<noteq> 0"
proof -
  have "list_all (\<lambda>c. c \<noteq> 0) b64chars" "length b64chars = 64" by code_simp+
  then show "n < 64 \<Longrightarrow> b64chars ! n \<noteq> 0" by (simp add: list_all_length)
qed

lemma b64chars_of_bits: "length bs \<le> 6 \<Longrightarrow> b64chars ! of_bits bs \<noteq> 0"
proof -
  assume "length bs \<le> 6"
  then have "(2 :: nat) ^ length bs \<le> 2 ^ 6" by (rule power_increasing) simp
  then have "of_bits bs < 64" using of_bits_less [of bs] by simp
  then show ?thesis by (rule b64chars_nonzero)
qed

lemma sixes_nonzero: "c \<in> set (sixes bs) \<Longrightarrow> c \<noteq> 0"
proof (induction bs rule: sixes.induct)
  case (1 b5 b4 b3 b2 b1 b0 bs)
  then have "c = b64chars ! of_bits [b5, b4, b3, b2, b1, b0] \<or> c \<in> set (sixes bs)" by simp
  moreover have "b64chars ! of_bits [b5, b4, b3, b2, b1, b0] \<noteq> 0" by (rule b64chars_of_bits) simp
  ultimately show ?case using 1(1) by metis
next
  case 2
  then show ?case by simp
qed (simp_all only: sixes.simps set_simps insert_iff empty_iff simp_thms, (rule b64chars_of_bits, simp)+)

lemma base64_nonzero: "0 \<notin> set (base64 x)"
  using sixes_nonzero by (auto simp: base64_def Let_def)

lemma putsignpkbase64_eq:
  assumes "wf_buf b" and "length pk = 32" and "blen b = 0"
  shows "ed25519_putsignpkbase64 b pk = bput b (base64 (ed25519_blob pk))"
proof -
  have 1: "byte_copy (replicate 51 0) 0 19 ed25519_pkprefix 0 = Inr (ed25519_pkprefix @ replicate 32 0)"
    by (subst byte_copy_eq) (simp_all add: ed25519_pkprefix_def)
  have 2: "byte_copy (ed25519_pkprefix @ replicate 32 0) 19 32 pk 0 = Inr (ed25519_pkprefix @ pk)"
    using assms(2) by (subst byte_copy_eq) (simp_all add: ed25519_pkprefix_def)
  have p: "uint32_pack_big 11 = [0, 0, 0, 11]" "uint32_pack_big 32 = [0, 0, 0, 32]" by code_simp+
  have 3: "ed25519_pkprefix @ pk = ed25519_blob pk"
    using assms(2) by (simp add: ed25519_blob_eq ed25519_pkprefix_def p)
  have "int (length (ed25519_blob pk)) = 51" using assms(2) by (simp add: ed25519_blob_eq)
  then show ?thesis
    using buf_putbase64_eq [OF assms(1), of "ed25519_blob pk"] assms(3)
    by (simp add: ed25519_putsignpkbase64_def 1 2 3)
qed

section \<open>Soundness\<close>

lemma buf_putstringlen_Inr:
  assumes "buf_putstringlen b x n = Inr b'"
  shows "bdata b' = bdata b @ uint32_pack_big (word_of_int n) @ take (nat n) x" "n \<le> int (length x)" "0 \<le> n"
proof -
  obtain b1 where b1: "buf_put b (uint32_pack_big (word_of_int n)) 4 = Inr b1" "buf_put b1 x n = Inr b'"
    using assms by (auto simp: buf_putstringlen_def buf_putnum32_def bindr_eq_Inr)
  show "bdata b' = bdata b @ uint32_pack_big (word_of_int n) @ take (nat n) x" "n \<le> int (length x)" "0 \<le> n"
    using buf_put_Inr(1-3) [OF b1(1)] buf_put_Inr(1-3) [OF b1(2)] by simp_all
qed

lemma rd_bdata: "rd (bmem b) 0 (blen b) = Inr x \<Longrightarrow> x = bdata b"
  by (auto simp: rd_def bdata_def split: if_splits)

lemma purge_tail:
  assumes "wf_buf b" and "0 \<le> n" and "purge (bmem b) (blen b - n - 4) (n + 4) = Inr m"
  shows "take (nat (blen b - (n + 4))) m = take (nat (blen b - (n + 4))) (bmem b)" "length m = length (bmem b)" "n + 4 \<le> blen b"
proof -
  have pos: "0 \<le> blen b - n - 4" using assms(2,3) by (auto simp: purge_def split: if_splits)
  have "byte_zero (bmem b) (blen b - n - 4) (n + 4) =
      Inr (take (nat (blen b - n - 4)) (bmem b) @ replicate (nat (n + 4)) 0 @ drop (nat (blen b - n - 4) + nat (n + 4)) (bmem b))"
    using pos assms(2) wf_bufD [OF assms(1)] by (intro byte_zero_eq) auto
  then have m: "m = take (nat (blen b - n - 4)) (bmem b) @ replicate (nat (n + 4)) 0 @ drop (nat (blen b - n - 4) + nat (n + 4)) (bmem b)"
    using assms(3) by (simp add: purge_byte_zero)
  have e: "blen b - (n + 4) = blen b - n - 4" by simp
  show "n + 4 \<le> blen b" using pos by simp
  have "nat (blen b - n - 4) \<le> length (bmem b)" using wf_bufD [OF assms(1)] assms(2) by linarith
  then show "take (nat (blen b - (n + 4))) m = take (nat (blen b - (n + 4))) (bmem b)" unfolding e m by simp
  show "length m = length (bmem b)" using byte_zero_length assms(3) by (simp add: purge_byte_zero)
qed

text \<open>
  \<open>signed p w k pk req\<close>: a signature of the public key \<open>pk\<close> over the session id and the bytes \<open>req\<close>
  was verified.
\<close>

definition signed :: "prims \<Rightarrow> 'a net_scheme \<Rightarrow> key \<Rightarrow> bytes \<Rightarrow> bytes \<Rightarrow> bool" where
  "signed p w k pk req \<longleftrightarrow>
     (\<exists>f kx sg m. ky_sign k = Some f \<and> kex_sel (crypt w) = Some kx \<and> length sg = nat (ky_bytes k) \<and>
        p_open p f (sg @ uint32_pack_big (word_of_int (kx_hashbytes kx)) @ take (nat (kx_hashbytes kx)) (sessionid w) @ req) pk = Some m)"

lemma skip_string_pos:
  assumes "skip_string b pos = Inr (pos', len)"
  shows "0 \<le> pos" "pos' = pos + 4 + len" "0 \<le> len"
  using assms
  by (auto simp: skip_string_def packetparser_uint32_def packetparser_skip_def parser_bad_def bindr_eq_Inr split: if_splits)

lemma auth_verify_sound:
  assumes "auth_verify p k pk sig b b2 pos w = Inr (b', b2')" and "wf_buf b"
  shows "wf_buf b' \<and> signed p w k pk (take (nat pos) (bdata b))"
proof -
  obtain pos1 len sig1 m kx b3 b4 b5 b6 b7 f sm msg mem where
    s: "skip_string b pos = Inr (pos1, len)"
    "purge (bmem b) (blen b - len - 4) (len + 4) = Inr m" "sel_kex w = Inr kx" "buf_purge b2 = Inr b3"
    "buf_put b3 sig1 (ky_bytes k) = Inr b4" "buf_putstringlen b4 (sessionid w) (kx_hashbytes kx) = Inr b5"
    "buf_put b5 m (blen b - (len + 4)) = Inr b6" "buf_purge (b\<lparr>bmem := m, blen := blen b - (len + 4)\<rparr>) = Inr b7"
    "ky_sign k = Some f" "rd (bmem b6) 0 (blen b6) = Inr sm" "p_open p f sm pk = Some msg"
    "wr (bmem b7) 0 (msg @ replicate 64 0) = Inr mem" "buf_purge (b7\<lparr>bmem := mem, blen := int (length msg)\<rparr>) = Inr b'"
    using assms(1) by (auto simp: auth_verify_def bindr_eq_Inr split: if_splits option.splits)
  have "packetparser_end (bmem b) (blen b) pos1 = Inr pos1"
    using assms(1) s(1) by (auto simp: auth_verify_def bindr_eq_Inr packetparser_end_def split: if_splits)
  then have np: "blen b - (len + 4) = pos"
    using skip_string_pos(2) [OF s(1)] by (simp add: packetparser_end_def split: if_splits)
  have "0 \<le> len" using s(1) by (auto simp: skip_string_def bindr_eq_Inr)
  note tail = purge_tail [OF assms(2) this s(2)]
  let ?n = "nat (blen b - (len + 4))"
  note p4 = buf_put_Inr [OF s(5)] and p5 = buf_putstringlen_Inr [OF s(6)] and p6 = buf_put_Inr [OF s(7)]
  have "?n \<le> nat (blen b)" using \<open>0 \<le> len\<close> by simp
  then have req: "take ?n m = take ?n (bdata b)" by (simp add: tail(1) bdata_def min_absorb1)
  have "length (take (nat (ky_bytes k)) sig1) = nat (ky_bytes k)" using p4(1,2) by simp
  moreover have "sm = take (nat (ky_bytes k)) sig1 @ uint32_pack_big (word_of_int (kx_hashbytes kx)) @
      take (nat (kx_hashbytes kx)) (sessionid w) @ take ?n (bdata b)"
    using rd_bdata [OF s(10)] p6(3) p5(1) p4(3) buf_purge_Inr(1) [OF s(4)] req by simp
  moreover have "kex_sel (crypt w) = Some kx" using s(3) by (auto simp: sel_kex_def split: option.splits)
  ultimately have "signed p w k pk (take (nat pos) (bdata b))" unfolding signed_def np using s(9,11) by blast
  moreover have "wf_buf b'"
  proof -
    note q7 = buf_purge_Inr [OF s(8)] and q' = buf_purge_Inr [OF s(13)]
    have "length mem = length (bmem b7)" by (rule wr_length [OF s(12)])
    then show ?thesis using q7(3,4) q'(2-4) tail(2) wf_bufD [OF assms(2)] by (simp add: wf_buf_def)
  qed
  ultimately show ?thesis by blast
qed

text \<open>
  \<open>authorized p w req\<close>: the bytes \<open>req\<close> were signed with a key of an algorithm the server accepts
  from clients, and the line stored for the user names exactly this algorithm and key.
\<close>

definition auth_ok :: "prims \<Rightarrow> 'a host_scheme \<Rightarrow> bytes \<Rightarrow> bool" where
  "auth_ok p w req \<longleftrightarrow>
     (\<exists>k name pk line. k \<in> set (keys (crypt w)) \<and> ky_name k = Some (name @ [0]) \<and> ky_flagclient k \<noteq> 0 \<and> length pk = 32 \<and>
        signed p w k pk req \<and> nvs_strings w (lit ''authorized_key'') = Some line \<and>
        key_line name (base64 (ed25519_blob pk)) line)"

lemma table_find_Some:
  "table_find nm en es i x n = Inr (Some (j, e)) \<Longrightarrow> e \<in> set es \<and> en e \<and> nm e \<noteq> None"
  by (induction es arbitrary: i) (auto simp: bindr_eq_Inr split: option.splits if_splits)

lemma parsesignpk_length:
  assumes "ed25519_parsesignpk pk0 x n = Inr (True, pk)"
  shows "length pk = length pk0"
  using assms
  by (auto simp: ed25519_parsesignpk_def ed25519_parse_def packetparser_copy_def bindr_eq_Inr
      dest: byte_copy_length split: if_splits)

definition names_ok :: "sshc \<Rightarrow> bool" where
  "names_ok s \<longleftrightarrow> (\<forall>k \<in> set (keys s). \<forall>n. ky_name k = Some n \<longrightarrow> (\<exists>name. n = name @ [0] \<and> 0 \<notin> set name))"

lemma subprocess_auth_sound:
  assumes "subprocess_auth account (name @ [0]) (key @ 0 # r2) w = Inr (0, w')" and "0 \<notin> set name" and "0 \<notin> set key"
    and "\<And>line. nvs_strings w (lit ''authorized_key'') = Some line \<Longrightarrow> 0 \<notin> set line"
  shows "\<exists>line. nvs_strings w (lit ''authorized_key'') = Some line \<and> key_line name key line"
proof -
  have keep: "nvs_strings w1 = nvs_strings w" if "nvs_call w = (e, w1)" for e w1 and w :: "'b host_scheme"
    using that by (auto simp: nvs_call_def split: list.splits)
  obtain e1 w1 where c1: "nvs_call w = (e1, w1)" by fastforce
  obtain e2 w2 where c2: "nvs_call w1 = (e2, w2)" by fastforce
  have st: "nvs_strings w2 = nvs_strings w" using keep [OF c1] keep [OF c2] by simp
  have e: "e1 = ESP_OK" "e2 = ESP_OK"
    using assms(1) by (auto simp: subprocess_auth_def c1 nvs_get_str_def c2 Let_def split: if_splits)
  show ?thesis
  proof (cases "nvs_strings w2 (lit ''authorized_key'')")
    case None
    then show ?thesis using assms(1) e by (simp add: subprocess_auth_def c1 nvs_get_str_def c2 Let_def)
  next
    case (Some line)
    have "0 \<notin> set line" using assms(4) Some st by simp
    note f = findnameandkey_eq [OF assms(2,3) this, of "[]" r2]
    show ?thesis
      using assms(1) e Some st f
      by (auto simp: subprocess_auth_def c1 nvs_get_str_def c2 Let_def bindr_eq_Inr split: if_splits)
  qed
qed

text \<open>Well-formedness through the answers.\<close>

lemma put_wf:
  assumes "wf_buf b"
  shows "buf_putnum8 b u = Inr b' \<Longrightarrow> wf_buf b'" "buf_putnum32 b v = Inr b' \<Longrightarrow> wf_buf b'"
    "buf_putstringlen b x n = Inr b' \<Longrightarrow> wf_buf b'" "buf_putstring b x = Inr b' \<Longrightarrow> wf_buf b'"
    "ed25519_putsignpk b x = Inr b' \<Longrightarrow> wf_buf b'" "buf_purge b = Inr b' \<Longrightarrow> wf_buf b'"
proof -
  have n8: "wf_buf b'" if "buf_putnum8 b u = Inr b'" "wf_buf b" for b u b'
    using buf_put_wf [OF that(2) that(1) [unfolded buf_putnum8_def]] by simp
  have n32: "wf_buf b'" if "buf_putnum32 b v = Inr b'" "wf_buf b" for b v b'
    using buf_put_wf [OF that(2) that(1) [unfolded buf_putnum32_def]] by simp
  have sl: "wf_buf b'" if s: "buf_putstringlen b x n = Inr b'" "wf_buf b" for b x n b'
  proof -
    obtain b1 where "buf_putnum32 b (word_of_int n) = Inr b1" "buf_put b1 x n = Inr b'"
      using s(1) by (auto simp: buf_putstringlen_def bindr_eq_Inr)
    then show ?thesis using n32 [OF _ s(2)] buf_put_wf [of b1 x n b'] by simp
  qed
  have st: "wf_buf b'" if s: "buf_putstring b x = Inr b'" "wf_buf b" for b x b'
  proof -
    obtain n where "buf_putstringlen b x n = Inr b'" using s(1) unfolding buf_putstring_def bindr_eq_Inr by blast
    then show ?thesis using sl s(2) by blast
  qed
  have pk: "wf_buf b'" if s: "ed25519_putsignpk b x = Inr b'" "wf_buf b" for b x b'
  proof -
    obtain b1 b2 n where "buf_putnum32 b n = Inr b1" "buf_putstring b1 ed25519_name = Inr b2" "buf_putstringlen b2 x 32 = Inr b'"
      using s(1) unfolding ed25519_putsignpk_def bindr_eq_Inr by blast
    then show ?thesis using n32 [OF _ s(2)] st [of b1] sl [of b2] by simp
  qed
  show "buf_putnum8 b u = Inr b' \<Longrightarrow> wf_buf b'" using n8 assms by simp
  show "buf_putnum32 b v = Inr b' \<Longrightarrow> wf_buf b'" using n32 assms by simp
  show "buf_putstringlen b x n = Inr b' \<Longrightarrow> wf_buf b'" using sl assms by simp
  show "buf_putstring b x = Inr b' \<Longrightarrow> wf_buf b'" using st assms by simp
  show "ed25519_putsignpk b x = Inr b' \<Longrightarrow> wf_buf b'" using pk assms by simp
  show "buf_purge b = Inr b' \<Longrightarrow> wf_buf b'" using buf_purge_wf [OF assms, of b'] by simp
qed

lemma bput_wf: "wf_buf b \<Longrightarrow> bput b xs = Inr b' \<Longrightarrow> wf_buf b' \<and> bdata b' = bdata b @ xs"
  using wf_bapp [of b xs] bdata_bapp [of b xs] by (auto simp: bput_def split: if_splits)

text \<open>What a round of the authentication keeps.\<close>

definition auth_kept :: "'a host_scheme \<Rightarrow> 'a host_scheme \<Rightarrow> bool" where
  "auth_kept w w' \<longleftrightarrow> crypt w' = crypt w \<and> sessionid w' = sessionid w \<and> nvs_strings w' = nvs_strings w \<and>
     flagclosesent w' = flagclosesent w \<and> flagrekeying w' = flagrekeying w \<and> host.more w' = host.more w"

lemma kept_auth: "kept w w' \<Longrightarrow> auth_kept w w'"
  using keptD [of w w'] more_strings [of w' w] more_host [of w' w] by (simp add: auth_kept_def)

lemma auth_kept_refl [simp]: "auth_kept w w"
  by (simp add: auth_kept_def)

lemma auth_kept_trans: "auth_kept w w' \<Longrightarrow> auth_kept w' w'' \<Longrightarrow> auth_kept w w''"
  by (simp add: auth_kept_def)

lemma nvs_call_kept: "nvs_call w = (e, w') \<Longrightarrow> auth_kept w w'"
  by (auto simp: nvs_call_def auth_kept_def split: list.splits)

lemma subprocess_auth_kept: "subprocess_auth a n k w = Inr (r, w') \<Longrightarrow> auth_kept w w'"
proof -
  assume s: "subprocess_auth a n k w = Inr (r, w')"
  obtain e1 w1 where c1: "nvs_call w = (e1, w1)" by fastforce
  obtain e2 w2 where c2: "nvs_call w1 = (e2, w2)" by fastforce
  have "w' = w1 \<or> w' = w2"
    using s by (auto simp: subprocess_auth_def c1 nvs_get_str_def c2 Let_def bindr_eq_Inr split: if_splits option.splits)
  then show ?thesis using nvs_call_kept [OF c1] nvs_call_kept [OF c2] auth_kept_trans by blast
qed

lemma auth_publickey_sound:
  assumes "auth_publickey p pk0 sig0 b b2 pos w = Inr (v, b', b2', w')" and "wf_buf b" and "length pk0 = 32"
    and "names_ok (crypt w)" and "\<And>line. nvs_strings w (lit ''authorized_key'') = Some line \<Longrightarrow> 0 \<notin> set line"
  shows "wf_buf b' \<and> auth_kept w w' \<and> (v = Authorized \<longrightarrow> (\<exists>n > 0. auth_ok p w (take n (bdata b))))"
proof -
  obtain pos1 fs pos2 len found where s: "packetparser_uint8 (bmem b) (blen b) pos = Inr (pos1, fs)"
    "skip_string b pos1 = Inr (pos2, len)" "rd1 (bmem b) pos2 = Inr 0"
    "table_find ky_name (\<lambda>k. ky_flagclient k \<noteq> 0) (keys (crypt w)) 0 (string_at b pos2 len) len = Inr found"
    using assms(1) by (auto simp: auth_publickey_def bindr_eq_Inr split: if_splits)
  note rest = assms(1) [unfolded auth_publickey_def s bindr_Inr prod.case, simplified]
  show ?thesis
  proof (cases "found = None \<or> (\<exists>j k. found = Some (j, k) \<and> ky_sign k = None)")
    case True
    then have "v = Reject" "b' = b" "w' = w" using rest by auto
    then show ?thesis using assms(2) by simp
  next
    case False
    then obtain j k f where k: "found = Some (j, k)" "ky_sign k = Some f" by auto
    have kt: "k \<in> set (keys (crypt w))" "ky_flagclient k \<noteq> 0" "ky_name k \<noteq> None"
      using table_find_Some [OF s(4) [unfolded k(1)]] by auto
    then obtain name where name: "ky_name k = Some (name @ [0])" "0 \<notin> set name" using assms(4) by (auto simp: names_ok_def)
    obtain pos3 len3 pk where p: "skip_string b pos2 = Inr (pos3, len3)"
      "ed25519_parsesignpk pk0 (string_at b pos3 len3) len3 = Inr (True, pk)"
      using rest k by (auto simp: bindr_eq_Inr split: if_splits)
    have lpk: "length pk = 32" using parsesignpk_length [OF p(2)] assms(3) by simp
    note rest2 = rest [unfolded k p, simplified]
    show ?thesis
    proof (cases "fs = 0")
      case True
      obtain b3 b4 b5 b6 w6 r where q: "buf_purge b = Inr b3" "buf_putnum8 b3 SSH_MSG_USERAUTH_PK_OK = Inr b4"
        "buf_putstring b4 (the (ky_name k)) = Inr b5" "buf_putsignpk (ky_sign k) b5 pk = Inr b6" "packet_put b6 w = Inr w6"
        "packet_sendall w6 = Inr (r, w')" "b' = b6" "v = (if r then Next else Failed)"
        using rest2 True k p by (auto simp: bindr_eq_Inr)
      have "ed25519_putsignpk b5 pk = Inr b6" using q(4) k by (cases f) (simp add: buf_putsignpk_def)
      then have "wf_buf b6" using put_wf(5,4,1,6) assms(2) q(1-3) by meson
      moreover have "auth_kept w w'" using kept_put [OF q(5)] kept_sendall [OF q(6)] kept_trans kept_auth by blast
      ultimately show ?thesis using q(7,8) by simp
    next
      case False
      obtain b3 b3' b4 b5 b6 r where q: "auth_verify p k pk sig0 b b2 pos3 w = Inr (b3, b3')" "buf_purge b3 = Inr b4"
        "ed25519_putsignpkbase64 b4 pk = Inr b5" "buf_putnum8 b5 0 = Inr b6"
        "subprocess_auth (pname w) (the (ky_name k)) (bmem b6) w = Inr (r, w')" "b' = b6" "v = (if r = 0 then Authorized else Reject)"
        using rest2 False k p by (auto simp: bindr_eq_Inr)
      define n where "n = nat pos3"
      have ver: "wf_buf b3" "signed p w k pk (take n (bdata b))" using auth_verify_sound [OF q(1) assms(2)] by (simp_all add: n_def)
      have n0: "0 < n" using skip_string_pos [OF s(2)] skip_string_pos [OF p(1)] by (simp add: n_def)
      have b4: "wf_buf b4" "blen b4 = 0" "bdata b4 = []" using put_wf(6) [OF ver(1) q(2)] buf_purge_Inr [OF q(2)] by auto
      have b5: "wf_buf b5" "bdata b5 = base64 (ed25519_blob pk)"
        using bput_wf [OF b4(1)] q(3) putsignpkbase64_eq [OF b4(1) lpk b4(2)] b4(3) by auto
      have b6: "wf_buf b6" "bdata b6 = base64 (ed25519_blob pk) @ [0]"
        using bput_wf [OF b5(1)] q(4) b5 by (auto simp: buf_putnum8_eq)
      have mem: "bmem b6 = base64 (ed25519_blob pk) @ 0 # drop (nat (blen b6)) (bmem b6)"
      proof -
        have "bmem b6 = bdata b6 @ drop (nat (blen b6)) (bmem b6)" by (simp add: bdata_def)
        then show ?thesis unfolding b6(2) by simp
      qed
      have "auth_kept w w'" by (rule subprocess_auth_kept [OF q(5)])
      moreover have "auth_ok p w (take n (bdata b))" if "v = Authorized"
      proof -
        have r0: "r = 0" using that q(7) by (simp split: if_splits)
        have sub: "subprocess_auth (pname w) (name @ [0]) (base64 (ed25519_blob pk) @ 0 # drop (nat (blen b6)) (bmem b6)) w = Inr (0, w')"
          using q(5) r0 name(1) mem by simp
        obtain line where "nvs_strings w (lit ''authorized_key'') = Some line" "key_line name (base64 (ed25519_blob pk)) line"
          using subprocess_auth_sound [OF sub name(2) base64_nonzero assms(5)] by blast
        then show ?thesis using kt name(1) lpk ver(2) unfolding auth_ok_def by blast
      qed
      ultimately show ?thesis using b6(1) q(6) n0 by blast
    qed
  qed
qed

lemma auth_head_kept: "auth_head b w = Inr (pos, len, w') \<Longrightarrow> auth_kept w w' \<and> bdata b \<noteq> [] \<and> hd (bdata b) = SSH_MSG_USERAUTH_REQUEST"
proof -
  assume h: "auth_head b w = Inr (pos, len, w')"
  then obtain pos0 where u8: "packetparser_uint8 (bmem b) (blen b) 0 = Inr (pos0, SSH_MSG_USERAUTH_REQUEST)"
    by (auto simp: auth_head_def bindr_eq_Inr split: if_splits)
  have "auth_kept w w'" using h by (auto simp: auth_head_def bindr_eq_Inr auth_kept_def split: if_splits)
  moreover have "bdata b \<noteq> [] \<and> hd (bdata b) = SSH_MSG_USERAUTH_REQUEST"
  proof -
    have u: "0 < blen b" "bmem b \<noteq> []" "bmem b ! 0 = SSH_MSG_USERAUTH_REQUEST"
      using u8 by (auto simp: packetparser_uint8_def rd1_def bindr_eq_Inr split: if_splits)
    then obtain n where "nat (blen b) = Suc n" by (cases "nat (blen b)") auto
    then show ?thesis using u(2,3) by (cases "bmem b") (simp_all add: bdata_def)
  qed
  ultimately show ?thesis by simp
qed

definition auth_evidence :: "prims \<Rightarrow> 'a host_scheme \<Rightarrow> bool" where
  "auth_evidence p w \<longleftrightarrow> (\<exists>req. req \<noteq> [] \<and> hd req = SSH_MSG_USERAUTH_REQUEST \<and> auth_ok p w req)"

lemma auth_evidence_kept: "auth_kept w w' \<Longrightarrow> auth_evidence p w' = auth_evidence p w"
  by (simp add: auth_kept_def auth_evidence_def auth_ok_def signed_def)

lemma auth_reject_kept: "auth_reject b w = Inr (r, b', w') \<Longrightarrow> wf_buf b \<Longrightarrow> wf_buf b' \<and> auth_kept w w'"
proof -
  assume a: "auth_reject b w = Inr (r, b', w')" and wf: "wf_buf b"
  obtain b1 b2 b3 w1 where q: "buf_purge b = Inr b1" "buf_putnum8 b1 SSH_MSG_USERAUTH_FAILURE = Inr b2"
    "buf_putstring b2 (cstr ''publickey'') = Inr b3" "buf_putnum8 b3 0 = Inr b'" "packet_put b' w = Inr w1"
    "packet_sendall w1 = Inr (r, w')"
    using a by (auto simp: auth_reject_def bindr_eq_Inr)
  have "wf_buf b'" using put_wf(6) [OF wf q(1)] put_wf(1) q(2,4) put_wf(4) q(3) by blast
  moreover have "auth_kept w w'" using kept_put [OF q(5)] kept_sendall [OF q(6)] kept_trans kept_auth by blast
  ultimately show ?thesis by simp
qed

lemma auth_request_sound:
  assumes "auth_request p pk0 sig0 b b2 w = Inr (v, b', b2', w')" and "wf_buf b" and "length pk0 = 32"
    and "names_ok (crypt w)" and "\<And>line. nvs_strings w (lit ''authorized_key'') = Some line \<Longrightarrow> 0 \<notin> set line"
  shows "wf_buf b' \<and> auth_kept w w' \<and> (v = Authorized \<longrightarrow> auth_evidence p w)"
proof -
  obtain b1 r b3 w3 where s: "buf_purge b = Inr b1" "packet_getall b1 SSH_MSG_USERAUTH_REQUEST w = Inr (r, b3, w3)"
    using assms(1) by (auto simp: auth_request_def bindr_eq_Inr)
  have wf3: "wf_buf b3" using packet_getall_wf(1) [OF s(2) put_wf(6) [OF assms(2) s(1)]] .
  have k3: "auth_kept w w3" using kept_getall [OF s(2)] by (rule kept_auth)
  note rest = assms(1) [unfolded auth_request_def s bindr_Inr prod.case]
  show ?thesis
  proof (cases r)
    case False
    then show ?thesis using rest wf3 k3 by auto
  next
    case True
    obtain pos len w4 where h: "auth_head b3 w3 = Inr (pos, len, w4)" using rest True by (auto simp: bindr_eq_Inr)
    note hd = auth_head_kept [OF h]
    have k4: "auth_kept w w4" using k3 hd auth_kept_trans by blast
    obtain eq v5 b5 b5' w5 where v: "(if eq \<noteq> (0 :: int) then auth_publickey p pk0 sig0 b3 b2 pos w4 else Inr (Reject, b3, b2, w4)) = Inr (v5, b5, b5', w5)"
      "(if v5 = Reject then bindr (auth_reject b5 w5) (\<lambda>(r, b, w). Inr (if r then Next else Failed, b, b5', w))
        else Inr (v5, b5, b5', w5)) = Inr (v, b', b2', w')"
      using rest True h unfolding bindr_eq_Inr by (fastforce simp: bindr_eq_Inr)
    have names: "names_ok (crypt w4)" "\<And>line. nvs_strings w4 (lit ''authorized_key'') = Some line \<Longrightarrow> 0 \<notin> set line"
      using k4 assms(4,5) by (simp_all add: auth_kept_def)
    have five: "wf_buf b5 \<and> auth_kept w4 w5 \<and> (v5 = Authorized \<longrightarrow> auth_evidence p w4)"
    proof (cases "eq = 0")
      case True
      then show ?thesis using v(1) wf3 by auto
    next
      case False
      then have "auth_publickey p pk0 sig0 b3 b2 pos w4 = Inr (v5, b5, b5', w5)" using v(1) by simp
      from auth_publickey_sound [OF this wf3 assms(3) names]
      have a: "wf_buf b5" "auth_kept w4 w5" "v5 = Authorized \<longrightarrow> (\<exists>n > 0. auth_ok p w4 (take n (bdata b3)))" by simp_all
      have "auth_evidence p w4" if "auth_ok p w4 (take n (bdata b3))" "0 < n" for n
        unfolding auth_evidence_def using that hd by (intro exI [of _ "take n (bdata b3)"]) (simp add: hd_take)
      then show ?thesis using a by blast
    qed
    show ?thesis
    proof (cases "v5 = Reject")
      case True
      obtain r6 where "auth_reject b5 w5 = Inr (r6, b', w')" "v = (if r6 then Next else Failed)"
        using v(2) True by (auto simp: bindr_eq_Inr)
      note a = auth_reject_kept [OF this(1)]
      have "wf_buf b'" "auth_kept w w'" using a five auth_kept_trans [OF k4] auth_kept_trans [of w w5 w'] by blast+
      then show ?thesis using \<open>v = (if r6 then Next else Failed)\<close> by simp
    next
      case False
      then have "v5 = v" "b5 = b'" "w5 = w'" using v(2) by simp_all
      moreover have "auth_evidence p w4 = auth_evidence p w" by (rule auth_evidence_kept [OF k4])
      ultimately show ?thesis using five auth_kept_trans [OF k4] by simp
    qed
  qed
qed

lemma auth_loop_sound:
  assumes "auth_loop n p pk0 sig0 b b2 w = Inr (True, b', b2', w')" and "wf_buf b" and "length pk0 = 32"
    and "names_ok (crypt w)" and "\<And>line. nvs_strings w (lit ''authorized_key'') = Some line \<Longrightarrow> 0 \<notin> set line"
  shows "auth_evidence p w"
  using assms
proof (induction n arbitrary: b b2 w)
  case (Suc n)
  obtain v b3 b4 w3 where r: "auth_request p pk0 sig0 b b2 w = Inr (v, b3, b4, w3)"
    using Suc.prems(1) by (auto simp: bindr_eq_Inr)
  note s = auth_request_sound [OF r Suc.prems(2-5)]
  show ?case
  proof (cases "v = Authorized")
    case True
    then show ?thesis using s by simp
  next
    case False
    have "auth_loop n p pk0 sig0 b3 b4 w3 = Inr (True, b', b2', w')"
      using Suc.prems(1) r False by (cases v) auto
    moreover have "crypt w3 = crypt w" "nvs_strings w3 = nvs_strings w" using s by (simp_all add: auth_kept_def)
    ultimately have "auth_evidence p w3" using Suc.IH [of b3 b4 w3] s Suc.prems(3-5) by simp
    then show ?thesis using s auth_evidence_kept by blast
  qed
qed simp

lemma auth_service_kept:
  assumes "auth_service b w = Inr (r, b', w')" and "wf_buf b"
  shows "wf_buf b' \<and> auth_kept w w' \<or> \<not> r"
proof (cases r)
  case True
  obtain b1 r2 b2 w2 where s: "buf_purge b = Inr b1" "packet_getall b1 SSH_MSG_SERVICE_REQUEST w = Inr (r2, b2, w2)"
    using assms(1) by (auto simp: auth_service_def bindr_eq_Inr)
  have wf2: "wf_buf b2" using packet_getall_wf(1) [OF s(2) put_wf(6) [OF assms(2) s(1)]] .
  obtain m w3 where q: "wr1 (bmem b2) 0 SSH_MSG_SERVICE_ACCEPT = Inr m" "b' = b2\<lparr>bmem := m\<rparr>" "packet_put b' w2 = Inr w3"
    "packet_sendall w3 = Inr (r, w')"
    using assms(1) s True by (auto simp: auth_service_def bindr_eq_Inr Let_def split: if_splits)
  have "wf_buf b'" using wf_buf_bmem [OF wf2 wr1_length [OF q(1)]] q(2) by simp
  moreover have "auth_kept w w'"
    using kept_getall [OF s(2)] kept_put [OF q(3)] kept_sendall [OF q(4)] kept_trans kept_auth by blast
  ultimately show ?thesis by simp
qed simp

text \<open>The same for the whole exchange, whatever its result.\<close>

lemma auth_publickey_kept: "auth_publickey p pk0 sig0 b b2 pos w = Inr (v, b', b2', w') \<Longrightarrow> auth_kept w w'"
proof -
  assume run: "auth_publickey p pk0 sig0 b b2 pos w = Inr (v, b', b2', w')"
  obtain pos1 fs pos2 len found where s: "packetparser_uint8 (bmem b) (blen b) pos = Inr (pos1, fs)"
    "skip_string b pos1 = Inr (pos2, len)" "rd1 (bmem b) pos2 = Inr 0"
    "table_find ky_name (\<lambda>k. ky_flagclient k \<noteq> 0) (keys (crypt w)) 0 (string_at b pos2 len) len = Inr found"
    using run by (auto simp: auth_publickey_def bindr_eq_Inr split: if_splits)
  note rest = run [unfolded auth_publickey_def s bindr_Inr prod.case, simplified]
  show ?thesis
  proof (cases "found = None \<or> (\<exists>j k. found = Some (j, k) \<and> ky_sign k = None)")
    case False
    then obtain j k f where k: "found = Some (j, k)" "ky_sign k = Some f" by auto
    obtain pos3 len3 pk where p: "skip_string b pos2 = Inr (pos3, len3)"
      "ed25519_parsesignpk pk0 (string_at b pos3 len3) len3 = Inr (True, pk)"
      using rest k by (auto simp: bindr_eq_Inr split: if_splits)
    note rest2 = rest [unfolded k p, simplified]
    show ?thesis
    proof (cases "fs = 0")
      case True
      obtain b6 w6 r where q: "packet_put b6 w = Inr w6" "packet_sendall w6 = Inr (r, w')"
        using rest2 True k p by (auto simp: bindr_eq_Inr)
      show ?thesis using kept_put [OF q(1)] kept_sendall [OF q(2)] kept_trans kept_auth by blast
    next
      case False
      then show ?thesis using rest2 k p by (auto simp: bindr_eq_Inr dest: subprocess_auth_kept)
    qed
  qed (use rest in auto)
qed

lemma auth_request_kept: "auth_request p pk0 sig0 b b2 w = Inr (v, b', b2', w') \<Longrightarrow> auth_kept w w'"
proof -
  assume run: "auth_request p pk0 sig0 b b2 w = Inr (v, b', b2', w')"
  obtain b1 r b3 w3 where s: "buf_purge b = Inr b1" "packet_getall b1 SSH_MSG_USERAUTH_REQUEST w = Inr (r, b3, w3)"
    using run by (auto simp: auth_request_def bindr_eq_Inr)
  have k3: "auth_kept w w3" using kept_getall [OF s(2)] by (rule kept_auth)
  note rest = run [unfolded auth_request_def s bindr_Inr prod.case]
  show ?thesis
  proof (cases r)
    case False
    then show ?thesis using rest k3 by auto
  next
    case True
    obtain pos len w4 where h: "auth_head b3 w3 = Inr (pos, len, w4)" using rest True by (auto simp: bindr_eq_Inr)
    have k4: "auth_kept w w4" using k3 auth_head_kept [OF h] auth_kept_trans by blast
    obtain eq v5 b5 b5' w5 where v: "(if eq \<noteq> (0 :: int) then auth_publickey p pk0 sig0 b3 b2 pos w4 else Inr (Reject, b3, b2, w4)) = Inr (v5, b5, b5', w5)"
      "(if v5 = Reject then bindr (auth_reject b5 w5) (\<lambda>(r, b, w). Inr (if r then Next else Failed, b, b5', w))
        else Inr (v5, b5, b5', w5)) = Inr (v, b', b2', w')"
      using rest True h unfolding bindr_eq_Inr by (fastforce simp: bindr_eq_Inr)
    have "auth_kept w4 w5" using v(1) auth_publickey_kept by (auto split: if_splits)
    moreover have "auth_kept w5 w'"
      using v(2) by (auto simp: auth_reject_def bindr_eq_Inr intro: kept_auth kept_trans [OF kept_put kept_sendall] split: if_splits)
    ultimately show ?thesis using k4 auth_kept_trans by blast
  qed
qed

lemma auth_loop_kept: "auth_loop n p pk0 sig0 b b2 w = Inr (r, b', b2', w') \<Longrightarrow> auth_kept w w'"
proof (induction n arbitrary: b b2 w)
  case (Suc n)
  obtain v b3 b4 w3 where q: "auth_request p pk0 sig0 b b2 w = Inr (v, b3, b4, w3)"
    using Suc.prems by (auto simp: bindr_eq_Inr)
  note k = auth_request_kept [OF q]
  show ?case using Suc.prems q k Suc.IH [of b3 b4 w3] auth_kept_trans [OF k] by (cases v) auto
qed simp

lemma packet_auth_kept:
  assumes "packet_auth p pk0 sig0 b b2 w = Inr (r, b', b2', w')"
  shows "auth_kept w w'"
proof -
  obtain r1 b1 w1 where s: "auth_service b w = Inr (r1, b1, w1)"
    using assms by (auto simp: packet_auth_def bindr_eq_Inr split: if_splits)
  have k1: "auth_kept w w1"
    using s by (auto simp: auth_service_def bindr_eq_Inr Let_def split: if_splits
        intro: kept_auth kept_getall kept_trans [OF kept_trans [OF kept_getall kept_put] kept_sendall])
  show ?thesis
  proof (cases r1)
    case True
    obtain r2 b3 b4 w3 where l: "auth_loop 32 p pk0 sig0 b1 b2 w1 = Inr (r2, b3, b4, w3)"
      using assms s True by (auto simp: packet_auth_def bindr_eq_Inr split: if_splits)
    have "auth_kept w3 w'"
      using assms s True l by (auto simp: packet_auth_def auth_accept_def bindr_eq_Inr split: if_splits
          intro: kept_auth kept_trans [OF kept_put kept_sendall])
    then show ?thesis using k1 auth_loop_kept [OF l] auth_kept_trans by blast
  qed (use assms s k1 in \<open>auto simp: packet_auth_def\<close>)
qed

lemma packet_auth_evidence:
  assumes "packet_auth p pk0 sig0 b b2 w = Inr (True, b', b2', w')" and "wf_buf b" and "length pk0 = 32"
    and "names_ok (crypt w)" and "\<And>line. nvs_strings w (lit ''authorized_key'') = Some line \<Longrightarrow> 0 \<notin> set line"
  shows "auth_evidence p w"
proof -
  obtain b1 w1 where s: "auth_service b w = Inr (True, b1, w1)"
    using assms(1) by (auto simp: packet_auth_def bindr_eq_Inr split: if_splits)
  note k = auth_service_kept [OF s assms(2)]
  obtain b3 b4 w3 where l: "auth_loop 32 p pk0 sig0 b1 b2 w1 = Inr (True, b3, b4, w3)"
    using assms(1) s by (auto simp: packet_auth_def bindr_eq_Inr split: if_splits)
  have "auth_evidence p w1"
    using auth_loop_sound [OF l _ assms(3)] k assms(4,5) by (simp add: auth_kept_def)
  then show ?thesis using k auth_evidence_kept by blast
qed

section \<open>Properties\<close>

lemma wf_names_ok: "wf_sshc s \<Longrightarrow> names_ok s"
proof -
  assume "wf_sshc s"
  then have m: "map key_static (keys s) = sshcrypto_keys" by (simp add: wf_sshc_def)
  show ?thesis
    unfolding names_ok_def
  proof (intro ballI allI impI)
    fix k n assume k: "k \<in> set (keys s)" "ky_name k = Some n"
    have "Some n = ky_name (key_static k)" using k(2) by (simp add: key_static_def)
    moreover have "key_static k \<in> set sshcrypto_keys" unfolding m [symmetric] using k(1) by simp
    ultimately have "Some n \<in> ky_name ` set sshcrypto_keys" by (rule image_eqI)
    then have "n = cstr ''ssh-ed25519''" by (simp add: sshcrypto_keys_def key_zero_def)
    then show "\<exists>name. n = name @ [0] \<and> 0 \<notin> set name"
      by (intro exI [of _ "lit ''ssh-ed25519''"]) (simp add: cstr_def)
  qed
qed


text \<open>Without a stored key nobody is authenticated, whatever the client sends.\<close>

definition no_key_host :: "rxev list \<Rightarrow> host" where
  "no_key_host rx = net.extend ((net_start rx [])\<lparr>crypt := sshc_start, sessionid := replicate 64 3\<rparr>)
     \<lparr>nvs_initialized = True, nvs_script = [], nvs_blobs = (\<lambda>_. None), nvs_strings = (\<lambda>_. None)\<rparr>"


end
