(* ===== verification/Channel.thy ===== *)
theory Channel
  imports Kex_Correct Auth
begin

text \<open>
  The session channel: port_channel.c (but for the command interpreter), channel_subsystem.c, ssh.c,
  packet_channel_open.c, packet_channel_recv.c, packet_channel_send.c and packet_channel_request.c.
\<close>

section \<open>The state\<close>

text \<open>The message numbers of ssh.h the channel uses.\<close>

abbreviation SSH_MSG_CHANNEL_OPEN :: u8 where "SSH_MSG_CHANNEL_OPEN \<equiv> 90"
abbreviation SSH_MSG_CHANNEL_OPEN_CONFIRMATION :: u8 where "SSH_MSG_CHANNEL_OPEN_CONFIRMATION \<equiv> 91"
abbreviation SSH_MSG_CHANNEL_OPEN_FAILURE :: u8 where "SSH_MSG_CHANNEL_OPEN_FAILURE \<equiv> 92"
abbreviation SSH_MSG_CHANNEL_WINDOW_ADJUST :: u8 where "SSH_MSG_CHANNEL_WINDOW_ADJUST \<equiv> 93"
abbreviation SSH_MSG_CHANNEL_DATA :: u8 where "SSH_MSG_CHANNEL_DATA \<equiv> 94"
abbreviation SSH_MSG_CHANNEL_EXTENDED_DATA :: u8 where "SSH_MSG_CHANNEL_EXTENDED_DATA \<equiv> 95"
abbreviation SSH_MSG_CHANNEL_EOF :: u8 where "SSH_MSG_CHANNEL_EOF \<equiv> 96"
abbreviation SSH_MSG_CHANNEL_CLOSE :: u8 where "SSH_MSG_CHANNEL_CLOSE \<equiv> 97"
abbreviation SSH_MSG_CHANNEL_REQUEST :: u8 where "SSH_MSG_CHANNEL_REQUEST \<equiv> 98"
abbreviation SSH_MSG_CHANNEL_SUCCESS :: u8 where "SSH_MSG_CHANNEL_SUCCESS \<equiv> 99"
abbreviation SSH_MSG_CHANNEL_FAILURE :: u8 where "SSH_MSG_CHANNEL_FAILURE \<equiv> 100"
abbreviation SSH_OPEN_ADMINISTRATIVELY_PROHIBITED :: u32 where "SSH_OPEN_ADMINISTRATIVELY_PROHIBITED \<equiv> 1"

definition CHANNEL_BUFSIZE :: int where
  "CHANNEL_BUFSIZE = 131072"

definition CHANNEL_SUBSYSTEM_MAX :: nat where
  "CHANNEL_SUBSYSTEM_MAX = 64"

text \<open>
  struct channel, the table of subsystems, and the environment: the addresses of the connection, the
  results of the socket, allocation and task calls, the open descriptors, what the pipes from and to
  the child do, what was written to the child, and the tasks started (two descriptors and a command).
\<close>

record sess = host +
  ch_maxpacket :: u32
  ch_id :: u32
  ch_localwindow :: u32
  ch_remotewindow :: u32
  ch_buf0 :: bytes
  ch_len0 :: int
  ch_pid :: int
  ch_fd0 :: int
  ch_fd1 :: int
  ch_fd2 :: int
  ch_localip :: bytes
  ch_localport :: bytes
  ch_remoteip :: bytes
  ch_remoteport :: bytes
  ch_user :: bytes
  ch_flagterminal :: bool
  ch_master :: int
  ch_slave :: int
  ch_remoteeof :: bool
  subsystems :: "bytes list"
  conninfo :: "bytes \<times> bytes \<times> bytes \<times> bytes"
  sysrets :: "int list"
  open_fds :: "int list"
  child_rx :: "rxev list"
  child_tx :: "txev list"
  child_got :: bytes
  tasks :: "(int \<times> int \<times> bytes option) list"

text \<open>The result of the next call (without a script it fails), one that makes a descriptor, and \<open>close\<close>.\<close>

definition sys_call :: "'a sess_scheme \<Rightarrow> int \<times> 'a sess_scheme" where
  "sys_call w = (case sysrets w of [] \<Rightarrow> (-1, w) | r # rs \<Rightarrow> (r, w\<lparr>sysrets := rs\<rparr>))"

definition sys_open :: "'a sess_scheme \<Rightarrow> int \<times> 'a sess_scheme" where
  "sys_open w = (let (r, w) = sys_call w in (r, if r < 0 then w else w\<lparr>open_fds := r # open_fds w\<rparr>))"

definition sys_close :: "int \<Rightarrow> 'a sess_scheme \<Rightarrow> 'a sess_scheme" where
  "sys_close fd w = w\<lparr>open_fds := remove1 fd (open_fds w)\<rparr>"

section \<open>port_channel.c\<close>

text \<open>The calls of \<open>socketpair_tcp\<close> between the two sockets: \<open>bind\<close>, \<open>listen\<close>, \<open>getsockname\<close>.\<close>

definition socketpair_listen :: "'a sess_scheme \<Rightarrow> bool \<times> 'a sess_scheme" where
  "socketpair_listen w =
     (let (r, w) = sys_call w in
      if r < 0 then (False, w)
      else let (r, w) = sys_call w in
        if r < 0 then (False, w)
        else let (r, w) = sys_call w in (\<not> r < 0, w))"

definition socketpair_tcp :: "'a sess_scheme \<Rightarrow> (int \<times> int) option \<times> 'a sess_scheme" where
  "socketpair_tcp w =
     (let (listener, w) = sys_open w in
      if listener < 0 then (None, w)
      else let (ok, w) = socketpair_listen w in
        if \<not> ok then (None, sys_close listener w)
        else let (client, w) = sys_open w in
          if client < 0 then (None, sys_close listener w)
          else let (r, w) = sys_call w in
            if r < 0 then (None, sys_close client (sys_close listener w))
            else let (accepted, w) = sys_open w in
              if accepted < 0 then (None, sys_close client (sys_close listener w))
              else (Some (client, accepted), sys_close listener w))"

text \<open>The result is 1 or the run has ended; \<open>localwindow\<close> is returned.\<close>

definition channel_open :: "bytes \<Rightarrow> u32 \<Rightarrow> u32 \<Rightarrow> u32 \<Rightarrow> 'a sess_scheme \<Rightarrow> (u32 \<times> 'a sess_scheme) res" where
  "channel_open user ident remotewindow maxpacket w =
     (if maxpacket = 0 then Inl Einval
      else if remotewindow = 0 then Inl Einval
      else if ch_maxpacket w \<noteq> 0 then Inl Eproto
      else if ch_pid w \<noteq> 0 then Inl Eproto
      else
        bindr (str_copyn (ch_user w) (int (length (ch_user w))) user) (\<lambda>(r, u).
        if r = 0 then Inl Enomem
        else
          let w = w\<lparr>ch_user := u, ch_id := ident, ch_maxpacket := maxpacket, ch_remotewindow := remotewindow,
                    ch_localwindow := word_of_int CHANNEL_BUFSIZE\<rparr>;
              (lip, lport, rip, rport) = conninfo w;
              w = w\<lparr>ch_localip := lip, ch_localport := lport, ch_remoteip := rip, ch_remoteport := rport\<rparr>
          in bindr (purge (ch_buf0 w) 0 CHANNEL_BUFSIZE) (\<lambda>m.
               Inr (word_of_int CHANNEL_BUFSIZE, w\<lparr>ch_buf0 := m\<rparr>))))"

definition channel_openterminal :: "bytes \<Rightarrow> u32 \<Rightarrow> u32 \<Rightarrow> u32 \<Rightarrow> u32 \<Rightarrow> bool" where
  "channel_openterminal name a b x y = False"

definition channel_ptyresize :: "u32 \<Rightarrow> u32 \<Rightarrow> u32 \<Rightarrow> u32 \<Rightarrow> 'a sess_scheme \<Rightarrow> 'a sess_scheme" where
  "channel_ptyresize a b x y w = w"

definition channel_env :: "bytes \<Rightarrow> bytes \<Rightarrow> bool" where
  "channel_env x y = True"

text \<open>\<open>strdup\<close>: a copy of the string, or a null pointer when there is no memory.\<close>

definition strdup :: "bytes \<Rightarrow> 'a sess_scheme \<Rightarrow> (bytes option \<times> 'a sess_scheme) res" where
  "strdup s w =
     bindr (str_len s) (\<lambda>n. let (r, w) = sys_call w in Inr (if r < 0 then None else Some (take (nat n) s), w))"

text \<open>\<open>cmd\<close> is the rest of the array the pointer points into, or a null pointer.\<close>

definition channel_exec :: "bytes option \<Rightarrow> 'a sess_scheme \<Rightarrow> (bool \<times> 'a sess_scheme) res" where
  "channel_exec cmd w =
     (if ch_maxpacket w = 0 then Inl Eproto
      else if ch_pid w \<noteq> 0 then Inl Eproto
      else
        let (p, w) = socketpair_tcp w in
        case p of
          None \<Rightarrow> Inr (False, w)
        | Some (in0, in1) \<Rightarrow>
            let (q, w) = socketpair_tcp w in
            case q of
              None \<Rightarrow> Inr (False, sys_close in1 (sys_close in0 w))
            | Some (out0, out1) \<Rightarrow>
                let (m, w) = sys_call w in
                if m < 0 then Inr (False, sys_close out1 (sys_close out0 (sys_close in1 (sys_close in0 w))))
                else
                  bindr (case cmd of None \<Rightarrow> Inr (None, w) | Some s \<Rightarrow> strdup s w) (\<lambda>(c, w).
                  let (t, w) = sys_call w in
                  if t < 0 then Inr (False, sys_close out1 (sys_close out0 (sys_close in1 (sys_close in0 w))))
                  else Inr (True, w\<lparr>tasks := (in1, out1, c) # tasks w, ch_fd0 := in0, ch_fd1 := out0, ch_fd2 := -1,
                                    ch_len0 := 0, ch_pid := 9999\<rparr>)))"

text \<open>\<open>buf\<close> points to \<open>x\<close>; it is not null.\<close>

definition channel_put :: "bytes \<Rightarrow> int \<Rightarrow> 'a sess_scheme \<Rightarrow> 'a sess_scheme res" where
  "channel_put x len w =
     (if ch_maxpacket w = 0 then Inl Eproto
      else if ch_pid w \<le> 0 then Inl Eproto
      else if ch_fd0 w = -1 then Inl Eproto
      else if len < 0 then Inl Einval
      else if ch_len0 w + len > CHANNEL_BUFSIZE then Inl Enomem
      else
        bindr (byte_copy (ch_buf0 w) (ch_len0 w) len x 0) (\<lambda>m.
          Inr (w\<lparr>ch_buf0 := m, ch_len0 := ch_len0 w + len, ch_localwindow := ch_localwindow w - word_of_int len\<rparr>)))"

definition channel_puteof :: "'a sess_scheme \<Rightarrow> 'a sess_scheme res" where
  "channel_puteof w =
     (if ch_maxpacket w = 0 then Inl Eproto
      else if ch_pid w = 0 then Inl Eproto
      else if ch_fd0 w = -1 then Inl Eproto
      else
        let w = w\<lparr>ch_remoteeof := True\<rparr> in
        Inr (if ch_len0 w = 0 then (sys_close (ch_fd0 w) w)\<lparr>ch_fd0 := -1\<rparr> else w))"

definition channel_putisready :: "'a sess_scheme \<Rightarrow> bool" where
  "channel_putisready w \<longleftrightarrow>
     (if ch_maxpacket w = 0 then False
      else if ch_pid w \<le> 0 then False
      else if ch_fd0 w = -1 then False
      else CHANNEL_BUFSIZE > ch_len0 w)"

text \<open>
  \<open>channel_read(m + off, len)\<close>: the result, the array and the state. A read of no bytes returns 0.
\<close>

definition channel_eof1 :: "'a sess_scheme \<Rightarrow> 'a sess_scheme" where
  "channel_eof1 w = (sys_close (ch_fd1 w) w)\<lparr>ch_fd1 := -1\<rparr>"

definition channel_read :: "bytes \<Rightarrow> int \<Rightarrow> int \<Rightarrow> 'a sess_scheme \<Rightarrow> (int \<times> bytes \<times> 'a sess_scheme) res" where
  "channel_read m off len w =
     (if ch_maxpacket w = 0 then Inl Eproto
      else if ch_pid w \<le> 0 then Inl Eproto
      else if ch_fd1 w = -1 then Inl Eproto
      else if len < 0 then Inl Einval
      else if ch_remotewindow w \<le> 0 then Inr (0, m, w)
      else
        let r = len;
            r = (if r > 1048576 then 1048576 else r);
            r = (if r > uint (ch_remotewindow w) then uint (ch_remotewindow w) else r)
        in if r = 0 then Inr (0, m, channel_eof1 w)
           else case child_rx w of
             [] \<Rightarrow> Inl Blocked
           | e # es \<Rightarrow>
               (case e of
                  Rx_again \<Rightarrow> Inr (0, m, w\<lparr>child_rx := es\<rparr>)
                | Rx_error \<Rightarrow> Inr (0, m, channel_eof1 (w\<lparr>child_rx := es\<rparr>))
                | Rx xs \<Rightarrow>
                    if xs = [] then Inr (0, m, channel_eof1 (w\<lparr>child_rx := es\<rparr>))
                    else
                      let x = take (nat r) xs in
                      bindr (wr m off x) (\<lambda>m.
                        Inr (int (length x), m, w\<lparr>child_rx := rx_rest (drop (nat r) xs) es,
                                                  ch_remotewindow := ch_remotewindow w - of_nat (length x)\<rparr>))))"

definition channel_extendedread :: "bytes \<Rightarrow> int \<Rightarrow> int \<Rightarrow> 'a sess_scheme \<Rightarrow> int" where
  "channel_extendedread m off len w = (if ch_fd2 w = -1 then 0 else 0)"

definition channel_readisready :: "'a sess_scheme \<Rightarrow> bool" where
  "channel_readisready w \<longleftrightarrow>
     (if ch_maxpacket w = 0 \<or> ch_pid w = 0 then False
      else if ch_fd1 w = -1 then False
      else ch_remotewindow w > 0)"

definition channel_extendedreadisready :: bool where
  "channel_extendedreadisready = False"

definition channel_eof0 :: "'a sess_scheme \<Rightarrow> 'a sess_scheme" where
  "channel_eof0 w = (sys_close (ch_fd0 w) w)\<lparr>ch_fd0 := -1\<rparr>"

definition channel_write :: "'a sess_scheme \<Rightarrow> (bool \<times> 'a sess_scheme) res" where
  "channel_write w =
     (if ch_maxpacket w = 0 then Inl Eproto
      else if ch_pid w \<le> 0 then Inl Eproto
      else if ch_fd0 w = -1 then Inl Eproto
      else if ch_len0 w \<le> 0 then Inr (True, w)
      else case child_tx w of
        [] \<Rightarrow> Inl Blocked
      | Tx_again # es \<Rightarrow> Inr (True, w\<lparr>child_tx := es\<rparr>)
      | Tx_error # es \<Rightarrow> Inr (False, channel_eof0 (w\<lparr>child_tx := es\<rparr>))
      | Tx n # es \<Rightarrow>
          let k = min (int n) (ch_len0 w); w = w\<lparr>child_tx := es\<rparr> in
          if k \<le> 0 then Inr (False, channel_eof0 w)
          else
            bindr (rd (ch_buf0 w) 0 k) (\<lambda>x.
            bindr (byte_move (ch_buf0 w) 0 (ch_len0 w - k) k) (\<lambda>m.
            bindr (purge m (ch_len0 w - k) k) (\<lambda>m.
            let w = w\<lparr>ch_buf0 := m, child_got := child_got w @ x, ch_len0 := ch_len0 w - k\<rparr>
            in Inr (True, if ch_remoteeof w \<and> ch_len0 w = 0 then channel_eof0 w else w)))))"

definition channel_writeisready :: "'a sess_scheme \<Rightarrow> bool" where
  "channel_writeisready w \<longleftrightarrow>
     (if ch_maxpacket w = 0 then False
      else if ch_pid w \<le> 0 then False
      else if ch_fd0 w = -1 then False
      else ch_len0 w > 0)"

definition channel_iseof :: "'a sess_scheme \<Rightarrow> bool" where
  "channel_iseof w \<longleftrightarrow>
     (if ch_maxpacket w = 0 then False
      else if ch_pid w = 0 then False
      else if ch_pid w = -1 then True
      else ch_fd1 w = -1 \<and> ch_fd2 w = -1)"

text \<open>The result, and the exit signal and code written, both 0.\<close>

definition channel_waitnohang :: "'a sess_scheme \<Rightarrow> (bool \<times> int \<times> int \<times> 'a sess_scheme) res" where
  "channel_waitnohang w =
     (if ch_maxpacket w = 0 then Inl Eproto
      else if ch_pid w \<le> 0 then Inr (False, 0, 0, w)
      else Inr (True, 0, 0, w\<lparr>ch_pid := -1\<rparr>))"

text \<open>The whole struct zeroed; the sizes of its arrays are those of channel.h.\<close>

definition channel_zero :: "'a sess_scheme \<Rightarrow> 'a sess_scheme" where
  "channel_zero w = w\<lparr>ch_maxpacket := 0, ch_id := 0, ch_localwindow := 0, ch_remotewindow := 0,
     ch_buf0 := replicate (nat CHANNEL_BUFSIZE) 0, ch_len0 := 0, ch_pid := 0, ch_fd0 := 0, ch_fd1 := 0, ch_fd2 := 0,
     ch_localip := replicate 46 0, ch_localport := replicate 6 0, ch_remoteip := replicate 46 0,
     ch_remoteport := replicate 6 0, ch_user := replicate 257 0, ch_flagterminal := False, ch_master := 0,
     ch_slave := 0, ch_remoteeof := False\<rparr>"

definition channel_purge :: "'a sess_scheme \<Rightarrow> 'a sess_scheme" where
  "channel_purge w =
     (let w = (if ch_fd0 w \<noteq> -1 then (sys_close (ch_fd0 w) w)\<lparr>ch_fd0 := -1\<rparr> else w);
          w = (if ch_fd1 w \<noteq> -1 then (sys_close (ch_fd1 w) w)\<lparr>ch_fd1 := -1\<rparr> else w);
          w = (if ch_fd2 w \<noteq> -1 then (sys_close (ch_fd2 w) w)\<lparr>ch_fd2 := -1\<rparr> else w)
      in channel_zero w)"

definition channel_init :: "'a sess_scheme \<Rightarrow> 'a sess_scheme" where
  "channel_init w = (channel_zero w)\<lparr>ch_maxpacket := 0, ch_remoteeof := False, ch_len0 := 0, ch_pid := 0,
     ch_fd0 := -1, ch_fd1 := -1, ch_fd2 := -1, ch_flagterminal := False, ch_master := -1, ch_slave := -1\<rparr>"

definition channel_incrementremotewindow :: "u32 \<Rightarrow> 'a sess_scheme \<Rightarrow> 'a sess_scheme" where
  "channel_incrementremotewindow x w = w\<lparr>ch_remotewindow := ch_remotewindow w + x\<rparr>"

definition channel_incrementlocalwindow :: "u32 \<Rightarrow> 'a sess_scheme \<Rightarrow> 'a sess_scheme" where
  "channel_incrementlocalwindow x w = w\<lparr>ch_localwindow := ch_localwindow w + x\<rparr>"

section \<open>channel_subsystem.c\<close>

text \<open>The pointers of the table that are set, and whether there was room for another.\<close>

definition channel_subsystem_add :: "bytes \<Rightarrow> bytes list \<Rightarrow> bool \<times> bytes list" where
  "channel_subsystem_add x subs = (if length subs \<ge> CHANNEL_SUBSYSTEM_MAX then (False, subs) else (True, subs @ [x]))"

primrec channel_subsystem_find :: "bytes \<Rightarrow> int \<Rightarrow> bytes list \<Rightarrow> bytes option res" where
  "channel_subsystem_find x len [] = Inr None"
| "channel_subsystem_find x len (s # ss) =
     bindr (str_start s x) (\<lambda>r.
     if r = 0 then channel_subsystem_find x len ss
     else bindr (rd1 s len) (\<lambda>c.
          if c = 61 then Inr (Some (drop (nat (len + 1)) s)) else channel_subsystem_find x len ss))"

definition channel_subsystem_get :: "bytes \<Rightarrow> bytes list \<Rightarrow> bytes option res" where
  "channel_subsystem_get x subs = bindr (str_len x) (\<lambda>len. channel_subsystem_find x len subs)"

section \<open>ssh.c\<close>

text \<open>
  The names of the signals. Which \<open>SIG\<close> macros the platform's signal.h defines, and their numbers,
  is the argument \<open>sig\<close>.
\<close>

definition sigstr_table :: "(string \<times> string) list" where
  "sigstr_table =
     [(''SIGABRT'', ''ABRT''), (''SIGALRM'', ''ALRM''), (''SIGFPE'', ''FPE''), (''SIGHUP'', ''HUP''), (''SIGILL'', ''ILL''),
      (''SIGINT'', ''INT''), (''SIGKILL'', ''KILL''), (''SIGPIPE'', ''PIPE''), (''SIGQUIT'', ''QUIT''),
      (''SIGSEGV'', ''SEGV''), (''SIGTERM'', ''TERM''), (''SIGUSR1'', ''USR1''), (''SIGUSR2'', ''USR2'')]"

definition sigstrlong_table :: "(string \<times> string) list" where
  "sigstrlong_table =
     [(''SIGABRT'', ''SIGABRT (abort)''), (''SIGALRM'', ''SIGALRM (alarm clock)''),
      (''SIGFPE'', ''SIGFPE (floating-point exception)''), (''SIGILL'', ''SIGILL (illegal instruction)''),
      (''SIGINT'', ''SIGINT (interrupt)''), (''SIGKILL'', ''SIGKILL (kill, unblockable)''),
      (''SIGPIPE'', ''SIGPIPE (broken pipe)''), (''SIGQUIT'', ''SIGQUIT (quit)''),
      (''SIGSEGV'', ''SIGSEGV (segment violation)''), (''SIGTERM'', ''SIGTERM (termination)''),
      (''SIGUSR1'', ''SIGUSR1 (user defined signal 1)''), (''SIGUSR2'', ''SIGUSR2 (user defined signal 2)'')]"

primrec sig_lookup :: "(string \<Rightarrow> int option) \<Rightarrow> (string \<times> string) list \<Rightarrow> string \<Rightarrow> int \<Rightarrow> string" where
  "sig_lookup sig [] other i = other"
| "sig_lookup sig (e # es) other i = (if sig (fst e) = Some i then snd e else sig_lookup sig es other i)"

definition ssh_sigstr :: "(string \<Rightarrow> int option) \<Rightarrow> int \<Rightarrow> bytes" where
  "ssh_sigstr sig i = cstr (sig_lookup sig sigstr_table ''UNKNOWN'' i)"

definition ssh_sigstrlong :: "(string \<Rightarrow> int option) \<Rightarrow> int \<Rightarrow> bytes" where
  "ssh_sigstrlong sig i = cstr (sig_lookup sig sigstrlong_table ''UNKNOWN SIGNAL'' i)"

section \<open>packet_channel_open.c\<close>

definition channel_confirm :: "u32 \<Rightarrow> u32 \<Rightarrow> buf \<Rightarrow> 'a sess_scheme \<Rightarrow> (buf \<times> 'a sess_scheme) res" where
  "channel_confirm ident localwindow b2 w =
     bindr (buf_purge b2) (\<lambda>b2.
     bindr (buf_putnum8 b2 SSH_MSG_CHANNEL_OPEN_CONFIRMATION) (\<lambda>b2.
     bindr (buf_putnum32 b2 ident) (\<lambda>b2.
     bindr (buf_putnum32 b2 ident) (\<lambda>b2.
     bindr (buf_putnum32 b2 localwindow) (\<lambda>b2.
     bindr (buf_putnum32 b2 (of_nat PACKET_LIMIT)) (\<lambda>b2.
     bindr (packet_put b2 w) (\<lambda>w.
     bindr (buf_purge b2) (\<lambda>b2. Inr (b2, w)))))))))"

definition channel_refuse :: "u32 \<Rightarrow> buf \<Rightarrow> buf \<Rightarrow> 'a sess_scheme \<Rightarrow> (buf \<times> buf \<times> 'a sess_scheme) res" where
  "channel_refuse ident b1 b2 w =
     bindr (buf_purge b2) (\<lambda>b2.
     bindr (buf_putnum8 b2 SSH_MSG_CHANNEL_OPEN_FAILURE) (\<lambda>b2.
     bindr (buf_putnum32 b2 ident) (\<lambda>b2.
     bindr (buf_putnum32 b2 SSH_OPEN_ADMINISTRATIVELY_PROHIBITED) (\<lambda>b2.
     bindr (buf_putstring b2 (cstr ''only one 'session' channel allowed'')) (\<lambda>b2.
     bindr (buf_putstring b2 (cstr [])) (\<lambda>b2.
     bindr (packet_put b2 w) (\<lambda>w.
     bindr (buf_purge b1) (\<lambda>b1.
     bindr (buf_purge b2) (\<lambda>b2. Inr (b1, b2, w))))))))))"

text \<open>The handlers return 1 whenever they return; the result is the two buffers and the state.\<close>

definition packet_channel_open :: "buf \<Rightarrow> buf \<Rightarrow> 'a sess_scheme \<Rightarrow> (buf \<times> buf \<times> 'a sess_scheme) res" where
  "packet_channel_open b1 b2 w =
     bindr (packetparser_uint8 (bmem b1) (blen b1) 0) (\<lambda>(pos, ch).
     if ch \<noteq> SSH_MSG_CHANNEL_OPEN then Inl Eproto
     else
     bindr (packetparser_uint32 (bmem b1) (blen b1) pos) (\<lambda>(pos, chanlen).
     let chan = drop (nat pos) (bmem b1) in
     bindr (packetparser_skip (bmem b1) (blen b1) pos (uint chanlen)) (\<lambda>pos.
     bindr (packetparser_uint32 (bmem b1) (blen b1) pos) (\<lambda>(pos, ident).
     bindr (packetparser_uint32 (bmem b1) (blen b1) pos) (\<lambda>(pos, remotewindow).
     bindr (packetparser_uint32 (bmem b1) (blen b1) pos) (\<lambda>(pos, maxpacket).
     let maxpacket = (if maxpacket > of_nat PACKET_LIMIT then of_nat PACKET_LIMIT else maxpacket) in
     bindr (str_equaln chan (uint chanlen) (cstr ''session'')) (\<lambda>eq.
     if eq \<noteq> 0 then
       bindr (packetparser_end (bmem b1) (blen b1) pos) (\<lambda>_.
       bindr (buf_purge b1) (\<lambda>b1.
       bindr (channel_open (pname w) ident remotewindow maxpacket w) (\<lambda>(localwindow, w).
       bindr (channel_confirm ident localwindow b2 w) (\<lambda>(b2, w). Inr (b1, b2, w)))))
     else channel_refuse ident b1 b2 w)))))))"

section \<open>packet_channel_send.c\<close>

text \<open>The limit of both send functions.\<close>

definition channel_limit :: "'a sess_scheme \<Rightarrow> int" where
  "channel_limit w =
     (if ch_maxpacket w > 0
      then (if ch_maxpacket w < of_nat PACKET_LIMIT then uint (ch_maxpacket w) else int PACKET_LIMIT)
      else int PACKET_LIMIT)"

definition packet_channel_send_data :: "buf \<Rightarrow> 'a sess_scheme \<Rightarrow> (buf \<times> 'a sess_scheme) res" where
  "packet_channel_send_data b w =
     (let limit = channel_limit w in
      bindr (buf_purge b) (\<lambda>b.
      if balloc b \<le> int PACKET_LIMIT then Inl Enomem
      else
      bindr (packet_putisready w) (\<lambda>ready.
      if \<not> ready then Inr (b, w)
      else
      bindr (channel_read (bmem b) 9 (limit - 9) w) (\<lambda>(r, m, w).
      if r = 0 then Inr (b\<lparr>bmem := m\<rparr>, w)
      else
      bindr (wr1 m 0 SSH_MSG_CHANNEL_DATA) (\<lambda>m.
      bindr (wr m 1 (uint32_pack_big (ch_id w))) (\<lambda>m.
      bindr (wr m 5 (uint32_pack_big (word_of_int r))) (\<lambda>m.
      let b = b\<lparr>bmem := m, blen := r + 9\<rparr> in
      bindr (packet_put b w) (\<lambda>w.
      bindr (buf_purge b) (\<lambda>b. Inr (b, w))))))))))"

definition packet_channel_send_extendeddata :: "buf \<Rightarrow> 'a sess_scheme \<Rightarrow> (buf \<times> 'a sess_scheme) res" where
  "packet_channel_send_extendeddata b w =
     (let limit = channel_limit w in
      bindr (buf_purge b) (\<lambda>b.
      if balloc b \<le> int PACKET_LIMIT then Inl Enomem
      else
      bindr (packet_putisready w) (\<lambda>ready.
      if \<not> ready then Inr (b, w)
      else
        let r = channel_extendedread (bmem b) 13 (limit - 13) w in
        if r = 0 then Inr (b, w)
        else
        bindr (wr1 (bmem b) 0 SSH_MSG_CHANNEL_EXTENDED_DATA) (\<lambda>m.
        bindr (wr m 1 (uint32_pack_big (ch_id w))) (\<lambda>m.
        bindr (wr m 5 (uint32_pack_big 1)) (\<lambda>m.
        bindr (wr m 9 (uint32_pack_big (word_of_int r))) (\<lambda>m.
        let b = b\<lparr>bmem := m, blen := r + 13\<rparr> in
        bindr (packet_put b w) (\<lambda>w.
        bindr (buf_purge b) (\<lambda>b. Inr (b, w))))))))))"

definition packet_channel_send_windowadjust :: "buf \<Rightarrow> 'a sess_scheme \<Rightarrow> (buf \<times> 'a sess_scheme) res" where
  "packet_channel_send_windowadjust b w =
     (if ch_len0 w > CHANNEL_BUFSIZE div 2 then Inr (b, w)
      else if uint (ch_localwindow w) > CHANNEL_BUFSIZE div 2 then Inr (b, w)
      else
      bindr (buf_purge b) (\<lambda>b.
      bindr (buf_putnum8 b SSH_MSG_CHANNEL_WINDOW_ADJUST) (\<lambda>b.
      bindr (buf_putnum32 b (ch_id w)) (\<lambda>b.
      let plus = (word_of_int (CHANNEL_BUFSIZE - ch_len0 w - uint (ch_localwindow w)) :: u32) in
      bindr (buf_putnum32 b plus) (\<lambda>b.
      let w = channel_incrementlocalwindow plus w in
      bindr (packet_put b w) (\<lambda>w.
      bindr (buf_purge b) (\<lambda>b. Inr (b, w))))))))"

definition packet_channel_send_eof :: "buf \<Rightarrow> 'a sess_scheme \<Rightarrow> (buf \<times> 'a sess_scheme) res" where
  "packet_channel_send_eof b w =
     (if flageofsent w then Inr (b, w)
      else
      bindr (buf_purge b) (\<lambda>b.
      bindr (buf_putnum8 b SSH_MSG_CHANNEL_EOF) (\<lambda>b.
      bindr (buf_putnum32 b (ch_id w)) (\<lambda>b.
      bindr (packet_put b w) (\<lambda>w.
      bindr (buf_purge b) (\<lambda>b. Inr (b, w\<lparr>flageofsent := True\<rparr>)))))))"

text \<open>The exit message of \<open>packet_channel_send_close\<close>; \<open>sig\<close> as for \<open>ssh_sigstr\<close>.\<close>

definition send_exit :: "(string \<Rightarrow> int option) \<Rightarrow> int \<Rightarrow> int \<Rightarrow> buf \<Rightarrow> 'a sess_scheme \<Rightarrow> (bool \<times> buf \<times> 'a sess_scheme) res" where
  "send_exit sig exitsignal exitcode b w =
     bindr (buf_purge b) (\<lambda>b.
     bindr (buf_putnum8 b SSH_MSG_CHANNEL_REQUEST) (\<lambda>b.
     bindr (buf_putnum32 b (ch_id w)) (\<lambda>b.
     bindr (if exitsignal > 0
            then
              bindr (buf_putstring b (cstr ''exit-signal'')) (\<lambda>b.
              bindr (buf_putnum8 b 0) (\<lambda>b.
              bindr (buf_putstring b (ssh_sigstr sig exitsignal)) (\<lambda>b.
              bindr (buf_putnum8 b 0) (\<lambda>b.
              bindr (buf_putstring b (ssh_sigstrlong sig exitsignal)) (\<lambda>b.
              buf_putstring b (cstr []))))))
            else
              bindr (buf_putstring b (cstr ''exit-status'')) (\<lambda>b.
              bindr (buf_putnum8 b 0) (\<lambda>b.
              buf_putnum32 b (word_of_int exitcode)))) (\<lambda>b.
     bindr (packet_put b w) (\<lambda>w.
     bindr (buf_purge b) (\<lambda>b.
     bindr (packet_sendall w) (\<lambda>(r, w). Inr (r, b, w))))))))"

definition packet_channel_send_close :: "(string \<Rightarrow> int option) \<Rightarrow> buf \<Rightarrow> int \<Rightarrow> int \<Rightarrow> 'a sess_scheme \<Rightarrow>
    (bool \<times> buf \<times> 'a sess_scheme) res" where
  "packet_channel_send_close sig b exitsignal exitcode w =
     bindr (packet_channel_send_eof b w) (\<lambda>(b, w).
     if flagclosesent w then Inr (True, b, w)
     else
     bindr (send_exit sig exitsignal exitcode b w) (\<lambda>(r, b, w).
     if \<not> r then Inr (False, b, w)
     else
     bindr (buf_purge b) (\<lambda>b.
     bindr (buf_putnum8 b SSH_MSG_CHANNEL_CLOSE) (\<lambda>b.
     bindr (buf_putnum32 b (ch_id w)) (\<lambda>b.
     bindr (packet_put b w) (\<lambda>w.
     bindr (packet_sendall w) (\<lambda>(r, w).
     if \<not> r then Inr (False, b, w)
     else bindr (buf_purge b) (\<lambda>b. Inr (True, b, w\<lparr>flagclosesent := True\<rparr>)))))))))"

section \<open>packet_channel_recv.c\<close>

text \<open>How every message begins: its type and the channel's number.\<close>

definition channel_head :: "u8 \<Rightarrow> buf \<Rightarrow> 'a sess_scheme \<Rightarrow> (int \<times> u32) res" where
  "channel_head t b w =
     bindr (packetparser_uint8 (bmem b) (blen b) 0) (\<lambda>(pos, ch).
     if ch \<noteq> t then Inl Eproto
     else
     bindr (packetparser_uint32 (bmem b) (blen b) pos) (\<lambda>(pos, ident).
     if ident \<noteq> ch_id w then Inl Eproto else Inr (pos, ident)))"

definition packet_channel_recv_data :: "buf \<Rightarrow> 'a sess_scheme \<Rightarrow> (buf \<times> 'a sess_scheme) res" where
  "packet_channel_recv_data b w =
     bindr (channel_head SSH_MSG_CHANNEL_DATA b w) (\<lambda>(pos, _).
     bindr (skip_string b pos) (\<lambda>(pos, len).
     bindr (packetparser_end (bmem b) (blen b) pos) (\<lambda>_.
     bindr (channel_put (string_at b pos len) len w) (\<lambda>w.
     bindr (buf_purge b) (\<lambda>b. Inr (b, w))))))"

definition packet_channel_recv_extendeddata :: "buf \<Rightarrow> 'a sess_scheme \<Rightarrow> (buf \<times> 'a sess_scheme) res" where
  "packet_channel_recv_extendeddata b w = bindr (buf_purge b) (\<lambda>b. Inr (b, w))"

definition packet_channel_recv_windowadjust :: "buf \<Rightarrow> 'a sess_scheme \<Rightarrow> (buf \<times> 'a sess_scheme) res" where
  "packet_channel_recv_windowadjust b w =
     bindr (channel_head SSH_MSG_CHANNEL_WINDOW_ADJUST b w) (\<lambda>(pos, _).
     bindr (packetparser_uint32 (bmem b) (blen b) pos) (\<lambda>(pos, len).
     bindr (packetparser_end (bmem b) (blen b) pos) (\<lambda>_.
     let w = channel_incrementremotewindow len w in
     bindr (buf_purge b) (\<lambda>b. Inr (b, w)))))"

definition packet_channel_recv_eof :: "buf \<Rightarrow> 'a sess_scheme \<Rightarrow> (buf \<times> 'a sess_scheme) res" where
  "packet_channel_recv_eof b w =
     bindr (channel_head SSH_MSG_CHANNEL_EOF b w) (\<lambda>(pos, _).
     bindr (packetparser_end (bmem b) (blen b) pos) (\<lambda>_.
     bindr (channel_puteof w) (\<lambda>w.
     bindr (buf_purge b) (\<lambda>b. Inr (b, w)))))"

definition packet_channel_recv_close :: "buf \<Rightarrow> 'a sess_scheme \<Rightarrow> (buf \<times> 'a sess_scheme) res" where
  "packet_channel_recv_close b w =
     bindr (channel_head SSH_MSG_CHANNEL_CLOSE b w) (\<lambda>(pos, _).
     bindr (packetparser_end (bmem b) (blen b) pos) (\<lambda>_.
     bindr (packet_channel_send_eof b w) (\<lambda>(b, w).
     let w = w\<lparr>flagchanneleofreceived := True\<rparr> in
     bindr (buf_purge b) (\<lambda>b. Inr (b, w)))))"

section \<open>packet_channel_request.c\<close>

text \<open>
  A string argument: \<open>p = b->buf + pos\<close>, its length, and the position behind it.
\<close>

definition arg_string :: "buf \<Rightarrow> int \<Rightarrow> (int \<times> int \<times> int) res" where
  "arg_string b pos =
     bindr (packetparser_uint32 (bmem b) (blen b) pos) (\<lambda>(p, len).
     bindr (packetparser_skip (bmem b) (blen b) p (uint len)) (\<lambda>pos. Inr (p, uint len, pos)))"

text \<open>\<open>p[len] = 0;\<close>\<close>

definition terminate :: "buf \<Rightarrow> int \<Rightarrow> int \<Rightarrow> buf res" where
  "terminate b p len = bindr (wr1 (bmem b) (p + len) 0) (\<lambda>m. Inr (b\<lparr>bmem := m\<rparr>))"

text \<open>Each request gives whether it was accepted.\<close>

definition request_exec :: "buf \<Rightarrow> int \<Rightarrow> 'a sess_scheme \<Rightarrow> (bool \<times> buf \<times> 'a sess_scheme) res" where
  "request_exec b1 pos w =
     bindr (arg_string b1 pos) (\<lambda>(p1, plen1, pos).
     bindr (packetparser_end (bmem b1) (blen b1) pos) (\<lambda>_.
     bindr (buf_putnum8 b1 0) (\<lambda>b1.
     bindr (terminate b1 p1 plen1) (\<lambda>b1.
     bindr (channel_exec (Some (drop (nat p1) (bmem b1))) w) (\<lambda>(r, w).
     if \<not> r then Inl Fatal else Inr (True, b1, w))))))"

definition request_subsystem :: "buf \<Rightarrow> int \<Rightarrow> 'a sess_scheme \<Rightarrow> (bool \<times> buf \<times> 'a sess_scheme) res" where
  "request_subsystem b1 pos w =
     bindr (arg_string b1 pos) (\<lambda>(p1, plen1, pos).
     bindr (packetparser_end (bmem b1) (blen b1) pos) (\<lambda>_.
     bindr (buf_putnum8 b1 0) (\<lambda>b1.
     bindr (terminate b1 p1 plen1) (\<lambda>b1.
     bindr (channel_subsystem_get (drop (nat p1) (bmem b1)) (subsystems w)) (\<lambda>p2.
     case p2 of
       None \<Rightarrow> Inr (False, b1, w)
     | Some cmd \<Rightarrow>
         bindr (channel_exec (Some cmd) w) (\<lambda>(r, w). if \<not> r then Inl Fatal else Inr (True, b1, w)))))))"

definition request_shell :: "buf \<Rightarrow> int \<Rightarrow> 'a sess_scheme \<Rightarrow> (bool \<times> buf \<times> 'a sess_scheme) res" where
  "request_shell b1 pos w =
     bindr (packetparser_end (bmem b1) (blen b1) pos) (\<lambda>_.
     bindr (channel_exec None w) (\<lambda>(r, w). if \<not> r then Inl Fatal else Inr (True, b1, w)))"

definition request_env :: "buf \<Rightarrow> int \<Rightarrow> 'a sess_scheme \<Rightarrow> (bool \<times> buf \<times> 'a sess_scheme) res" where
  "request_env b1 pos w =
     bindr (arg_string b1 pos) (\<lambda>(p1, plen1, pos).
     bindr (arg_string b1 pos) (\<lambda>(p2, plen2, pos).
     bindr (packetparser_end (bmem b1) (blen b1) pos) (\<lambda>_.
     bindr (buf_putnum8 b1 0) (\<lambda>b1.
     bindr (terminate b1 p1 plen1) (\<lambda>b1.
     bindr (terminate b1 p2 plen2) (\<lambda>b1.
       Inr (channel_env (drop (nat p1) (bmem b1)) (drop (nat p2) (bmem b1)), b1, w)))))))"

definition request_pty :: "buf \<Rightarrow> int \<Rightarrow> 'a sess_scheme \<Rightarrow> (bool \<times> buf \<times> 'a sess_scheme) res" where
  "request_pty b1 pos w =
     bindr (arg_string b1 pos) (\<lambda>(p1, plen1, pos).
     bindr (packetparser_uint32 (bmem b1) (blen b1) pos) (\<lambda>(pos, a).
     bindr (packetparser_uint32 (bmem b1) (blen b1) pos) (\<lambda>(pos, b).
     bindr (packetparser_uint32 (bmem b1) (blen b1) pos) (\<lambda>(pos, x).
     bindr (packetparser_uint32 (bmem b1) (blen b1) pos) (\<lambda>(pos, y).
     bindr (arg_string b1 pos) (\<lambda>(p2, plen2, pos).
     bindr (packetparser_end (bmem b1) (blen b1) pos) (\<lambda>_.
     bindr (buf_putnum8 b1 0) (\<lambda>b1.
     bindr (terminate b1 p1 plen1) (\<lambda>b1.
     bindr (terminate b1 p2 plen2) (\<lambda>b1.
       Inr (channel_openterminal (drop (nat p1) (bmem b1)) a b x y, b1, w)))))))))))"

definition request_resize :: "buf \<Rightarrow> int \<Rightarrow> 'a sess_scheme \<Rightarrow> (bool \<times> buf \<times> 'a sess_scheme) res" where
  "request_resize b1 pos w =
     bindr (packetparser_uint32 (bmem b1) (blen b1) pos) (\<lambda>(pos, a).
     bindr (packetparser_uint32 (bmem b1) (blen b1) pos) (\<lambda>(pos, b).
     bindr (packetparser_uint32 (bmem b1) (blen b1) pos) (\<lambda>(pos, x).
     bindr (packetparser_uint32 (bmem b1) (blen b1) pos) (\<lambda>(pos, y).
     bindr (packetparser_end (bmem b1) (blen b1) pos) (\<lambda>_.
       Inr (True, b1, channel_ptyresize a b x y w))))))"

text \<open>The tests of the request's name, in the code's order; a name not known is rejected.\<close>

definition request_dispatch :: "bytes \<Rightarrow> int \<Rightarrow> buf \<Rightarrow> int \<Rightarrow> 'a sess_scheme \<Rightarrow> (bool \<times> buf \<times> 'a sess_scheme) res" where
  "request_dispatch cmd cmdlen b1 pos w =
     bindr (str_equaln cmd cmdlen (cstr ''exec'')) (\<lambda>eq.
     if eq \<noteq> 0 then request_exec b1 pos w
     else bindr (str_equaln cmd cmdlen (cstr ''subsystem'')) (\<lambda>eq.
     if eq \<noteq> 0 then request_subsystem b1 pos w
     else bindr (str_equaln cmd cmdlen (cstr ''shell'')) (\<lambda>eq.
     if eq \<noteq> 0 then request_shell b1 pos w
     else bindr (str_equaln cmd cmdlen (cstr ''env'')) (\<lambda>eq.
     if eq \<noteq> 0 then request_env b1 pos w
     else bindr (str_equaln cmd cmdlen (cstr ''pty-req'')) (\<lambda>eq.
     if eq \<noteq> 0 then request_pty b1 pos w
     else bindr (str_equaln cmd cmdlen (cstr ''window-change'')) (\<lambda>eq.
     if eq \<noteq> 0 then request_resize b1 pos w
     else Inr (False, b1, w)))))))"

definition request_reply :: "u8 \<Rightarrow> u32 \<Rightarrow> u8 \<Rightarrow> buf \<Rightarrow> buf \<Rightarrow> 'a sess_scheme \<Rightarrow> (buf \<times> buf \<times> 'a sess_scheme) res" where
  "request_reply wantreply ident t b1 b2 w =
     bindr (if wantreply = 0 then Inr (b2, w)
            else
              bindr (buf_purge b2) (\<lambda>b2.
              bindr (buf_putnum8 b2 t) (\<lambda>b2.
              bindr (buf_putnum32 b2 ident) (\<lambda>b2.
              bindr (packet_put b2 w) (\<lambda>w. Inr (b2, w)))))) (\<lambda>(b2, w).
     bindr (buf_purge b1) (\<lambda>b1.
     bindr (buf_purge b2) (\<lambda>b2. Inr (b1, b2, w))))"

definition packet_channel_request :: "buf \<Rightarrow> buf \<Rightarrow> 'a sess_scheme \<Rightarrow> (buf \<times> buf \<times> 'a sess_scheme) res" where
  "packet_channel_request b1 b2 w =
     bindr (channel_head SSH_MSG_CHANNEL_REQUEST b1 w) (\<lambda>(pos, ident).
     bindr (arg_string b1 pos) (\<lambda>(cmd, cmdlen, pos).
     bindr (packetparser_uint8 (bmem b1) (blen b1) pos) (\<lambda>(pos, wantreply).
     bindr (terminate b1 cmd cmdlen) (\<lambda>b1.
     bindr (request_dispatch (drop (nat cmd) (bmem b1)) cmdlen b1 pos w) (\<lambda>(accept, b1, w).
       request_reply wantreply ident (if accept then SSH_MSG_CHANNEL_SUCCESS else SSH_MSG_CHANNEL_FAILURE) b1 b2 w)))))"

section \<open>Example states\<close>

text \<open>A session as it is before \<open>channel_init\<close>, and one with a running child, for the examples.\<close>

definition sess_start :: "net \<Rightarrow> sess" where
  "sess_start n = channel_init (net.extend n
     \<lparr>nvs_initialized = True, nvs_script = [], nvs_blobs = (\<lambda>_. None), nvs_strings = (\<lambda>_. None),
      ch_maxpacket = 0, ch_id = 0, ch_localwindow = 0, ch_remotewindow = 0, ch_buf0 = [], ch_len0 = 0, ch_pid = 0,
      ch_fd0 = 0, ch_fd1 = 0, ch_fd2 = 0, ch_localip = [], ch_localport = [], ch_remoteip = [], ch_remoteport = [],
      ch_user = [], ch_flagterminal = False, ch_master = 0, ch_slave = 0, ch_remoteeof = False, subsystems = [],
      conninfo = ([], [], [], []), sysrets = [], open_fds = [], child_rx = [], child_tx = [], child_got = [], tasks = []\<rparr>)"

definition chan_example :: sess where
  "chan_example = (sess_start ((net_start [] [])\<lparr>sendbuf := empty_buf 17201\<rparr>))
     \<lparr>ch_maxpacket := 4096, ch_id := 7, ch_localwindow := 131072, ch_remotewindow := 10, ch_pid := 9999,
      ch_fd0 := 3, ch_fd1 := 5, ch_fd2 := -1, child_rx := [Rx (lit ''esp32> '')], child_tx := [Tx_again]\<rparr>"

lemma chan_example_simps [simp]:
  "ch_maxpacket chan_example = 4096" "ch_id chan_example = 7" "ch_localwindow chan_example = 131072"
  "ch_remotewindow chan_example = 10" "ch_pid chan_example = 9999" "ch_fd0 chan_example = 3" "ch_fd1 chan_example = 5"
  "ch_fd2 chan_example = -1" "child_rx chan_example = [Rx (lit ''esp32> '')]" "child_tx chan_example = [Tx_again]"
  "ch_len0 chan_example = 0" "child_got chan_example = []" "ch_buf0 chan_example = replicate (nat CHANNEL_BUFSIZE) 0"
  "sendbuf chan_example = empty_buf 17201" "flagkeys chan_example = False" "ch_remoteeof chan_example = False"
  by (simp_all add: chan_example_def sess_start_def channel_init_def channel_zero_def net.defs net_start_def)

end
