(* ===== verification/Channel_Correct.thy ===== *)
theory Channel_Correct
  imports Channel "HOL-Library.Multiset"
begin

text \<open>
  The channel as a byte pipe to the child, its flow control in both directions, and the descriptors of
  the child.
\<close>

section \<open>The invariant\<close>

text \<open>
  A channel whose child runs: the buffer and its fill, the process number \<open>channel_exec\<close> gives.
\<close>

definition chan_running :: "'a sess_scheme \<Rightarrow> bool" where
  "chan_running w \<longleftrightarrow> ch_maxpacket w \<noteq> 0 \<and> ch_pid w > 0 \<and> length (ch_buf0 w) = nat CHANNEL_BUFSIZE \<and>
     0 \<le> ch_len0 w \<and> ch_len0 w \<le> CHANNEL_BUFSIZE"

text \<open>The bytes that were accepted from the client: those given to the child, and those waiting.\<close>

definition chan_pending :: "'a sess_scheme \<Rightarrow> bytes" where
  "chan_pending w = take (nat (ch_len0 w)) (ch_buf0 w)"

definition chan_stream :: "'a sess_scheme \<Rightarrow> bytes" where
  "chan_stream w = child_got w @ chan_pending w"

lemma chan_pending_length: "chan_running w \<Longrightarrow> int (length (chan_pending w)) = ch_len0 w"
  by (auto simp: chan_running_def chan_pending_def)

lemma eof0_same [simp]:
  "ch_maxpacket (channel_eof0 w) = ch_maxpacket w" "ch_pid (channel_eof0 w) = ch_pid w" "ch_buf0 (channel_eof0 w) = ch_buf0 w"
  "ch_len0 (channel_eof0 w) = ch_len0 w" "child_got (channel_eof0 w) = child_got w" "ch_localwindow (channel_eof0 w) = ch_localwindow w"
  "chan_running (channel_eof0 w) = chan_running w" "chan_pending (channel_eof0 w) = chan_pending w"
  by (simp_all add: channel_eof0_def sys_close_def chan_running_def chan_pending_def)

section \<open>One operation at a time\<close>

lemma channel_put_eq:
  assumes "chan_running w" and "ch_fd0 w \<noteq> -1"
  shows "channel_put x (int (length x)) w =
    (if ch_len0 w + int (length x) > CHANNEL_BUFSIZE then Inl Enomem
     else Inr (w\<lparr>ch_buf0 := chan_pending w @ x @ drop (nat (ch_len0 w) + length x) (ch_buf0 w),
                 ch_len0 := ch_len0 w + int (length x), ch_localwindow := ch_localwindow w - of_nat (length x)\<rparr>))"
proof -
  have "byte_copy (ch_buf0 w) (ch_len0 w) (int (length x)) x 0 =
      Inr (chan_pending w @ x @ drop (nat (ch_len0 w) + length x) (ch_buf0 w))"
    if "\<not> ch_len0 w + int (length x) > CHANNEL_BUFSIZE"
    using that assms(1) byte_copy_eq [of "ch_len0 w" 0 "int (length x)" "ch_buf0 w" x]
    by (auto simp: chan_running_def CHANNEL_BUFSIZE_def chan_pending_def)
  then show ?thesis using assms by (auto simp: channel_put_def chan_running_def)
qed

lemma channel_put_stream:
  assumes "chan_running w" and "channel_put x (int (length x)) w = Inr w'"
  shows "chan_running w'" "chan_stream w' = chan_stream w @ x" "ch_localwindow w' = ch_localwindow w - of_nat (length x)"
    "ch_len0 w' = ch_len0 w + int (length x)"
proof -
  have "ch_fd0 w \<noteq> -1" using assms(2) by (auto simp: channel_put_def split: if_splits)
  then have fit: "ch_len0 w + int (length x) \<le> CHANNEL_BUFSIZE"
    and w': "w' = w\<lparr>ch_buf0 := chan_pending w @ x @ drop (nat (ch_len0 w) + length x) (ch_buf0 w),
                 ch_len0 := ch_len0 w + int (length x), ch_localwindow := ch_localwindow w - of_nat (length x)\<rparr>"
    using assms(2) channel_put_eq [OF assms(1), of x] by (auto split: if_splits)
  have l: "int (length (chan_pending w)) = ch_len0 w" by (rule chan_pending_length [OF assms(1)])
  show "chan_running w'" using assms(1) fit by (auto simp: w' chan_running_def chan_pending_def)
  show "chan_stream w' = chan_stream w @ x"
  proof -
    have n: "nat (ch_len0 w + int (length x)) = length (chan_pending w @ x)" using l by simp
    have "chan_pending w' = take (length (chan_pending w @ x)) ((chan_pending w @ x) @ drop (nat (ch_len0 w) + length x) (ch_buf0 w))"
      unfolding n [symmetric] by (simp add: w' chan_pending_def)
    also have "\<dots> = chan_pending w @ x" by (simp only: take_append) simp
    finally show ?thesis by (simp add: w' chan_stream_def)
  qed
  show "ch_localwindow w' = ch_localwindow w - of_nat (length x)" "ch_len0 w' = ch_len0 w + int (length x)"
    by (simp_all add: w')
qed

text \<open>A write that returns moves a prefix of what waits to the child; nothing else changes.\<close>

lemma channel_write_stream:
  assumes "chan_running w" and "channel_write w = Inr (r, w')"
  shows "chan_running w'" "chan_stream w' = chan_stream w" "ch_localwindow w' = ch_localwindow w" "ch_len0 w' \<le> ch_len0 w"
proof -
  have "chan_running w' \<and> chan_stream w' = chan_stream w \<and> ch_localwindow w' = ch_localwindow w \<and> ch_len0 w' \<le> ch_len0 w"
  proof (cases "ch_len0 w \<le> 0")
    case True
    then show ?thesis using assms by (auto simp: channel_write_def split: if_splits)
  next
    case pos: False
    obtain e es where e: "child_tx w = e # es" using assms(2) pos by (cases "child_tx w") (auto simp: channel_write_def split: if_splits)
    have up: "chan_running (w\<lparr>child_tx := es\<rparr>)" "chan_pending (w\<lparr>child_tx := es\<rparr>) = chan_pending w"
      using assms(1) by (simp_all add: chan_running_def chan_pending_def)
    show ?thesis
    proof (cases e)
      case (Tx n)
      define k where "k = min n (length (chan_pending w))"
      have len: "ch_len0 w = int (length (chan_pending w))" using chan_pending_length [OF assms(1)] by simp
      have k: "min (int n) (ch_len0 w) = int k" by (simp add: k_def len)
      show ?thesis
      proof (cases "k = 0")
        case True
        then show ?thesis
          using assms(2) pos e Tx k up by (auto simp: channel_write_def chan_stream_def Let_def split: if_splits)
      next
        case k0: False
        define p where "p = chan_pending w"
        have kp: "k \<le> length p" by (simp add: k_def p_def)
        define q where "q = drop (length p) (ch_buf0 w)"
        have pn: "length p = nat (ch_len0 w)" using len by (simp add: p_def)
        have "ch_buf0 w = p @ q" unfolding q_def pn by (simp add: p_def chan_pending_def)
        then have buf: "ch_buf0 w = take k p @ drop k p @ q" "ch_len0 w = int (length p)"
          using len unfolding p_def [symmetric] by (simp_all flip: append_assoc)
        have lenb: "length p \<le> length (ch_buf0 w)" by (simp add: p_def chan_pending_def)
        have n: "ch_len0 w - int k = int (length (drop k p))" "int k = int (length (take k p))"
          "int k = int (length ([] :: bytes) + length (take k p))"
          using kp buf(2) by simp_all
        have r1: "rd (ch_buf0 w) 0 (int k) = Inr (take k p)"
          unfolding buf(1) using rd_mid [OF _ n(2), of 0 "[]" "drop k p @ q"] by simp
        define g where "g = drop (length (drop k p)) (take k p @ drop k p)"
        have g: "length g = k" using kp by (simp add: g_def)
        have r2: "byte_move (ch_buf0 w) 0 (ch_len0 w - int k) (int k) = Inr (drop k p @ g @ q)"
          unfolding buf(1) g_def using byte_move_mid [OF _ n(3,1), of 0 q] by (simp only: append_Nil list.size int_ops(1))
        have r3: "purge (drop k p @ g @ q) (ch_len0 w - int k) (int k) = Inr (drop k p @ replicate k 0 @ q)"
          unfolding purge_byte_zero using byte_zero_mid [OF n(1), of "int k" g q] g by simp
        let ?w = "w\<lparr>child_tx := es, ch_buf0 := drop k p @ replicate k 0 @ q, child_got := child_got w @ take k p,
          ch_len0 := ch_len0 w - int k\<rparr>"
        define w1 where "w1 = ?w"
        have w': "w' = w1 \<or> w' = channel_eof0 w1"
          using assms(2) pos e Tx k k0 r1 r2 r3
          by (auto simp: channel_write_def Let_def bindr_eq_Inr w1_def split: if_splits)
        have "length (drop k p @ replicate k 0 @ q) = length (ch_buf0 w)" unfolding buf(1) using kp by simp
        then have "chan_running w1" using assms(1) kp buf(2) by (auto simp: chan_running_def w1_def)
        moreover have "chan_stream w1 = chan_stream w"
          using kp buf by (simp add: chan_stream_def chan_pending_def nat_diff_distrib p_def [symmetric] w1_def)
        moreover have "ch_localwindow w1 = ch_localwindow w" "ch_len0 w1 \<le> ch_len0 w" by (simp_all add: w1_def)
        ultimately show ?thesis using w' by (auto simp: chan_stream_def)
      qed
    qed (use assms pos e up in \<open>auto simp: channel_write_def chan_stream_def split: if_splits\<close>)
  qed
  then show "chan_running w'" "chan_stream w' = chan_stream w" "ch_localwindow w' = ch_localwindow w" "ch_len0 w' \<le> ch_len0 w"
    by simp_all
qed

section \<open>A byte pipe\<close>

text \<open>
  The contract of the two operations: what is put is appended to the stream of accepted bytes, moving
  bytes to the other side keeps it, and both keep the invariant. A failing operation ends the program.
\<close>

locale byte_pipe =
  fixes inv :: "'s \<Rightarrow> bool"
    and put :: "bytes \<Rightarrow> 's \<Rightarrow> 's res"
    and move :: "'s \<Rightarrow> 's res"
    and stream :: "'s \<Rightarrow> bytes"
  assumes put_inv: "inv s \<Longrightarrow> put x s = Inr s' \<Longrightarrow> inv s'"
    and put_stream: "inv s \<Longrightarrow> put x s = Inr s' \<Longrightarrow> stream s' = stream s @ x"
    and move_inv: "inv s \<Longrightarrow> move s = Inr s' \<Longrightarrow> inv s'"
    and move_stream: "inv s \<Longrightarrow> move s = Inr s' \<Longrightarrow> stream s' = stream s"
begin

primrec run :: "bytes option list \<Rightarrow> 's \<Rightarrow> 's res" where
  "run [] s = Inr s"
| "run (e # es) s = bindr (case e of Some x \<Rightarrow> put x s | None \<Rightarrow> move s) (run es)"

lemma run_stream:
  "inv s \<Longrightarrow> run es s = Inr s' \<Longrightarrow> inv s' \<and> stream s' = stream s @ concat (map (case_option [] (\<lambda>x. x)) es)"
proof (induction es arbitrary: s)
  case (Cons e es)
  then obtain t where t: "(case e of Some x \<Rightarrow> put x s | None \<Rightarrow> move s) = Inr t" "run es t = Inr s'"
    by (auto simp: bindr_eq_Inr)
  have "inv t \<and> stream t = stream s @ case_option [] (\<lambda>x. x) e"
  proof (cases e)
    case None
    then have "move s = Inr t" using t(1) by simp
    then show ?thesis using None move_inv [OF Cons.prems(1)] move_stream [OF Cons.prems(1)] by simp
  next
    case (Some x)
    then have "put x s = Inr t" using t(1) by simp
    then show ?thesis using Some put_inv [OF Cons.prems(1)] put_stream [OF Cons.prems(1)] by simp
  qed
  with Cons.IH [OF _ t(2)] show ?case by simp
qed simp

end

definition chan_step_write :: "'a sess_scheme \<Rightarrow> 'a sess_scheme res" where
  "chan_step_write w = bindr (channel_write w) (\<lambda>(r, w). Inr w)"

interpretation chan: byte_pipe chan_running "\<lambda>x. channel_put x (int (length x))" chan_step_write chan_stream
proof
  fix w w' :: "'a sess_scheme" and x
  show "chan_running w \<Longrightarrow> channel_put x (int (length x)) w = Inr w' \<Longrightarrow> chan_running w'"
    and "chan_running w \<Longrightarrow> channel_put x (int (length x)) w = Inr w' \<Longrightarrow> chan_stream w' = chan_stream w @ x"
    by (fact channel_put_stream)+
  show "chan_running w \<Longrightarrow> chan_step_write w = Inr w' \<Longrightarrow> chan_running w'"
    and "chan_running w \<Longrightarrow> chan_step_write w = Inr w' \<Longrightarrow> chan_stream w' = chan_stream w"
    by (auto simp: chan_step_write_def bindr_eq_Inr dest: channel_write_stream)
qed

text \<open>A sequence of the operations, in any order: data from the client, or a write to the child.\<close>

primrec chan_run :: "bytes option list \<Rightarrow> 'a sess_scheme \<Rightarrow> 'a sess_scheme res" where
  "chan_run [] w = Inr w"
| "chan_run (e # es) w =
     bindr (case e of Some x \<Rightarrow> channel_put x (int (length x)) w | None \<Rightarrow> chan_step_write w) (chan_run es)"

lemma chan_run_eq: "chan_run es w = chan.run es w"
  by (induction es arbitrary: w) (auto intro!: bindr_cong split: option.split)

section \<open>Flow control towards the client\<close>

text \<open>The space the client was promised and the bytes waiting fit the buffer.\<close>

definition flow_ok :: "'a sess_scheme \<Rightarrow> bool" where
  "flow_ok w \<longleftrightarrow> chan_running w \<and> uint (ch_localwindow w) + ch_len0 w \<le> CHANNEL_BUFSIZE"

lemma uint_minus_fits:
  assumes "int n \<le> uint (a :: u32)"
  shows "uint (a - of_nat n) = uint a - int n"
proof -
  have "n < 2 ^ 32" using assms uint_lt2p [of a] by simp
  then have "unat (of_nat n :: u32) = n" by (simp add: unat_of_nat take_bit_nat_eq_self)
  then have u: "uint (of_nat n :: u32) = int n" by (metis uint_nat)
  then have "(of_nat n :: u32) \<le> a" using assms by (simp only: word_le_def)
  then show ?thesis using u unfolding uint_minus_simple_alt by simp
qed

lemma flow_put:
  assumes "flow_ok w" and "ch_fd0 w \<noteq> -1" and "int (length x) \<le> uint (ch_localwindow w)"
  shows "\<exists>w'. channel_put x (int (length x)) w = Inr w' \<and> flow_ok w' \<and>
    uint (ch_localwindow w') = uint (ch_localwindow w) - int (length x)"
proof -
  have r: "chan_running w" using assms(1) by (simp add: flow_ok_def)
  have "\<not> ch_len0 w + int (length x) > CHANNEL_BUFSIZE" using assms(1,3) by (auto simp: flow_ok_def)
  then obtain w' where w': "channel_put x (int (length x)) w = Inr w'"
    using channel_put_eq [OF r assms(2), of x] by auto
  from channel_put_stream [OF r w'] show ?thesis
    using assms(1) w' uint_minus_fits [OF assms(3)] by (auto simp: flow_ok_def)
qed

lemma flow_write: "flow_ok w \<Longrightarrow> channel_write w = Inr (r, w') \<Longrightarrow> flow_ok w'"
  using channel_write_stream [of w r w'] by (auto simp: flow_ok_def)

text \<open>The packet layer leaves the channel alone.\<close>

lemma more_sess:
  assumes "net.more w' = net.more w"
  shows "ch_maxpacket w' = ch_maxpacket w" "ch_id w' = ch_id w" "ch_localwindow w' = ch_localwindow w"
    "ch_remotewindow w' = ch_remotewindow w" "ch_buf0 w' = ch_buf0 w" "ch_len0 w' = ch_len0 w" "ch_pid w' = ch_pid w"
    "ch_fd0 w' = ch_fd0 w" "ch_fd1 w' = ch_fd1 w" "ch_fd2 w' = ch_fd2 w" "child_got w' = child_got w" "child_rx w' = child_rx w"
    "child_tx w' = child_tx w" "open_fds w' = open_fds w" "tasks w' = tasks w" "sysrets w' = sysrets w" "subsystems w' = subsystems w"
  using assms by (cases w; cases w'; simp)+

lemmas kept_sess = keptD(21) [THEN more_sess(1)] keptD(21) [THEN more_sess(2)] keptD(21) [THEN more_sess(3)]
  keptD(21) [THEN more_sess(4)] keptD(21) [THEN more_sess(5)] keptD(21) [THEN more_sess(6)] keptD(21) [THEN more_sess(7)]
  keptD(21) [THEN more_sess(8)] keptD(21) [THEN more_sess(9)] keptD(21) [THEN more_sess(10)] keptD(21) [THEN more_sess(11)]
  keptD(21) [THEN more_sess(12)] keptD(21) [THEN more_sess(13)] keptD(21) [THEN more_sess(14)] keptD(21) [THEN more_sess(15)]

lemma kept_flow: "kept w w' \<Longrightarrow> flow_ok w' = flow_ok w"
  by (simp add: flow_ok_def chan_running_def kept_sess)

lemma windowadjust_cases:
  assumes "packet_channel_send_windowadjust b w = Inr (b', w')"
  shows "w' = w \<or> (ch_len0 w \<le> CHANNEL_BUFSIZE div 2 \<and> uint (ch_localwindow w) \<le> CHANNEL_BUFSIZE div 2 \<and>
    kept (channel_incrementlocalwindow (word_of_int (CHANNEL_BUFSIZE - ch_len0 w - uint (ch_localwindow w))) w) w')"
  using assms
  by (auto simp: packet_channel_send_windowadjust_def bindr_eq_Inr Let_def not_less dest: kept_put split: if_splits)

lemma flow_adjust:
  assumes "flow_ok w" and "packet_channel_send_windowadjust b w = Inr (b', w')"
  shows "flow_ok w'" "w' = w \<or> uint (ch_localwindow w') = CHANNEL_BUFSIZE - ch_len0 w'"
proof -
  define plus where "plus = CHANNEL_BUFSIZE - ch_len0 w - uint (ch_localwindow w)"
  have plus: "0 \<le> plus" "uint (ch_localwindow w) + plus = CHANNEL_BUFSIZE - ch_len0 w" "0 \<le> ch_len0 w"
    using assms(1) by (auto simp: flow_ok_def chan_running_def plus_def)
  have "uint (ch_localwindow w + word_of_int plus) = uint (ch_localwindow w) + plus"
  proof -
    have sum: "ch_localwindow w + word_of_int plus = word_of_int (uint (ch_localwindow w) + plus)" by simp
    have "uint (ch_localwindow w) + plus < 2 ^ 32" using plus by (simp add: CHANNEL_BUFSIZE_def)
    moreover have "0 \<le> uint (ch_localwindow w) + plus" using plus(1) by simp
    ultimately show ?thesis unfolding sum by (simp add: uint_word_of_int take_bit_int_eq_self del: of_int_add)
  qed
  note win = this [unfolded plus(2)]
  have k: "w' = w \<or> kept (channel_incrementlocalwindow (word_of_int plus) w) w'"
    using windowadjust_cases [OF assms(2)] by (auto simp: plus_def)
  have f: "flow_ok (channel_incrementlocalwindow (word_of_int plus) w)"
    using assms(1) win by (simp add: flow_ok_def chan_running_def channel_incrementlocalwindow_def)
  show "flow_ok w'" using k f assms(1) kept_flow by blast
  show "w' = w \<or> uint (ch_localwindow w') = CHANNEL_BUFSIZE - ch_len0 w'"
    using k win by (auto simp: kept_sess channel_incrementlocalwindow_def)
qed

section \<open>Descriptors\<close>

text \<open>A call that makes a descriptor adds it to the open ones; closing removes it.\<close>

lemma sys_call_fds: "sys_call w = (r, w') \<Longrightarrow> open_fds w' = open_fds w"
  by (auto simp: sys_call_def split: list.splits)

lemma sys_open_fds: "sys_open w = (r, w') \<Longrightarrow> open_fds w' = (if r < 0 then open_fds w else r # open_fds w)"
  by (cases "sys_call w") (auto simp: sys_open_def dest: sys_call_fds)

lemma sys_close_fds [simp]: "open_fds (sys_close fd w) = remove1 fd (open_fds w)"
  by (simp add: sys_close_def)

lemma socketpair_listen_fds: "socketpair_listen w = (ok, w') \<Longrightarrow> open_fds w' = open_fds w"
proof -
  assume a: "socketpair_listen w = (ok, w')"
  obtain r1 w1 where 1: "sys_call w = (r1, w1)" by fastforce
  obtain r2 w2 where 2: "sys_call w1 = (r2, w2)" by fastforce
  obtain r3 w3 where 3: "sys_call w2 = (r3, w3)" by fastforce
  show ?thesis
    using a sys_call_fds [OF 1] sys_call_fds [OF 2] sys_call_fds [OF 3]
    by (auto simp: socketpair_listen_def 1 2 3 split: if_splits)
qed

lemma socketpair_fds:
  assumes "socketpair_tcp w = (p, w')"
  shows "mset (open_fds w') = mset (open_fds w) + (case p of None \<Rightarrow> {#} | Some (a, b) \<Rightarrow> {#a, b#})"
proof -
  obtain l w1 where 1: "sys_open w = (l, w1)" by fastforce
  obtain ok w2 where 2: "socketpair_listen w1 = (ok, w2)" by fastforce
  obtain c w3 where 3: "sys_open w2 = (c, w3)" by fastforce
  obtain r w4 where 4: "sys_call w3 = (r, w4)" by fastforce
  obtain a w5 where 5: "sys_open w4 = (a, w5)" by fastforce
  note fds = sys_open_fds [OF 1] socketpair_listen_fds [OF 2] sys_open_fds [OF 3] sys_call_fds [OF 4] sys_open_fds [OF 5]
  show ?thesis
    using assms fds by (auto simp: socketpair_tcp_def 1 2 3 4 5 Let_def split: if_splits)
qed

text \<open>What the socket and allocation calls leave alone.\<close>

definition fd_kept :: "'a sess_scheme \<Rightarrow> 'a sess_scheme \<Rightarrow> bool" where
  "fd_kept w w' \<longleftrightarrow> w'\<lparr>sysrets := [], open_fds := []\<rparr> = w\<lparr>sysrets := [], open_fds := []\<rparr>"

lemma fd_keptD:
  assumes "fd_kept w w'"
  shows "tasks w' = tasks w" "ch_pid w' = ch_pid w" "ch_maxpacket w' = ch_maxpacket w"
proof -
  have m: "w'\<lparr>sysrets := [], open_fds := []\<rparr> = w\<lparr>sysrets := [], open_fds := []\<rparr>" using assms by (simp add: fd_kept_def)
  show "tasks w' = tasks w" using arg_cong [OF m, of tasks] by simp
  show "ch_pid w' = ch_pid w" using arg_cong [OF m, of ch_pid] by simp
  show "ch_maxpacket w' = ch_maxpacket w" using arg_cong [OF m, of ch_maxpacket] by simp
qed

lemma fd_kept_refl [simp]: "fd_kept w w"
  by (simp add: fd_kept_def)

lemma fd_kept_call: "sys_call w = (r, w') \<Longrightarrow> fd_kept w w'"
  by (auto simp: sys_call_def fd_kept_def split: list.splits)

lemma fd_kept_open: "sys_open w = (r, w') \<Longrightarrow> fd_kept w w'"
  by (cases "sys_call w") (auto simp: sys_open_def fd_kept_def dest: fd_kept_call)

lemma fd_kept_close [simp]: "fd_kept w (sys_close fd w') = fd_kept w w'"
  by (simp add: sys_close_def fd_kept_def)

lemma fd_kept_trans: "fd_kept w w' \<Longrightarrow> fd_kept w' w'' \<Longrightarrow> fd_kept w w''"
  by (simp add: fd_kept_def)

lemma fd_kept_socketpair:
  assumes "socketpair_tcp w = (p, w')"
  shows "fd_kept w w'"
proof -
  obtain l w1 where 1: "sys_open w = (l, w1)" by fastforce
  obtain r1 u1 where u1: "sys_call w1 = (r1, u1)" by fastforce
  obtain r2 u2 where u2: "sys_call u1 = (r2, u2)" by fastforce
  obtain r3 u3 where u3: "sys_call u2 = (r3, u3)" by fastforce
  obtain ok w2 where 2: "socketpair_listen w1 = (ok, w2)" by fastforce
  obtain c w3 where 3: "sys_open w2 = (c, w3)" by fastforce
  obtain r w4 where 4: "sys_call w3 = (r, w4)" by fastforce
  obtain a w5 where 5: "sys_open w4 = (a, w5)" by fastforce
  have l: "fd_kept w1 w2"
    using 2 fd_kept_call [OF u1] fd_kept_call [OF u2] fd_kept_call [OF u3]
    by (auto simp: socketpair_listen_def u1 u2 u3 fd_kept_def split: if_splits)
  show ?thesis
    using assms fd_kept_open [OF 1] l fd_kept_open [OF 3] fd_kept_call [OF 4] fd_kept_open [OF 5]
    by (auto simp: socketpair_tcp_def 1 2 3 4 5 Let_def fd_kept_def sys_close_def split: if_splits)
qed

lemma strdup_fds: "strdup s w = Inr (c, w') \<Longrightarrow> fd_kept w w' \<and> open_fds w' = open_fds w"
  by (cases "sys_call w") (auto simp: strdup_def bindr_eq_Inr dest: fd_kept_call sys_call_fds)

text \<open>How \<open>channel_exec\<close> ends: nothing is left open, or the child has its descriptors.\<close>

lemma socketpair_client: "socketpair_tcp w = (Some (a, b), w') \<Longrightarrow> 0 \<le> a"
  by (auto simp: socketpair_tcp_def Let_def split: prod.splits if_splits)

lemma channel_exec_cases:
  assumes "channel_exec cmd w = Inr (r, w')"
  obtains (failed) "\<not> r" "fd_kept w w'" "mset (open_fds w') = mset (open_fds w)"
    | (started) u in0 in1 out0 out1 c where "r" "fd_kept w u" "mset (open_fds u) = mset (open_fds w) + {#in0, in1, out0, out1#}"
        "0 \<le> out0" "ch_maxpacket w \<noteq> 0" "ch_pid w = 0"
        "w' = u\<lparr>tasks := (in1, out1, c) # tasks u, ch_fd0 := in0, ch_fd1 := out0, ch_fd2 := -1, ch_len0 := 0, ch_pid := 9999\<rparr>"
proof -
  have open': "\<not> ch_maxpacket w = 0" "\<not> ch_pid w \<noteq> 0" using assms by (auto simp: channel_exec_def split: if_splits)
  note exec = assms [unfolded channel_exec_def if_not_P [OF open'(1)] if_not_P [OF open'(2)]]
  obtain p w1 where p: "socketpair_tcp w = (p, w1)" by fastforce
  show thesis
  proof (cases p)
    case None
    then show ?thesis using exec p socketpair_fds [OF p] fd_kept_socketpair [OF p] failed by auto
  next
    case p': (Some ab)
    obtain in0 in1 where ab: "ab = (in0, in1)" by fastforce
    obtain q w2 where q: "socketpair_tcp w1 = (q, w2)" by fastforce
    have k2: "fd_kept w w2" by (rule fd_kept_trans [OF fd_kept_socketpair [OF p] fd_kept_socketpair [OF q]])
    have m1: "mset (open_fds w1) = mset (open_fds w) + {#in0, in1#}" using socketpair_fds [OF p] by (simp add: p' ab)
    show ?thesis
    proof (cases q)
      case None
      then show ?thesis using exec p q socketpair_fds [OF q] m1 k2 failed by (auto simp: p' ab)
    next
      case q': (Some cd)
      obtain out0 out1 where cd: "cd = (out0, out1)" by fastforce
      obtain m w3 where m: "sys_call w2 = (m, w3)" by fastforce
      have m2: "mset (open_fds w3) = mset (open_fds w) + {#in0, in1, out0, out1#}"
        using socketpair_fds [OF q] m1 sys_call_fds [OF m] by (simp add: q' cd)
      have k3: "fd_kept w w3" by (rule fd_kept_trans [OF k2 fd_kept_call [OF m]])
      let ?fail = "\<lambda>w. sys_close out1 (sys_close out0 (sys_close in1 (sys_close in0 w)))"
      have fail: thesis if "(False, ?fail u) = (r, w')" "fd_kept w u" "open_fds u = open_fds w3" for u
        using that m2 failed by auto
      show ?thesis
      proof (cases "m < 0")
        case True
        then show ?thesis using exec p q m fail [of w3] k3 by (simp add: p' ab q' cd)
      next
        case False
        obtain c w4 where c: "(case cmd of None \<Rightarrow> Inr (None, w3) | Some s \<Rightarrow> strdup s w3) = Inr (c, w4)"
          using exec p q m False by (auto simp: p' ab q' cd bindr_eq_Inr)
        have "fd_kept w3 w4 \<and> open_fds w4 = open_fds w3"
          using c strdup_fds [of "the cmd" w3 c w4] by (cases cmd) auto
        then have k4: "fd_kept w w4" "open_fds w4 = open_fds w3" using fd_kept_trans [OF k3] by simp_all
        obtain x w5 where x: "sys_call w4 = (x, w5)" by fastforce
        have k5: "fd_kept w w5" "open_fds w5 = open_fds w3"
          using k4 fd_kept_trans [OF k4(1) fd_kept_call [OF x]] sys_call_fds [OF x] by simp_all
        show ?thesis
        proof (cases "x < 0")
          case True
          then show ?thesis using exec p q m False c x fail [of w5] k5 by (simp add: p' ab q' cd)
        next
          case x0: False
          then have "(True, w5\<lparr>tasks := (in1, out1, c) # tasks w5, ch_fd0 := in0, ch_fd1 := out0, ch_fd2 := -1,
              ch_len0 := 0, ch_pid := 9999\<rparr>) = (r, w')" using exec p q m False c x by (simp add: p' ab q' cd)
          then show ?thesis using started [of w5 in0 in1 out0 out1 c] m2 k5 socketpair_client [OF q [unfolded q' cd]] open' by simp
        qed
      qed
    qed
  qed
qed

section \<open>Data to the client\<close>

text \<open>A data message built in place around the bytes read.\<close>

lemma data_message:
  assumes "wr u 9 x = Inr m" and "wr1 m 0 t = Inr m1" and "wr m1 1 (uint32_pack_big i) = Inr m2"
    and "wr m2 5 (uint32_pack_big (word_of_int (int (length x)))) = Inr m3" and "x \<noteq> []"
  shows "take (9 + length x) m3 = t # uint32_pack_big i @ ssh_string x"
proof -
  have len: "9 + length x \<le> length u" using assms(1,5) by (auto simp: wr_def split: if_splits)
  define h where "h = hd u"
  define p where "p = take 4 (drop 1 u)"
  define q where "q = take 4 (drop 5 u)"
  define s where "s = take (length x) (drop 9 u)"
  define z where "z = drop (9 + length x) u"
  have u: "u = [h] @ p @ q @ s @ z"
  proof -
    have "s @ z = drop 9 u" by (simp add: s_def z_def take_nat_drop)
    then have "q @ s @ z = drop 5 u" using take_nat_drop [of 4 5 u] by (simp add: q_def)
    then have "p @ q @ s @ z = drop 1 u" using take_nat_drop [of 4 1 u] by (simp add: p_def)
    then show ?thesis using len by (cases u) (auto simp: h_def)
  qed
  have l: "length p = 4" "length q = 4" "length s = length x" using len by (simp_all add: p_def q_def s_def)
  have m: "m = [h] @ p @ q @ x @ z"
    using assms(1) wr_mid [of 9 "[h] @ p @ q" x s z] l unfolding u by simp
  have m1: "m1 = [t] @ p @ q @ x @ z" using assms(2) m by (simp add: wr1_in)
  have m2: "m2 = [t] @ uint32_pack_big i @ q @ x @ z"
    using assms(3) wr_mid [of 1 "[t]" "uint32_pack_big i" p "q @ x @ z"] l unfolding m1 by simp
  have m3: "m3 = [t] @ uint32_pack_big i @ uint32_pack_big (of_nat (length x)) @ x @ z"
    using assms(4) wr_mid [of 5 "[t] @ uint32_pack_big i" "uint32_pack_big (of_nat (length x))" q "x @ z"] l unfolding m2 by simp
  have "9 + length x = length ([t] @ uint32_pack_big i @ uint32_pack_big (of_nat (length x)) @ x)" by simp
  moreover have "m3 = ([t] @ uint32_pack_big i @ uint32_pack_big (of_nat (length x)) @ x) @ z" by (simp add: m3)
  ultimately have "take (9 + length x) m3 = [t] @ uint32_pack_big i @ uint32_pack_big (of_nat (length x)) @ x"
    by (metis append_eq_conv_conj)
  then show ?thesis by (simp add: ssh_string_def)
qed

lemma channel_read_cases:
  assumes "channel_read m off len w = Inr (r, m', w')" and "r \<noteq> 0"
  obtains x rest es where "child_rx w = Rx (x @ rest) # es" "x \<noteq> []" "int (length x) \<le> len" "int (length x) \<le> uint (ch_remotewindow w)"
    "r = int (length x)" "wr m off x = Inr m'"
    "w' = w\<lparr>child_rx := rx_rest rest es, ch_remotewindow := ch_remotewindow w - of_nat (length x)\<rparr>"
proof -
  define n where "n = (let r = (if len > 1048576 then 1048576 else len)
    in if r > uint (ch_remotewindow w) then uint (ch_remotewindow w) else r)"
  have g: "\<not> ch_maxpacket w = 0" "\<not> ch_pid w \<le> 0" "\<not> ch_fd1 w = -1" "\<not> len < 0" "\<not> ch_remotewindow w \<le> 0"
    using assms by (auto simp: channel_read_def split: if_splits)
  have n: "n \<le> len" "n \<le> uint (ch_remotewindow w)" "0 \<le> n" using g(4) by (auto simp: n_def Let_def)
  have rd: "(if n = 0 then Inr (0, m, channel_eof1 w)
      else case child_rx w of
             [] \<Rightarrow> Inl Blocked
           | e # es \<Rightarrow>
               (case e of
                  Rx_again \<Rightarrow> Inr (0, m, w\<lparr>child_rx := es\<rparr>)
                | Rx_error \<Rightarrow> Inr (0, m, channel_eof1 (w\<lparr>child_rx := es\<rparr>))
                | Rx xs \<Rightarrow>
                    if xs = [] then Inr (0, m, channel_eof1 (w\<lparr>child_rx := es\<rparr>))
                    else
                      bindr (wr m off (take (nat n) xs)) (\<lambda>m.
                        Inr (int (length (take (nat n) xs)), m, w\<lparr>child_rx := rx_rest (drop (nat n) xs) es,
                                                  ch_remotewindow := ch_remotewindow w - of_nat (length (take (nat n) xs))\<rparr>)))) =
      Inr (r, m', w')"
    using assms(1) g unfolding channel_read_def n_def Let_def by (simp only: if_False)
  have n0: "n \<noteq> 0" using rd assms(2) by (auto split: if_splits)
  obtain e es where e: "child_rx w = e # es" using rd n0 by (cases "child_rx w") auto
  obtain xs where xs: "e = Rx xs" "xs \<noteq> []" using rd n0 e assms(2) by (cases e) (auto split: if_splits)
  define x where "x = take (nat n) xs"
  obtain m1 where m1: "wr m off x = Inr m1" "r = int (length x)" "m' = m1"
    "w' = w\<lparr>child_rx := rx_rest (drop (nat n) xs) es, ch_remotewindow := ch_remotewindow w - of_nat (length x)\<rparr>"
    using rd n0 e xs by (auto simp: x_def bindr_eq_Inr)
  show thesis
  proof (rule that [of x "drop (nat n) xs" es])
    show "x \<noteq> []" using xs(2) n n0 by (simp add: x_def)
    have "int (length x) \<le> n" using n(3) by (simp add: x_def)
    then show "int (length x) \<le> len" "int (length x) \<le> uint (ch_remotewindow w)" using n by simp_all
  qed (use e xs m1 in \<open>simp_all add: x_def\<close>)
qed

section \<open>Properties\<close>

text \<open>
  C15. Starting the command interpreter leaks no descriptor: when it succeeds, exactly the two socket
  pairs are open in addition, one end of each with the session and one with the new task; when any of
  the calls on the way fails, the open descriptors are those from before and no task was started.
\<close>

theorem channel_exec_no_leak:
  "case channel_exec cmd w of
     Inl e \<Rightarrow> True
   | Inr (r, w') \<Rightarrow>
       (if r
        then \<exists>i o' c. tasks w' = (i, o', c) # tasks w \<and> ch_pid w' = 9999 \<and>
               mset (open_fds w') = mset (open_fds w) + {#ch_fd0 w', i, ch_fd1 w', o'#}
        else tasks w' = tasks w \<and> ch_pid w' = ch_pid w \<and> mset (open_fds w') = mset (open_fds w))"
proof (cases "channel_exec cmd w")
  case (Inr t)
  obtain r w' where t: "t = (r, w')" by (cases t) auto
  from Inr [unfolded t] show ?thesis
  proof (cases rule: channel_exec_cases)
    case failed
    then show ?thesis using fd_keptD [OF failed(2)] by (simp add: Inr t)
  next
    case (started u in0 in1 out0 out1 c)
    then show ?thesis using fd_keptD [OF started(2)] by (simp add: Inr t)
  qed
qed simp

text \<open>
  C6. The channel is a first-in first-out pipe to the child: after any sequence of data messages and
  writes that succeeds, what the child was given followed by what waits in the buffer is what it was
  before, followed by the data of the messages in their order. Nothing is lost, repeated or reordered,
  also when the child takes only part of a write.
\<close>

theorem channel_pipe_fifo:
  assumes "chan_running w" and "chan_run es w = Inr w'"
  shows "chan_running w' \<and>
    child_got w' @ take (nat (ch_len0 w')) (ch_buf0 w') =
    child_got w @ take (nat (ch_len0 w)) (ch_buf0 w) @ concat (map (case_option [] (\<lambda>x. x)) es)"
  using chan.run_stream [OF assms(1), of es w'] assms(2) unfolding chan_run_eq
  by (simp add: chan_stream_def chan_pending_def)

theorem channel_pipe_fifo_witness:
  "\<exists>w'. chan_run [Some [1, 2], None, Some [3]] chan_example = Inr w' \<and>
     child_got w' @ take (nat (ch_len0 w')) (ch_buf0 w') = [1, 2, 3]"
proof -
  have r: "chan_running chan_example" by (simp add: chan_running_def CHANNEL_BUFSIZE_def)
  obtain w1 where w1: "channel_put [1, 2] 2 chan_example = Inr w1" "child_tx w1 = [Tx_again]" "ch_fd0 w1 = 3" "ch_len0 w1 = 2"
      "ch_maxpacket w1 = 4096" "ch_pid w1 = 9999"
    using channel_put_eq [OF r, of "[1, 2]"] by (simp add: CHANNEL_BUFSIZE_def)
  have r1: "chan_running w1" using channel_put_stream(1) [OF r, of "[1, 2]" w1] w1(1) by simp
  define w2 where "w2 = w1\<lparr>child_tx := []\<rparr>"
  have w2: "chan_step_write w1 = Inr w2" using w1 by (simp add: chan_step_write_def channel_write_def w2_def)
  have r2: "chan_running w2" "ch_fd0 w2 = 3" "ch_len0 w2 = 2" using r1 w1 by (simp_all add: w2_def chan_running_def)
  obtain w3 where w3: "channel_put [3] 1 w2 = Inr w3"
    using channel_put_eq [OF r2(1), of "[3]"] r2(2,3) by (simp add: CHANNEL_BUFSIZE_def)
  have "chan_run [Some [1, 2], None, Some [3]] chan_example = Inr w3" using w1(1) w2 w3 by simp
  with channel_pipe_fifo [OF r this] show ?thesis by (intro exI [of _ w3]) simp
qed


lemma chan_example_flow: "flow_ok chan_example"
  by (simp add: flow_ok_def chan_running_def CHANNEL_BUFSIZE_def)



lemma wr_ok: "0 \<le> i \<Longrightarrow> i + int (length x) \<le> int (length m) \<Longrightarrow> \<exists>m'. wr m i x = Inr m' \<and> length m' = length m"
  by (auto simp: wr_in)


end
