(* ===== verification/Interp.thy ===== *)
theory Interp
  imports Packet
begin

text \<open>
  The command interpreter of port_channel.c, which runs as a task of its own on the other ends of the
  channel's two sockets: one command, or a prompt with line editing. What it does to the outside is a
  list of actions. The chip's data (free memory, cores, version of the framework) come from outside the
  repository: the \<open>k\<close>-th status query reads \<open>chip k\<close>.
\<close>

section \<open>Actions and texts\<close>

datatype iact = Out bytes | Delay nat | Close_rx | Close_tx
datatype iend = Ended | Restarted | Waiting

type_synonym chip = "nat \<Rightarrow> nat \<times> nat \<times> bytes"

abbreviation crlf :: bytes where
  "crlf \<equiv> [13, 10]"

definition help_text :: "bytes \<Rightarrow> iact list" where
  "help_text pre =
     [Out (pre @ lit ''Available commands:'' @ crlf),
      Out (lit ''  help | ?        Show this help message'' @ crlf),
      Out (lit ''  status          Show ESP32 system status'' @ crlf),
      Out (lit ''  reboot          Reboot the ESP32 chip'' @ crlf),
      Out (lit ''  exit            Disconnect the session'' @ crlf)]"

text \<open>\<open>%lu\<close> and \<open>%d\<close> of a number that is not negative.\<close>

fun decimal :: "nat \<Rightarrow> bytes" where
  "decimal n = (if n < 10 then [48 + of_nat n] else decimal (n div 10) @ [48 + of_nat (n mod 10)])"

declare decimal.simps [simp del]

text \<open>\<open>snprintf\<close> into 128 bytes keeps at most 127 characters.\<close>

definition status_text :: "bytes \<Rightarrow> nat \<times> nat \<times> bytes \<Rightarrow> bytes" where
  "status_text pre = (\<lambda>(heap, cores, ver). take 127
     (pre @ lit ''System Status:'' @ crlf @
      lit ''  Free Heap: '' @ decimal heap @ lit '' bytes'' @ crlf @
      lit ''  Chip Cores: '' @ decimal cores @ crlf @
      lit ''  IDF Version: '' @ ver @ crlf))"

text \<open>\<open>strcmp(s, t) == 0\<close> for an array \<open>s\<close> that holds a terminating zero.\<close>

definition strcmp_eq :: "bytes \<Rightarrow> bytes \<Rightarrow> bool" where
  "strcmp_eq s t \<longleftrightarrow> takeWhile (\<lambda>c. c \<noteq> 0) s = t"

definition cleanup :: "iact list" where
  "cleanup = [Delay 100, Close_rx, Close_tx]"

section \<open>One command\<close>

definition interp_single :: "chip \<Rightarrow> bytes \<Rightarrow> iend \<times> iact list" where
  "interp_single chip cmd =
     (if strcmp_eq cmd (lit ''help'') \<or> strcmp_eq cmd (lit ''?'') then (Ended, help_text [] @ cleanup)
      else if strcmp_eq cmd (lit ''status'') then (Ended, [Out (status_text [] (chip 0))] @ cleanup)
      else if strcmp_eq cmd (lit ''reboot'') then (Restarted, [Out (lit ''Rebooting ESP32...'' @ crlf), Delay 500])
      else (Ended, [Out (lit ''Unknown command. Type 'help' for options.'' @ crlf)] @ cleanup))"

section \<open>The prompt\<close>

text \<open>\<open>recv\<close> of one byte: nothing yet, the end or an error, or a byte.\<close>

datatype rx1 = Rx1_wait | Rx1_end | Rx1 u8 "rxev list"

fun recv1 :: "rxev list \<Rightarrow> rx1" where
  "recv1 [] = Rx1_wait"
| "recv1 (Rx (c # cs) # es) = Rx1 c (rx_rest cs es)"
| "recv1 (_ # es) = Rx1_end"

lemma recv1_weight: "recv1 es = Rx1 c es' \<Longrightarrow> rx_weight es' < rx_weight es"
  by (induction es rule: recv1.induct) (auto simp: rx_rest_def)

datatype line_end = Line | Hangup | Wait

text \<open>The loop that reads a line into \<open>buffer\<close>; \<open>n\<close> is \<open>buf_len\<close>, \<open>out\<close> the actions so far.\<close>

function read_line :: "bytes \<Rightarrow> int \<Rightarrow> rxev list \<Rightarrow> iact list \<Rightarrow> (line_end \<times> bytes \<times> int \<times> rxev list \<times> iact list) res" where
  "read_line buffer n es out =
     (if \<not> n < 255 then Inr (Line, buffer, n, es, out)
      else case recv1 es of
        Rx1_wait \<Rightarrow> Inr (Wait, buffer, n, es, out)
      | Rx1_end \<Rightarrow> Inr (Hangup, buffer, n, es, out)
      | Rx1 c es' \<Rightarrow>
          let out = out @ [Out [c]] in
          if c = 13 \<or> c = 10 then Inr (Line, buffer, n, es', out)
          else if c = 127 \<or> c = 8 then
            if n > 0
            then bindr (wr1 buffer (n - 1) 0) (\<lambda>buffer. read_line buffer (n - 1) es' (out @ [Out [32, 8]]))
            else read_line buffer n es' out
          else bindr (wr1 buffer n c) (\<lambda>buffer. read_line buffer (n + 1) es' out))"
  by pat_completeness auto
termination
  by (relation "measure (\<lambda>(buffer, n, es, out). rx_weight es)") (auto dest: recv1_weight)

declare read_line.simps [simp del]

lemma read_line_weight:
  "read_line buffer n es out = Inr (r, buffer', n', es', out') \<Longrightarrow>
   rx_weight es' \<le> rx_weight es \<and> (r = Line \<longrightarrow> n < 255 \<longrightarrow> rx_weight es' < rx_weight es)"
proof (induction buffer n es out rule: read_line.induct)
  case (1 buffer n es out)
  show ?case
  proof (cases "n < 255")
    case True
    show ?thesis
    proof (cases "recv1 es")
      case (Rx1 c es1)
      have less: "rx_weight es1 < rx_weight es" by (rule recv1_weight [OF Rx1])
      show ?thesis
      proof (cases "c = 13 \<or> c = 10")
        case True
        then show ?thesis
          using "1.prems" \<open>n < 255\<close> Rx1 less by (subst (asm) read_line.simps) (auto simp: Let_def)
      next
        case c: False
        have "rx_weight es' \<le> rx_weight es1"
        proof (cases "c = 127 \<or> c = 8")
          case t: True
          show ?thesis
          proof (cases "n > 0")
            case n: True
            then obtain m where m: "wr1 buffer (n - 1) 0 = Inr m"
                "read_line m (n - 1) es1 ((out @ [Out [c]]) @ [Out [32, 8]]) = Inr (r, buffer', n', es', out')"
              using "1.prems" \<open>n < 255\<close> Rx1 c t by (subst (asm) read_line.simps) (auto simp: Let_def bindr_eq_Inr)
            from "1.IH"(1) [OF _ Rx1 refl _ t n m(1)] m(2) \<open>n < 255\<close> c show ?thesis by auto
          next
            case n: False
            then have "read_line buffer n es1 (out @ [Out [c]]) = Inr (r, buffer', n', es', out')"
              using "1.prems" \<open>n < 255\<close> Rx1 c t by (subst (asm) read_line.simps) (auto simp: Let_def)
            from "1.IH"(2) [OF _ Rx1 refl _ t n] this \<open>n < 255\<close> c show ?thesis by auto
          qed
        next
          case t: False
          then obtain m where m: "wr1 buffer n c = Inr m"
              "read_line m (n + 1) es1 (out @ [Out [c]]) = Inr (r, buffer', n', es', out')"
            using "1.prems" \<open>n < 255\<close> Rx1 c by (subst (asm) read_line.simps) (auto simp: Let_def bindr_eq_Inr)
          from "1.IH"(3) [OF _ Rx1 refl _ t m(1)] m(2) \<open>n < 255\<close> c show ?thesis by auto
        qed
        then show ?thesis using less by simp
      qed
    qed (use "1.prems" True in \<open>subst (asm) read_line.simps, auto\<close>)+
  qed (use "1.prems" in \<open>subst (asm) read_line.simps, auto\<close>)
qed

text \<open>\<open>while (buf_len > 0 && (.. == CR || .. == LF)) buffer[--buf_len] = 0;\<close>\<close>

primrec trim_line :: "nat \<Rightarrow> bytes \<Rightarrow> (bytes \<times> int) res" where
  "trim_line 0 buffer = Inr (buffer, 0)"
| "trim_line (Suc n) buffer =
     bindr (rd1 buffer (int n)) (\<lambda>c.
     if c = 13 \<or> c = 10 then bindr (wr1 buffer (int n) 0) (trim_line n) else Inr (buffer, int (Suc n)))"

text \<open>What a command line does, and whether and how the loop ends with it.\<close>

definition interp_command :: "chip \<Rightarrow> nat \<Rightarrow> bytes \<Rightarrow> iend option \<times> nat \<times> iact list" where
  "interp_command chip k buffer =
     (if strcmp_eq buffer (lit ''help'') \<or> strcmp_eq buffer (lit ''?'') then (None, k, help_text crlf)
      else if strcmp_eq buffer (lit ''status'') then (None, Suc k, [Out (status_text crlf (chip k))])
      else if strcmp_eq buffer (lit ''reboot'')
      then (Some Restarted, k, [Out (crlf @ lit ''Rebooting ESP32...'' @ crlf), Delay 500])
      else if strcmp_eq buffer (lit ''exit'') then (Some Ended, k, [Out (crlf @ lit ''Goodbye!'' @ crlf)])
      else (None, k, [Out (crlf @ lit ''Unknown command. Type 'help' for options.'' @ crlf)]))"

definition prompt :: bytes where
  "prompt = crlf @ lit ''esp32> ''"

function interp_loop :: "chip \<Rightarrow> nat \<Rightarrow> rxev list \<Rightarrow> iact list \<Rightarrow> (iend \<times> iact list) res" where
  "interp_loop chip k es out =
     bindr (read_line (replicate 256 0) 0 es (out @ [Out prompt])) (\<lambda>(r, buffer, n, es', out).
     if r = Wait then Inr (Waiting, out)
     else if r = Hangup then Inr (Ended, out @ cleanup)
     else
       bindr (trim_line (nat n) buffer) (\<lambda>(buffer, n).
       if n = 0 then interp_loop chip k es' out
       else
         (case interp_command chip k buffer of
            (None, k', acts) \<Rightarrow> interp_loop chip k' es' (out @ acts)
          | (Some Ended, k', acts) \<Rightarrow> Inr (Ended, out @ acts @ cleanup)
          | (Some e, k', acts) \<Rightarrow> Inr (e, out @ acts))))"
  by pat_completeness auto
termination
proof (relation "measure (\<lambda>(chip, k, es, out). rx_weight es)", goal_cases)
  case (2 chip k es out x r y buffer z n w es' out')
  then show ?case using read_line_weight [of "replicate 256 0" 0 es "out @ [Out prompt]"] by (cases r) auto
next
  case (3 chip k es out x r y buffer z n w es' out')
  then show ?case using read_line_weight [of "replicate 256 0" 0 es "out @ [Out prompt]"] by (cases r) auto
qed simp

declare interp_loop.simps [simp del]

definition interpreter_task :: "chip \<Rightarrow> bytes option \<Rightarrow> rxev list \<Rightarrow> (iend \<times> iact list) res" where
  "interpreter_task chip cmd es =
     (case cmd of
        Some c \<Rightarrow> Inr (interp_single chip c)
      | None \<Rightarrow>
          interp_loop chip 0 es
            [Out (crlf @ lit ''=== Welcome to ESP32 SSH Config Server (TinySSH) ==='' @ crlf),
             Out (lit ''Type 'help' or '?' for available commands.'' @ crlf)])"

end
