(* ===== verification/Interp_Correct.thy ===== *)
theory Interp_Correct
  imports Interp
begin

text \<open>
  The command interpreter never leaves its line buffer, and what it executes is the line as the user
  edited it.
\<close>

section \<open>The line buffer\<close>

lemma read_line_safe:
  assumes "length buffer = 256" and "0 \<le> n" and "n \<le> 255"
  shows "\<exists>r buffer' n' es' out'. read_line buffer n es out = Inr (r, buffer', n', es', out') \<and>
    length buffer' = 256 \<and> 0 \<le> n' \<and> n' \<le> 255"
  using assms
proof (induction buffer n es out rule: read_line.induct)
  case (1 buffer n es out)
  show ?case
  proof (cases "n < 255")
    case n: True
    show ?thesis
    proof (cases "recv1 es")
      case (Rx1 c es1)
      consider "c = 13 \<or> c = 10" | "\<not> (c = 13 \<or> c = 10)" "c = 127 \<or> c = 8" "n > 0" | "\<not> (c = 13 \<or> c = 10)" "c = 127 \<or> c = 8" "\<not> n > 0"
        | "\<not> (c = 13 \<or> c = 10)" "\<not> (c = 127 \<or> c = 8)" by blast
      then show ?thesis
      proof cases
        case 1
        then show ?thesis using "1.prems" n Rx1 by (subst read_line.simps) simp
      next
        case 2
        have w: "wr1 buffer (n - 1) 0 = Inr (buffer[nat (n - 1) := 0])" using "1.prems" 2 by (simp add: wr1_in)
        from "1.IH"(1) [OF _ Rx1 refl 2(1,2,3) w] "1.prems" 2 n
        show ?thesis by (subst read_line.simps) (auto simp: Rx1 w)
      next
        case 3
        from "1.IH"(2) [OF _ Rx1 refl 3] "1.prems" 3 n show ?thesis by (subst read_line.simps) (auto simp: Rx1)
      next
        case 4
        have w: "wr1 buffer n c = Inr (buffer[nat n := c])" using "1.prems" by (simp add: wr1_in)
        from "1.IH"(3) [OF _ Rx1 refl 4 w] "1.prems" 4 n show ?thesis by (subst read_line.simps) (auto simp: Rx1 w)
      qed
    qed (use "1.prems" n in \<open>subst read_line.simps, simp\<close>)+
  qed (use "1.prems" in \<open>subst read_line.simps, simp\<close>)
qed

lemma trim_line_safe: "n \<le> length buffer \<Longrightarrow> \<exists>b m. trim_line n buffer = Inr (b, m)"
  by (induction n arbitrary: buffer) (auto simp: rd1_in wr1_in)

lemma interp_loop_safe: "\<exists>r. interp_loop chip k es out = Inr r"
proof (induction chip k es out rule: interp_loop.induct)
  case (1 chip k es out)
  obtain r b n es' out' where rl: "read_line (replicate 256 0) 0 es (out @ [Out prompt]) = Inr (r, b, n, es', out')"
    "length b = 256" "0 \<le> n" "n \<le> 255"
    using read_line_safe [of "replicate 256 0" 0 es "out @ [Out prompt]"] by auto
  show ?case
  proof (cases r)
    case Line
    obtain b' m where t: "trim_line (nat n) b = Inr (b', m)" using trim_line_safe [of "nat n" b] rl(2-4) by (auto simp: nat_le_iff)
    obtain e k' acts where c: "interp_command chip k b' = (e, k', acts)" by (cases "interp_command chip k b'") auto
    note IH = "1.IH" [OF rl(1) refl refl refl refl _ _ t refl]
    show ?thesis
    proof (cases "m = 0")
      case True
      then show ?thesis using IH(1) Line by (subst interp_loop.simps) (simp only: rl(1) t bindr_Inr prod.case, simp)
    next
      case False
      then show ?thesis
        using IH(2) [OF _ _ False c [symmetric] _ refl] Line
        by (subst interp_loop.simps) (cases e; simp only: rl(1) t c bindr_Inr prod.case, auto split: iend.split)
    qed
  qed (subst interp_loop.simps, simp only: rl(1) bindr_Inr prod.case, simp)+
qed

section \<open>Line editing\<close>

text \<open>
  The abstract editor: a backspace or delete character removes the last character of the line, every
  other one is added. \<open>echo\<close> is what the user sees, \<open>fits\<close> that the line stays below 255 characters.
\<close>

definition erases :: "u8 \<Rightarrow> bool" where
  "erases c \<longleftrightarrow> c = 127 \<or> c = 8"

definition edit1 :: "bytes \<Rightarrow> u8 \<Rightarrow> bytes" where
  "edit1 l c = (if erases c then butlast l else l @ [c])"

definition edit :: "bytes \<Rightarrow> bytes \<Rightarrow> bytes" where
  "edit l typed = foldl edit1 l typed"

primrec echo :: "bytes \<Rightarrow> bytes \<Rightarrow> iact list" where
  "echo l [] = []"
| "echo l (c # cs) = Out [c] # (if erases c \<and> l \<noteq> [] then [Out [32, 8]] else []) @ echo (edit1 l c) cs"

primrec fits :: "bytes \<Rightarrow> bytes \<Rightarrow> bool" where
  "fits l [] \<longleftrightarrow> length l < 255"
| "fits l (c # cs) \<longleftrightarrow> length l < 255 \<and> fits (edit1 l c) cs"

definition newline :: "u8 \<Rightarrow> bool" where
  "newline c \<longleftrightarrow> c = 13 \<or> c = 10"

text \<open>The bytes of a stream, however it is cut.\<close>

lemma recv1_stream:
  assumes "[] \<notin> set xs" and "concat xs = c # s"
  obtains ys where "recv1 (map Rx xs) = Rx1 c (map Rx ys)" "[] \<notin> set ys" "concat ys = s"
proof -
  obtain x xs' where x: "xs = x # xs'" using assms(2) by (cases xs) auto
  obtain d ds where d: "x = d # ds" using assms(1) x by (cases x) auto
  show ?thesis
  proof (rule that [of "if ds = [] then xs' else ds # xs'"])
    show "recv1 (map Rx xs) = Rx1 c (map Rx (if ds = [] then xs' else ds # xs'))"
      using assms(2) by (simp add: x d rx_rest_def)
  qed (use assms x d in auto)
qed

lemma buffer_add: "length l < 255 \<Longrightarrow> (l @ replicate (256 - length l) 0)[length l := c] = (l @ [c]) @ replicate (256 - length (l @ [c])) 0"
proof -
  assume "length l < 255"
  then have "256 - length l = Suc (256 - length (l @ [c]))" by simp
  then show ?thesis by (simp add: list_update_append del: length_append)
qed

lemma buffer_erase:
  assumes "l \<noteq> []" and "length l < 255"
  shows "(l @ replicate (256 - length l) 0)[length l - 1 := 0] = butlast l @ replicate (256 - length (butlast l)) 0"
proof -
  have "l = butlast l @ [last l]" using assms(1) by simp
  then obtain b x where l: "l = b @ [x]" by blast
  have "256 - length b = Suc (256 - Suc (length b))" using assms(2) l by simp
  then show ?thesis by (simp add: l list_update_append)
qed

lemma read_line_edit:
  assumes "[] \<notin> set xs" and "concat xs = typed @ t # rest" and "\<forall>c \<in> set typed. \<not> newline c" and "newline t" and "fits l typed"
  shows "\<exists>ys. [] \<notin> set ys \<and> concat ys = rest \<and>
    read_line (l @ replicate (256 - length l) 0) (int (length l)) (map Rx xs) out =
      Inr (Line, edit l typed @ replicate (256 - length (edit l typed)) 0, int (length (edit l typed)), map Rx ys,
        out @ echo l typed @ [Out [t]])"
  using assms(1-3,5)
proof (induction typed arbitrary: xs l out)
  case Nil
  obtain ys where ys: "recv1 (map Rx xs) = Rx1 t (map Rx ys)" "[] \<notin> set ys" "concat ys = rest"
    using recv1_stream [OF Nil.prems(1)] Nil.prems(2) by auto
  then show ?case
    using Nil.prems(4) assms(4)
    by (intro exI [of _ ys]) (subst read_line.simps, simp add: newline_def edit_def)
next
  case (Cons c typed)
  obtain ys where ys: "recv1 (map Rx xs) = Rx1 c (map Rx ys)" "[] \<notin> set ys" "concat ys = typed @ t # rest"
    using recv1_stream [OF Cons.prems(1)] Cons.prems(2) by auto
  have l: "length l < 255" "fits (edit1 l c) typed" and c: "\<not> newline c" using Cons.prems by auto
  let ?out = "out @ Out [c] # (if erases c \<and> l \<noteq> [] then [Out [32, 8]] else [])"
  have step: "read_line (l @ replicate (256 - length l) 0) (int (length l)) (map Rx xs) out =
      read_line (edit1 l c @ replicate (256 - length (edit1 l c)) 0) (int (length (edit1 l c))) (map Rx ys) ?out"
  proof (cases "erases c")
    case e: True
    show ?thesis
    proof (cases "l = []")
      case True
      then show ?thesis using e c ys(1) by (subst read_line.simps) (auto simp: erases_def newline_def edit1_def)
    next
      case False
      have "wr1 (l @ replicate (256 - length l) 0) (int (length l) - 1) 0 =
          Inr (butlast l @ replicate (256 - length (butlast l)) 0)"
        using False l(1) buffer_erase [OF False l(1)] by (simp add: wr1_in nat_diff_distrib Suc_le_eq)
      moreover have "int (length l) - 1 = int (length (butlast l))" using False by (simp add: of_nat_diff Suc_le_eq)
      ultimately show ?thesis
        using False e c ys(1) l(1)
        by (subst read_line.simps) (simp add: erases_def newline_def edit1_def del: length_butlast)
    qed
  next
    case False
    have "wr1 (l @ replicate (256 - length l) 0) (int (length l)) c = Inr ((l @ [c]) @ replicate (256 - length (l @ [c])) 0)"
      using l(1) buffer_add [OF l(1)] by (simp add: wr1_in)
    then show ?thesis
      using False c ys(1) l(1)
      by (subst read_line.simps) (simp add: erases_def newline_def edit1_def add.commute)
  qed
  obtain zs where "[] \<notin> set zs" "concat zs = rest"
    "read_line (edit1 l c @ replicate (256 - length (edit1 l c)) 0) (int (length (edit1 l c))) (map Rx ys) ?out =
      Inr (Line, edit (edit1 l c) typed @ replicate (256 - length (edit (edit1 l c) typed)) 0, int (length (edit (edit1 l c) typed)),
        map Rx zs, ?out @ echo (edit1 l c) typed @ [Out [t]])"
    using Cons.IH [OF ys(2,3) _ l(2), of ?out] Cons.prems(3) by (auto simp del: append.simps append_assoc)
  then show ?case unfolding step by (intro exI [of _ zs]) (simp add: edit_def)
qed

lemma trim_line_edit:
  assumes "\<forall>c \<in> set l. \<not> newline c"
  shows "trim_line (length l) (l @ z) = Inr (l @ z, int (length l))"
proof (cases l rule: rev_cases)
  case (snoc b x)
  then have "\<not> newline x" using assms by simp
  then show ?thesis by (simp add: snoc rd1_in nth_append newline_def)
qed simp

lemma edit_no_newline: "\<forall>c \<in> set (l @ typed). \<not> newline c \<Longrightarrow> \<forall>c \<in> set (edit l typed). \<not> newline c"
proof (induction typed arbitrary: l)
  case (Cons c typed)
  have "\<forall>d \<in> set (edit1 l c @ typed). \<not> newline d"
    using Cons.prems by (auto simp: edit1_def dest: in_set_butlastD)
  then show ?case using Cons.IH [of "edit1 l c"] by (simp add: edit_def)
qed (simp add: edit_def)

lemma edit_fits: "fits l typed \<Longrightarrow> length (edit l typed) < 255"
  by (induction typed arbitrary: l) (auto simp: edit_def)

section \<open>Properties\<close>

text \<open>
  C35. The interpreter never reads or writes outside its 256-byte line buffer, whatever is typed and
  however it arrives, and every run of it ends: with the end of the session, with a restart of the
  board, or waiting for the next byte.
\<close>

theorem interpreter_safe:
  "\<exists>e acts. interpreter_task chip cmd es = Inr (e, acts)"
  using interp_loop_safe by (cases cmd) (auto simp: interpreter_task_def)

text \<open>
  C36. The prompt is a line editor: the bytes typed up to the next CR or LF are echoed, the line that
  results from the editing is what is compared with the commands (an empty one gives a new prompt), and
  the input behind it is left for the next line, however the stream is cut into pieces, as long as the
  line stays below 255 characters.
\<close>

theorem interp_line_editor:
  assumes "[] \<notin> set xs" and "concat xs = typed @ t # rest" and "\<forall>c \<in> set typed. \<not> newline c" and "newline t" and "fits [] typed"
  shows "\<exists>ys. [] \<notin> set ys \<and> concat ys = rest \<and>
    interp_loop chip k (map Rx xs) out =
      (let line = edit [] typed; out' = out @ [Out prompt] @ echo [] typed @ [Out [t]] in
       if line = [] then interp_loop chip k (map Rx ys) out'
       else case interp_command chip k (line @ replicate (256 - length line) 0) of
              (None, k', acts) \<Rightarrow> interp_loop chip k' (map Rx ys) (out' @ acts)
            | (Some Ended, k', acts) \<Rightarrow> Inr (Ended, out' @ acts @ cleanup)
            | (Some e, k', acts) \<Rightarrow> Inr (e, out' @ acts))"
proof -
  from read_line_edit [OF assms, of "out @ [Out prompt]", unfolded append_Nil list.size diff_zero int_ops(1)]
  obtain ys where ys: "[] \<notin> set ys" "concat ys = rest"
    "read_line (replicate 256 0) 0 (map Rx xs) (out @ [Out prompt]) =
      Inr (Line, edit [] typed @ replicate (256 - length (edit [] typed)) 0, int (length (edit [] typed)), map Rx ys,
        (out @ [Out prompt]) @ echo [] typed @ [Out [t]])" by (elim exE conjE)
  have nl: "\<forall>c \<in> set (edit [] typed). \<not> newline c" using edit_no_newline [of "[]"] assms(3) by simp
  have "interp_loop chip k (map Rx xs) out =
      (let line = edit [] typed; out' = out @ [Out prompt] @ echo [] typed @ [Out [t]] in
       if line = [] then interp_loop chip k (map Rx ys) out'
       else case interp_command chip k (line @ replicate (256 - length line) 0) of
              (None, k', acts) \<Rightarrow> interp_loop chip k' (map Rx ys) (out' @ acts)
            | (Some Ended, k', acts) \<Rightarrow> Inr (Ended, out' @ acts @ cleanup)
            | (Some e, k', acts) \<Rightarrow> Inr (e, out' @ acts))"
    by (subst interp_loop.simps) (simp add: ys(3) trim_line_edit [OF nl] Let_def)
  then show ?thesis using ys(1,2) by blast
qed

text \<open>The line \<open>exut\<close>, corrected to \<open>exit\<close> by two backspaces, in three pieces: the session ends.\<close>

theorem interp_line_editor_witness:
  "interp_loop (\<lambda>_. (0, 0, [])) 0 (map Rx [lit ''ex'', lit ''ut'' @ [8, 8], lit ''it'' @ [13]]) [] =
     Inr (Ended, [Out prompt] @ map (\<lambda>c. Out [c]) (lit ''exut'') @ [Out [8], Out [32, 8], Out [8], Out [32, 8]] @
       map (\<lambda>c. Out [c]) (lit ''it'') @ [Out [13], Out (crlf @ lit ''Goodbye!'' @ crlf)] @ cleanup)"
proof -
  have e: "edit [] (lit ''exut'' @ [8, 8] @ lit ''it'') = lit ''exit''" by (simp add: edit_def edit1_def erases_def)
  have c: "interp_command (\<lambda>_. (0, 0, [])) 0 (lit ''exit'' @ replicate (256 - length (lit ''exit'')) 0) =
      (Some Ended, 0, [Out (crlf @ lit ''Goodbye!'' @ crlf)])"
    by (simp add: interp_command_def strcmp_eq_def)
  show ?thesis
    using interp_line_editor [of "[lit ''ex'', lit ''ut'' @ [8, 8], lit ''it'' @ [13]]" "lit ''exut'' @ [8, 8] @ lit ''it''" 13 "[]"
        "\<lambda>_. (0, 0, [])" 0 "[]"] e c
    by (auto simp: Let_def newline_def erases_def edit1_def)
qed

end
