(* ===== verification/Session.thy ===== *)
theory Session
  imports Channel_Correct Interp_Correct
begin

text \<open>
  The life of a session: port_global.c and port_main_tinysshd.c. \<open>alarm\<close>, \<open>signal\<close>, \<open>chdir\<close> and
  \<open>fchdir\<close> are macros of tinyssh-config.h that do nothing, so the time limits the code sets have no
  effect; descriptor 0 and 1 are the connection. Leaving the process is the longjmp of the port: a run
  that ends so is an error value.
\<close>

section \<open>Options\<close>

text \<open>The option letters and their settings; \<open>None\<close> is \<open>die_usage\<close>.\<close>

record opts =
  o_crypto :: u32
  o_verbose :: int
  o_logger :: bool
  o_subsystems :: "bytes list"

definition opts_start :: opts where
  "opts_start = \<lparr>o_crypto = TYPENEWCRYPTO OR TYPEPQCRYPTO, o_verbose = 1, o_logger = False, o_subsystems = []\<rparr>"

definition add_subsystem :: "bytes \<Rightarrow> opts \<Rightarrow> opts" where
  "add_subsystem x opt = opt\<lparr>o_subsystems := snd (channel_subsystem_add x (o_subsystems opt))\<rparr>"

text \<open>
  The characters behind a \<open>-\<close>, and the arguments that follow; strings without their terminating zero.
\<close>

primrec option_chars :: "bytes \<Rightarrow> bytes list \<Rightarrow> opts \<Rightarrow> (bytes list \<times> opts) option" where
  "option_chars [] args opt = Some (args, opt)"
| "option_chars (c # cs) args opt =
     (if c = of_char CHR ''q'' then option_chars cs args (opt\<lparr>o_verbose := 0\<rparr>)
      else if c = of_char CHR ''Q'' then option_chars cs args (opt\<lparr>o_verbose := 1\<rparr>)
      else if c = of_char CHR ''v'' then option_chars cs args (opt\<lparr>o_verbose := if o_verbose opt \<ge> 2 then 3 else 2\<rparr>)
      else if c = of_char CHR ''o'' then option_chars cs args (opt\<lparr>o_crypto := o_crypto opt OR TYPEOLDCRYPTO\<rparr>)
      else if c = of_char CHR ''O'' then option_chars cs args (opt\<lparr>o_crypto := o_crypto opt AND NOT TYPEOLDCRYPTO\<rparr>)
      else if c = of_char CHR ''s'' then option_chars cs args (opt\<lparr>o_crypto := o_crypto opt OR TYPENEWCRYPTO\<rparr>)
      else if c = of_char CHR ''S'' then option_chars cs args (opt\<lparr>o_crypto := o_crypto opt AND NOT TYPENEWCRYPTO\<rparr>)
      else if c = of_char CHR ''p'' then option_chars cs args (opt\<lparr>o_crypto := o_crypto opt OR TYPEPQCRYPTO\<rparr>)
      else if c = of_char CHR ''P'' then option_chars cs args (opt\<lparr>o_crypto := o_crypto opt AND NOT TYPEPQCRYPTO\<rparr>)
      else if c = of_char CHR ''l'' then option_chars cs args (opt\<lparr>o_logger := True\<rparr>)
      else if c = of_char CHR ''L'' then option_chars cs args (opt\<lparr>o_logger := False\<rparr>)
      else if c = of_char CHR ''x'' \<and> cs \<noteq> [] then Some (args, add_subsystem (cs @ [0]) opt)
      else if c = of_char CHR ''x'' \<and> args \<noteq> [] then Some (tl args, add_subsystem (hd args @ [0]) opt)
      else None)"

lemma option_chars_length: "option_chars cs args opt = Some (args', opt') \<Longrightarrow> length args' \<le> length args"
  by (induction cs arbitrary: opt) (auto split: if_splits)

text \<open>The loop over \<open>argv[1], argv[2], ..\<close>: it stops at an argument that is no option, behind \<open>-\<close> or \<open>--\<close>.\<close>

function main_options :: "bytes list \<Rightarrow> opts \<Rightarrow> (bytes list \<times> opts) option" where
  "main_options [] opt = Some ([], opt)"
| "main_options (a # args) opt =
     (if a = [] \<or> hd a \<noteq> 45 then Some (a # args, opt)
      else if a = [45] then Some (args, opt)
      else if a = [45, 45] then Some (args, opt)
      else case option_chars (tl a) args opt of None \<Rightarrow> None | Some (args, opt) \<Rightarrow> main_options args opt)"
  by pat_completeness auto
termination by (relation "measure (\<lambda>(args, opt). length args)") (auto dest: option_chars_length)

section \<open>port_global.c\<close>

definition GLOBAL_BSIZE :: nat where
  "GLOBAL_BSIZE = 8192"

text \<open>The two workspaces and the state; newenv_init only clears an environment nothing reads.\<close>

definition global_init :: "'a sess_scheme \<Rightarrow> (buf \<times> buf \<times> 'a sess_scheme) res" where
  "global_init w =
     bindr (packet_init w) (\<lambda>w.
     let w = channel_init w in
     bindr (sshcrypto_init (crypt w)) (\<lambda>_.
     let b = \<lparr>bmem = replicate GLOBAL_BSIZE 0, blen = 0, balloc = int GLOBAL_BSIZE\<rparr> in Inr (b, b, w)))"

text \<open>What outlives the session: the channel, which all sessions share, and the tables.\<close>

definition global_purge :: "'a sess_scheme \<Rightarrow> 'a sess_scheme res" where
  "global_purge w =
     (let w = channel_purge w in
      bindr (sshcrypto_purge (crypt w)) (\<lambda>s. Inr (w\<lparr>crypt := s\<rparr>)))"

section \<open>port_main_tinysshd.c: from the start to the main loop\<close>

text \<open>
  The public keys of the host, from the \<open>i\<close>-th entry of the table on; \<open>enoent\<close> is whether a failed
  \<open>load\<close> leaves \<open>ENOENT\<close> in \<open>errno\<close>.
\<close>

primrec load_keys :: "nat \<Rightarrow> prims \<Rightarrow> bool \<Rightarrow> nat \<Rightarrow> 'a sess_scheme \<Rightarrow> 'a sess_scheme res" where
  "load_keys 0 p enoent i w = Inl Oob"
| "load_keys (Suc n) p enoent i w =
     (let k = keys (crypt w) ! i in
      if ky_name k = None then Inr w
      else if ky_flagserver k = 0 then load_keys n p enoent (Suc i) w
      else
        bindr (load p (ky_publickeyfilename k) (ky_publickey k) (ky_publickeybytes k) w) (\<lambda>(r, pk, w).
        let ks = keys (crypt w); put = (\<lambda>k. w\<lparr>crypt := (crypt w)\<lparr>keys := ks[i := k]\<rparr>\<rparr>) in
        if r = -1
        then (if enoent then load_keys n p enoent (Suc i) (put ((ks ! i)\<lparr>ky_publickey := pk, ky_flagserver := 0\<rparr>)) else Inl Fatal)
        else load_keys n p enoent (Suc i) (put ((ks ! i)\<lparr>ky_publickey := pk\<rparr>))))"

definition must :: "(bool \<times> 'a) res \<Rightarrow> 'a res" where
  "must m = bindr m (\<lambda>(r, x). if \<not> r then Inl Fatal else Inr x)"

definition session_start :: "prims \<Rightarrow> bool \<Rightarrow> u32 \<Rightarrow> 'a sess_scheme \<Rightarrow> (buf \<times> buf \<times> 'a sess_scheme) res" where
  "session_start p enoent sel w =
     bindr (global_init w) (\<lambda>(b1, b2, w).
     if open_cwd = -1 then Inl Fatal
     else
     bindr (enable_crypto sel (crypt w)) (\<lambda>s.
     let w = w\<lparr>crypt := s\<rparr> in
     bindr (load_keys (length (keys s)) p enoent 0 w) (\<lambda>w.
     bindr (must (packet_hello_send w)) (\<lambda>w.
     bindr (must (packet_hello_receive w)) (\<lambda>w.
     bindr (must (packet_kex_send w)) (\<lambda>w.
     bindr (must (packet_kex_receive w)) (\<lambda>w. Inr (b1, b2, w))))))))"

text \<open>
  From the label \<open>rekeying\<close> to the main loop. \<open>l_pk0\<close>, \<open>l_sig0\<close> and \<open>l_junk\<close> give what the local arrays of
  the key exchange and the authentication hold before they are written, \<open>l_fuel\<close> is the fuel of
  \<open>packet_kexdh\<close>.
\<close>

record locals =
  l_fuel :: nat
  l_junk :: "nat \<Rightarrow> nat \<Rightarrow> u8"
  l_pk0 :: "nat \<Rightarrow> u8"
  l_sig0 :: "nat \<Rightarrow> u8"

definition session_rekey :: "prims \<Rightarrow> locals \<Rightarrow> buf \<Rightarrow> buf \<Rightarrow> 'a sess_scheme \<Rightarrow> (buf \<times> buf \<times> 'a sess_scheme) res" where
  "session_rekey p l b1 b2 w =
     bindr (if flagrekeying w
            then
              bindr (buf_purge (kexrecv w)) (\<lambda>k.
              bindr (buf_put k (bmem b1) (blen b1)) (\<lambda>k.
              must (packet_kex_send (w\<lparr>kexrecv := k\<rparr>))))
            else Inr w) (\<lambda>w.
     bindr (must (packet_kexdh (l_fuel l) p (\<lambda>n. map (l_junk l n) [0..<n]) b1 b2 w)) (\<lambda>(b1, b2, w).
     let w = w\<lparr>flagkeys := True\<rparr> in
     if \<not> flagauthorized w
     then
       bindr (must (packet_auth p (map (l_pk0 l) [0..<32]) (map (l_sig0 l) [0..<64]) b1 b2 w)) (\<lambda>(b1, b2, w).
         Inr (b1, b2, w\<lparr>flagauthorized := True\<rparr>))
     else Inr (b1, b2, w)))"

section \<open>The main loop\<close>

text \<open>
  The result of \<open>poll\<close>: an error, or which of the descriptors that were asked for have events. How a
  round ends: with another round, with a key exchange, or with the end of the session.
\<close>

record pollev =
  p_out :: bool
  p_in :: bool
  p_tochild :: bool
  p_fromchild1 :: bool

datatype mainres = Again | Rekey | Finish | Out_of_fuel

text \<open>One received packet in \<open>b1\<close>.\<close>

definition handle_packet :: "buf \<Rightarrow> buf \<Rightarrow> 'a sess_scheme \<Rightarrow> (buf \<times> buf \<times> 'a sess_scheme) res" where
  "handle_packet b1 b2 w =
     bindr (rd1 (bmem b1) 0) (\<lambda>t.
     if t = SSH_MSG_CHANNEL_OPEN then packet_channel_open b1 b2 w
     else if t = SSH_MSG_CHANNEL_REQUEST then packet_channel_request b1 b2 w
     else if t = SSH_MSG_CHANNEL_DATA then bindr (packet_channel_recv_data b1 w) (\<lambda>(b1, w). Inr (b1, b2, w))
     else if t = SSH_MSG_CHANNEL_EXTENDED_DATA then bindr (packet_channel_recv_extendeddata b1 w) (\<lambda>(b1, w). Inr (b1, b2, w))
     else if t = SSH_MSG_CHANNEL_WINDOW_ADJUST then bindr (packet_channel_recv_windowadjust b1 w) (\<lambda>(b1, w). Inr (b1, b2, w))
     else if t = SSH_MSG_CHANNEL_EOF then bindr (packet_channel_recv_eof b1 w) (\<lambda>(b1, w). Inr (b1, b2, w))
     else if t = SSH_MSG_CHANNEL_CLOSE then bindr (packet_channel_recv_close b1 w) (\<lambda>(b1, w). Inr (b1, b2, w))
     else bindr (must (packet_unimplemented b1 w)) (\<lambda>(b1, w). Inr (b1, b2, w)))"

text \<open>The loop over the received packets; \<open>fuel\<close> bounds their number.\<close>

primrec process_packets :: "nat \<Rightarrow> buf \<Rightarrow> buf \<Rightarrow> 'a sess_scheme \<Rightarrow> (mainres \<times> buf \<times> buf \<times> 'a sess_scheme) res" where
  "process_packets 0 b1 b2 w = Inr (Out_of_fuel, b1, b2, w)"
| "process_packets (Suc fuel) b1 b2 w =
     bindr (packet_get b1 0 w) (\<lambda>(r, b1, w).
     if \<not> r then Inr (Again, b1, b2, w)
     else if blen b1 < 1 then Inr (Again, b1, b2, w)
     else bindr (rd1 (bmem b1) 0) (\<lambda>t.
          if t = SSH_MSG_KEXINIT then Inr (Rekey, b1, b2, w)
          else bindr (handle_packet b1 b2 w) (\<lambda>(b1, b2, w). process_packets fuel b1 b2 w)))"

text \<open>The descriptors of \<open>selfpipe\<close> are -1 and stay so: \<open>open_pipe\<close> of the port opens nothing.\<close>

definition check_child :: "(string \<Rightarrow> int option) \<Rightarrow> buf \<Rightarrow> 'a sess_scheme \<Rightarrow> (buf \<times> 'a sess_scheme) res" where
  "check_child sig b2 w =
     (if \<not> channel_iseof w then Inr (b2, w)
      else if open_pipe = -1 then Inl Fatal
      else
        bindr (channel_waitnohang w) (\<lambda>(r, exitsignal, exitcode, w).
        if \<not> r then Inr (b2, w)
        else
          bindr (packet_channel_send_eof b2 w) (\<lambda>(b2, w).
          must (packet_channel_send_close sig b2 exitsignal exitcode w))))"

definition child_io :: "bool \<Rightarrow> bool \<Rightarrow> buf \<Rightarrow> buf \<Rightarrow> 'a sess_scheme \<Rightarrow> (buf \<times> buf \<times> 'a sess_scheme) res" where
  "child_io watchtochild watchfromchild1 b1 b2 w =
     bindr (if watchtochild
            then
              bindr (must (channel_write w)) (\<lambda>w. packet_channel_send_windowadjust b1 w)
            else Inr (b1, w)) (\<lambda>(b1, w).
     bindr (if watchfromchild1 then packet_channel_send_data b2 w else Inr (b2, w)) (\<lambda>(b2, w). Inr (b1, b2, w)))"

definition main_iter :: "(string \<Rightarrow> int option) \<Rightarrow> pollev option \<Rightarrow> buf \<Rightarrow> buf \<Rightarrow> 'a sess_scheme \<Rightarrow>
    (mainres \<times> buf \<times> buf \<times> 'a sess_scheme) res" where
  "main_iter sig ev b1 b2 w =
     (if channel_iseof w \<and> blen (sendbuf w) = 0 \<and> flagchanneleofreceived w then Inr (Finish, b1, b2, w)
      else
        let fired = (\<lambda>f. case ev of None \<Rightarrow> False | Some e \<Rightarrow> f e) in
        bindr (packet_recvisready w) (\<lambda>recvready.
        bindr (if channel_readisready w then packet_putisready w else Inr False) (\<lambda>readready.
        let watch1 = (packet_sendisready w \<and> fired p_out); watch0 = (recvready \<and> fired p_in);
            watchtochild = (channel_writeisready w \<and> fired p_tochild); watchfromchild1 = (readready \<and> fired p_fromchild1) in
        bindr (child_io watchtochild watchfromchild1 b1 b2 w) (\<lambda>(b1, b2, w).
        bindr (check_child sig b2 w) (\<lambda>(b2, w).
        bindr (if watch1 then must (packet_send w) else Inr w) (\<lambda>w.
        bindr (if watch0 then packet_recv w else Inr (True, w)) (\<lambda>(r, w).
        if \<not> r then (if channel_iseof w then Inr (Finish, b1, b2, w) else Inl Fatal)
        else process_packets (Suc (nat (blen (recvbuf w)))) b1 b2 w)))))))"

section \<open>The session as a state machine\<close>

text \<open>
  The label \<open>rekeying\<close>, the head of the main loop, and behind the loop. A step is told what the locals
  of the key exchange hold and what \<open>poll\<close> reports.
\<close>

datatype phase = Keying | Looping | Finished | Stuck

type_synonym config = "phase \<times> buf \<times> buf \<times> sess"

definition session_next :: "prims \<Rightarrow> (string \<Rightarrow> int option) \<Rightarrow> locals \<times> pollev option \<Rightarrow> config \<Rightarrow> config res" where
  "session_next p sig e s =
     (let (l, ev) = e; (ph, b1, b2, w) = s in
      case ph of
        Keying \<Rightarrow> bindr (session_rekey p l b1 b2 w) (\<lambda>s. Inr (Looping, s))
      | Looping \<Rightarrow>
          bindr (main_iter sig ev b1 b2 w) (\<lambda>(m, s).
            Inr (case m of Again \<Rightarrow> Looping | Rekey \<Rightarrow> Keying | Finish \<Rightarrow> Finished | Out_of_fuel \<Rightarrow> Stuck, s))
      | Finished \<Rightarrow> Inr s
      | Stuck \<Rightarrow> Inr s)"

primrec session_steps :: "prims \<Rightarrow> (string \<Rightarrow> int option) \<Rightarrow> (locals \<times> pollev option) list \<Rightarrow> config \<Rightarrow> config res" where
  "session_steps p sig [] s = Inr s"
| "session_steps p sig (e # es) s = bindr (session_next p sig e s) (session_steps p sig es)"

definition session_run :: "prims \<Rightarrow> (string \<Rightarrow> int option) \<Rightarrow> bool \<Rightarrow> u32 \<Rightarrow> (locals \<times> pollev option) list \<Rightarrow> sess \<Rightarrow> config res" where
  "session_run p sig enoent sel es w =
     bindr (session_start p enoent sel w) (\<lambda>s. session_steps p sig es (Keying, s))"

text \<open>The same as a step relation, and what it reaches from the start of the main program.\<close>

inductive session_step :: "prims \<Rightarrow> (string \<Rightarrow> int option) \<Rightarrow> config \<Rightarrow> config \<Rightarrow> bool" for p sig where
  keying: "session_rekey p l b1 b2 w = Inr s \<Longrightarrow> session_step p sig (Keying, b1, b2, w) (Looping, s)"
| again: "main_iter sig ev b1 b2 w = Inr (Again, s) \<Longrightarrow> session_step p sig (Looping, b1, b2, w) (Looping, s)"
| rekey: "main_iter sig ev b1 b2 w = Inr (Rekey, s) \<Longrightarrow> session_step p sig (Looping, b1, b2, w) (Keying, s)"
| finish: "main_iter sig ev b1 b2 w = Inr (Finish, s) \<Longrightarrow> session_step p sig (Looping, b1, b2, w) (Finished, s)"
| stuck: "main_iter sig ev b1 b2 w = Inr (Out_of_fuel, s) \<Longrightarrow> session_step p sig (Looping, b1, b2, w) (Stuck, s)"

inductive_cases session_stepE: "session_step p sig s s'"

inductive reachable :: "prims \<Rightarrow> (string \<Rightarrow> int option) \<Rightarrow> config \<Rightarrow> config \<Rightarrow> bool" for p sig s0 where
  here: "reachable p sig s0 s0"
| step: "reachable p sig s0 s \<Longrightarrow> session_step p sig s s' \<Longrightarrow> reachable p sig s0 s'"

lemma reachable_trans: "reachable p sig s1 s2 \<Longrightarrow> reachable p sig s0 s1 \<Longrightarrow> reachable p sig s0 s2"
  by (induction rule: reachable.induct) (auto intro: reachable.step)

lemma session_next_reachable:
  assumes "session_next p sig e s = Inr s'"
  shows "reachable p sig s s'"
proof -
  obtain l ev ph b1 b2 w where s: "e = (l, ev)" "s = (ph, b1, b2, w)" by (cases e; cases s) auto
  have "s' = s \<or> session_step p sig s s'"
  proof (cases ph)
    case Looping
    then obtain m t where m: "main_iter sig ev b1 b2 w = Inr (m, t)" using assms s by (auto simp: session_next_def bindr_eq_Inr)
    then show ?thesis using assms Looping s
      by (cases m) (auto simp: session_next_def intro: session_step.intros)
  qed (use assms s in \<open>auto simp: session_next_def bindr_eq_Inr intro: session_step.intros\<close>)
  then show ?thesis by (auto intro: reachable.intros)
qed

lemma session_steps_reachable: "session_steps p sig es s = Inr s' \<Longrightarrow> reachable p sig s s'"
proof (induction es arbitrary: s)
  case (Cons e es)
  then obtain t where "session_next p sig e s = Inr t" "session_steps p sig es t = Inr s'" by (auto simp: bindr_eq_Inr)
  then show ?case using Cons.IH session_next_reachable reachable_trans by blast
qed (auto intro: reachable.here)

end
