(* ===== verification/Session_Correct.thy ===== *)
theory Session_Correct
  imports Session
begin

text \<open>
  What a session does between the messages: who is served, that the loop over the received messages
  ends, and what becomes of the session when the child has finished.
\<close>

section \<open>What the steps leave alone\<close>

definition flags_same :: "'a sess_scheme \<Rightarrow> 'a sess_scheme \<Rightarrow> bool" where
  "flags_same w w' \<longleftrightarrow> flagclosesent w' = flagclosesent w \<and> flagauthorized w' = flagauthorized w \<and>
     flagrekeying w' = flagrekeying w \<and> sessionid w' = sessionid w"

text \<open>A message never finishes the child's output, and it leaves the received bytes behind it alone.\<close>

definition tame :: "'a sess_scheme \<Rightarrow> 'a sess_scheme \<Rightarrow> bool" where
  "tame w w' \<longleftrightarrow> flags_same w w' \<and> recvbuf w' = recvbuf w \<and> (channel_iseof w' \<longrightarrow> channel_iseof w)"

lemma flags_same_refl [simp]: "flags_same w w"
  by (simp add: flags_same_def)

lemma flags_same_trans: "flags_same w w' \<Longrightarrow> flags_same w' w'' \<Longrightarrow> flags_same w w''"
  by (simp add: flags_same_def)

lemma tame_refl [simp]: "tame w w"
  by (simp add: tame_def)

lemma tame_trans: "tame w w' \<Longrightarrow> tame w' w'' \<Longrightarrow> tame w w''"
  by (auto simp: tame_def flags_same_def)

lemma more_iseof: "net.more w' = net.more w \<Longrightarrow> channel_iseof w' = channel_iseof w"
  by (simp add: channel_iseof_def more_sess [of w' w])

lemma kept_flags: "kept w w' \<Longrightarrow> flags_same w w' \<and> channel_iseof w' = channel_iseof w"
  using keptD [of w w'] more_iseof [of w' w] by (simp add: flags_same_def)

lemma packet_put_recvbuf: "packet_put b w = Inr w' \<Longrightarrow> recvbuf w' = recvbuf w"
proof -
  have "recvbuf w' = recvbuf w" if "chachapoly_packet_put b w = Inr w'"
  proof -
    obtain v w1 where r: "randommod 2 (w\<lparr>sendpacketid := sendpacketid w + 1\<rparr>) = (v, w1)" by fastforce
    then have "recvbuf w1 = recvbuf w" by (auto simp: randommod_def randombytes_def split: if_splits)
    then show ?thesis using that by (auto simp: chachapoly_packet_put_def bindr_eq_Inr Let_def r)
  qed
  moreover have "recvbuf w' = recvbuf w" if "packet_put_plain b w = Inr w'"
    using that by (auto simp: packet_put_plain_def bindr_eq_Inr Let_def)
  moreover assume "packet_put b w = Inr w'"
  ultimately show ?thesis by (auto simp: packet_put_def split: if_splits option.splits cipher_fn.splits)
qed

lemma packet_sendall_recvbuf: "packet_sendall w = Inr (r, w') \<Longrightarrow> recvbuf w' = recvbuf w"
  by (auto simp: packet_sendall_def net_writeall_def bindr_eq_Inr split: if_splits)

lemma tame_put: "packet_put b w = Inr w' \<Longrightarrow> tame w w'"
  using kept_flags [OF kept_put, of b w w'] packet_put_recvbuf [of b w w'] by (simp add: tame_def)

lemma tame_sendall: "packet_sendall w = Inr (r, w') \<Longrightarrow> tame w w'"
  using kept_flags [OF kept_sendall, of w r w'] packet_sendall_recvbuf [of w r w'] by (simp add: tame_def)

text \<open>A message taken out of the buffer makes it shorter.\<close>

lemma packet_get_raw_less:
  assumes "packet_get_raw b w = Inr (b', w')"
  shows "b' = b \<or> blen (recvbuf w') < blen (recvbuf w) \<and> 0 \<le> blen (recvbuf w')"
proof -
  have pos: "0 < uint x + (auth_bytes (crypt w) + 4)" "- auth_bytes (crypt w) - 4 < uint x" "- uint x < 4" for x :: u32
    using auth_bytes_ge [of "crypt w"] uint_ge_0 [of x] by linarith+
  have "b' = b \<or> blen (recvbuf w') < blen (recvbuf w) \<and> 0 \<le> blen (recvbuf w')" if "chachapoly_packet_get b w = Inr (b', w')"
    using that pos
    by (auto simp: chachapoly_packet_get_def bindr_eq_Inr Let_def not_le not_less PACKET_ZEROBYTES_def
        dest!: chachapoly_packet_length_only split: if_splits)
  moreover have "b' = b \<or> blen (recvbuf w') < blen (recvbuf w) \<and> 0 \<le> blen (recvbuf w')" if "packet_get_plain b w = Inr (b', w')"
    using that pos
    by (auto simp: packet_get_plain_def bindr_eq_Inr Let_def not_le not_less PACKET_ZEROBYTES_def split: if_splits)
  ultimately show ?thesis
    using assms by (auto simp: packet_get_raw_def split: if_splits option.splits cipher_fn.splits)
qed

lemma packet_get_less:
  assumes "packet_get b x w = Inr (r, b', w')" and "0 < blen b'"
  shows "blen (recvbuf w') < blen (recvbuf w) \<and> 0 \<le> blen (recvbuf w')"
proof -
  obtain b0 b1 where b: "buf_purge b = Inr b0" "packet_get_raw b0 w = Inr (b1, w')" "0 < blen b1"
    using assms by (auto simp: packet_get_def bindr_eq_Inr dest: buf_purge_Inr split: if_splits)
  then have "b1 \<noteq> b0" using buf_purge_Inr [OF b(1)] by auto
  then show ?thesis using packet_get_raw_less [OF b(2)] by simp
qed

section \<open>The messages\<close>

lemma fd_kept_tame:
  assumes "fd_kept w w'"
  shows "tame w w'"
proof -
  have m: "w'\<lparr>sysrets := [], open_fds := []\<rparr> = w\<lparr>sysrets := [], open_fds := []\<rparr>" using assms by (simp add: fd_kept_def)
  have "flagclosesent w' = flagclosesent w" using arg_cong [OF m, of flagclosesent] by simp
  moreover have "flagauthorized w' = flagauthorized w" using arg_cong [OF m, of flagauthorized] by simp
  moreover have "flagrekeying w' = flagrekeying w" using arg_cong [OF m, of flagrekeying] by simp
  moreover have "sessionid w' = sessionid w" using arg_cong [OF m, of sessionid] by simp
  moreover have "recvbuf w' = recvbuf w" using arg_cong [OF m, of recvbuf] by simp
  moreover have "ch_fd1 w' = ch_fd1 w" using arg_cong [OF m, of ch_fd1] by simp
  moreover have "ch_fd2 w' = ch_fd2 w" using arg_cong [OF m, of ch_fd2] by simp
  moreover have "channel_iseof w' = channel_iseof w"
    using calculation fd_keptD [OF assms] by (simp add: channel_iseof_def)
  ultimately show ?thesis by (simp add: tame_def flags_same_def)
qed

lemma channel_open_tame: "channel_open u i rw mp w = Inr (lw, w') \<Longrightarrow> tame w w'"
  by (auto simp: channel_open_def bindr_eq_Inr Let_def tame_def flags_same_def channel_iseof_def split: if_splits prod.splits)

lemma channel_exec_tame:
  assumes "channel_exec cmd w = Inr (r, w')"
  shows "tame w w'"
  using assms
proof (cases rule: channel_exec_cases)
  case failed
  then show ?thesis by (simp add: fd_kept_tame)
next
  case (started u in0 in1 out0 out1 c)
  have "tame w u" by (rule fd_kept_tame [OF started(2)])
  moreover have "\<not> channel_iseof w'" using started(4) by (simp add: started(7) channel_iseof_def)
  ultimately show ?thesis by (simp add: tame_def flags_same_def started(7))
qed

lemma channel_put_tame: "channel_put x n w = Inr w' \<Longrightarrow> tame w w'"
  by (auto simp: channel_put_def bindr_eq_Inr tame_def flags_same_def channel_iseof_def split: if_splits)

lemma channel_puteof_tame: "channel_puteof w = Inr w' \<Longrightarrow> tame w w'"
  by (auto simp: channel_puteof_def Let_def sys_close_def tame_def flags_same_def channel_iseof_def split: if_splits)

lemma send_eof_tame: "packet_channel_send_eof b w = Inr (b', w') \<Longrightarrow> tame w w'"
  by (auto simp: packet_channel_send_eof_def bindr_eq_Inr tame_def flags_same_def channel_iseof_def
      dest!: tame_put split: if_splits)

lemma request_dispatch_tame: "request_dispatch cmd n b1 pos w = Inr (ok, b1', w') \<Longrightarrow> tame w w'"
  by (auto simp: request_dispatch_def request_exec_def request_subsystem_def request_shell_def request_env_def request_pty_def
      request_resize_def channel_ptyresize_def bindr_eq_Inr dest: channel_exec_tame split: if_splits option.splits)

lemma request_reply_tame: "request_reply wp i t b1 b2 w = Inr (b1', b2', w') \<Longrightarrow> tame w w'"
  by (auto simp: request_reply_def bindr_eq_Inr dest: tame_put split: if_splits)

lemma packet_channel_request_tame:
  assumes "packet_channel_request b1 b2 w = Inr (b1', b2', w')"
  shows "tame w w'"
proof -
  obtain cmd n c1 pos ok c2 w1 wp i t where "request_dispatch cmd n c1 pos w = Inr (ok, c2, w1)"
    "request_reply wp i t c2 b2 w1 = Inr (b1', b2', w')"
    using assms unfolding packet_channel_request_def bindr_eq_Inr by (fastforce simp: bindr_eq_Inr)
  then show ?thesis using request_dispatch_tame request_reply_tame tame_trans by blast
qed

lemma packet_channel_open_tame: "packet_channel_open b1 b2 w = Inr (b1', b2', w') \<Longrightarrow> tame w w'"
  by (auto simp: packet_channel_open_def channel_confirm_def channel_refuse_def bindr_eq_Inr Let_def
      dest!: channel_open_tame tame_put intro: tame_trans split: if_splits)

lemma recv_data_tame: "packet_channel_recv_data b w = Inr (b', w') \<Longrightarrow> tame w w'"
  by (auto simp: packet_channel_recv_data_def bindr_eq_Inr dest: channel_put_tame)

lemma recv_windowadjust_tame: "packet_channel_recv_windowadjust b w = Inr (b', w') \<Longrightarrow> tame w w'"
  by (auto simp: packet_channel_recv_windowadjust_def bindr_eq_Inr Let_def channel_incrementremotewindow_def
      tame_def flags_same_def channel_iseof_def)

lemma recv_eof_tame: "packet_channel_recv_eof b w = Inr (b', w') \<Longrightarrow> tame w w'"
  by (auto simp: packet_channel_recv_eof_def bindr_eq_Inr dest: channel_puteof_tame)

lemma recv_close_tame:
  assumes "packet_channel_recv_close b w = Inr (b', w')"
  shows "tame w w'"
proof -
  obtain b1 b2 w1 where "packet_channel_send_eof b1 w = Inr (b2, w1)" "w' = w1\<lparr>flagchanneleofreceived := True\<rparr>"
    using assms by (auto simp: packet_channel_recv_close_def bindr_eq_Inr Let_def)
  moreover from this(2) have "channel_iseof w' = channel_iseof w1" by (simp add: channel_iseof_def)
  ultimately show ?thesis using send_eof_tame [of b1 w b2 w1] by (simp add: tame_def flags_same_def)
qed

lemma unimplemented_tame: "packet_unimplemented b w = Inr (r, b', w') \<Longrightarrow> tame w w'"
  by (auto simp: packet_unimplemented_def bindr_eq_Inr intro: tame_trans [OF tame_put tame_sendall])

lemma must_Inr: "must m = Inr x \<longleftrightarrow> m = Inr (True, x)"
  by (auto simp: must_def bindr_eq_Inr)

lemma handle_packet_tame: "handle_packet b1 b2 w = Inr (b1', b2', w') \<Longrightarrow> tame w w'"
  by (auto simp: handle_packet_def bindr_eq_Inr must_Inr packet_channel_recv_extendeddata_def
      dest: packet_channel_open_tame packet_channel_request_tame recv_data_tame recv_windowadjust_tame recv_eof_tame
        recv_close_tame unimplemented_tame split: if_splits)

section \<open>The main loop\<close>

lemma process_packets_ends:
  "process_packets fuel b1 b2 w = Inr (m, b1', b2', w') \<Longrightarrow> nat (blen (recvbuf w)) < fuel \<Longrightarrow>
    m \<in> {Again, Rekey} \<and> flags_same w w' \<and> (channel_iseof w' \<longrightarrow> channel_iseof w)"
proof (induction fuel arbitrary: b1 b2 w)
  case (Suc fuel)
  obtain r c1 w1 where g: "packet_get b1 0 w = Inr (r, c1, w1)" using Suc.prems(1) by (auto simp: bindr_eq_Inr)
  have k1: "flags_same w w1" "channel_iseof w1 = channel_iseof w" using kept_flags [OF kept_get [OF g]] by simp_all
  show ?case
  proof (cases "\<not> r \<or> blen c1 < 1 \<or> (\<exists>t. rd1 (bmem c1) 0 = Inr t \<and> t = SSH_MSG_KEXINIT)")
    case True
    then show ?thesis using Suc.prems(1) g k1 by (auto split: if_splits)
  next
    case False
    then obtain d1 d2 w2 where h: "handle_packet c1 b2 w1 = Inr (d1, d2, w2)"
      "process_packets fuel d1 d2 w2 = Inr (m, b1', b2', w')"
      using Suc.prems(1) g by (auto simp: bindr_eq_Inr split: if_splits)
    have t: "flags_same w1 w2" "recvbuf w2 = recvbuf w1" "channel_iseof w2 \<longrightarrow> channel_iseof w1"
      using handle_packet_tame [OF h(1)] by (simp_all add: tame_def)
    have "nat (blen (recvbuf w2)) < fuel" using packet_get_less [OF g] False Suc.prems(2) t(2) by auto
    from Suc.IH [OF h(2) this] show ?thesis using t k1 flags_same_trans by blast
  qed
qed simp

lemma channel_read_flags: "channel_read m off n w = Inr (r, m', w') \<Longrightarrow> flags_same w w'"
  by (auto simp: channel_read_def Let_def bindr_eq_Inr channel_eof1_def sys_close_def flags_same_def
      split: if_splits list.splits rxev.splits)

lemma send_data_flags:
  assumes "packet_channel_send_data b w = Inr (b', w')"
  shows "flags_same w w'"
proof -
  obtain b1 ready where 1: "buf_purge b = Inr b1" "\<not> balloc b1 \<le> int PACKET_LIMIT" "packet_putisready w = Inr ready"
    using assms by (auto simp: packet_channel_send_data_def Let_def bindr_eq_Inr split: if_splits)
  show ?thesis
  proof (cases ready)
    case True
    obtain r m w1 where rd: "channel_read (bmem b1) 9 (channel_limit w - 9) w = Inr (r, m, w1)"
      using assms 1 True by (auto simp: packet_channel_send_data_def Let_def bindr_eq_Inr)
    have "w' = w1 \<or> (\<exists>b. packet_put b w1 = Inr w')"
      using assms 1 True rd by (auto simp: packet_channel_send_data_def Let_def bindr_eq_Inr split: if_splits)
    then show ?thesis using channel_read_flags [OF rd] kept_flags [OF kept_put] flags_same_trans by blast
  qed (use assms 1 in \<open>auto simp: packet_channel_send_data_def Let_def\<close>)
qed

lemma flags_same_update [simp]:
  "flags_same w (w'\<lparr>child_tx := tx\<rparr>) = flags_same w w'" "flags_same w (w'\<lparr>ch_buf0 := m\<rparr>) = flags_same w w'"
  "flags_same w (w'\<lparr>child_got := g\<rparr>) = flags_same w w'" "flags_same w (w'\<lparr>ch_len0 := n\<rparr>) = flags_same w w'"
  "flags_same w (channel_eof0 w') = flags_same w w'"
  by (simp_all add: flags_same_def channel_eof0_def sys_close_def)

lemma channel_write_flags:
  assumes "channel_write w = Inr (r, w')"
  shows "flags_same w w'"
proof (cases "ch_len0 w \<le> 0")
  case True
  then show ?thesis using assms by (auto simp: channel_write_def split: if_splits)
next
  case pos: False
  obtain e es where e: "child_tx w = e # es" using assms pos by (cases "child_tx w") (auto simp: channel_write_def split: if_splits)
  have g: "ch_maxpacket w \<noteq> 0" "\<not> ch_pid w \<le> 0" "ch_fd0 w \<noteq> -1" using assms by (auto simp: channel_write_def split: if_splits)
  show ?thesis
  proof (cases e)
    case (Tx n)
    show ?thesis
    proof (cases "n = 0")
      case True
      then show ?thesis using assms pos e g Tx by (auto simp: channel_write_def Let_def)
    next
      case False
      then show ?thesis
        using assms pos e g Tx by (auto simp: channel_write_def Let_def bindr_eq_Inr split: if_split_asm)
    qed
  qed (use assms pos e g in \<open>auto simp: channel_write_def\<close>)
qed

lemma windowadjust_flags: "packet_channel_send_windowadjust b w = Inr (b', w') \<Longrightarrow> flags_same w w'"
  by (drule windowadjust_cases) (auto dest!: kept_flags simp: channel_incrementlocalwindow_def flags_same_def)

lemma child_io_flags:
  assumes "child_io a c b1 b2 w = Inr (b1', b2', w')"
  shows "flags_same w w'"
proof -
  obtain c1 w1 where 1: "(if a then bindr (must (channel_write w)) (\<lambda>w. packet_channel_send_windowadjust b1 w) else Inr (b1, w)) = Inr (c1, w1)"
    "(if c then packet_channel_send_data b2 w1 else Inr (b2, w1)) = Inr (b2', w')"
    using assms by (auto simp: child_io_def bindr_eq_Inr [of "if a then _ else _"] bindr_eq_Inr [of "if c then _ else _"] simp del: if_split)
  have "flags_same w w1"
    using 1(1) flags_same_trans [OF channel_write_flags windowadjust_flags] by (auto simp: bindr_eq_Inr must_Inr split: if_splits)
  moreover have "flags_same w1 w'" using 1(2) send_data_flags by (auto split: if_splits)
  ultimately show ?thesis by (rule flags_same_trans)
qed

lemma check_child_Inr: "check_child sig b w = Inr (b', w') \<longleftrightarrow> \<not> channel_iseof w \<and> b' = b \<and> w' = w"
  by (auto simp: check_child_def open_pipe_def)

text \<open>A round: it goes on, and the child's output is not at its end when it does.\<close>

lemma main_iter_steps:
  assumes "main_iter sig ev b1 b2 w = Inr (m, b1', b2', w')" and "\<not> channel_iseof w"
  shows "m \<in> {Again, Rekey}" "flags_same w w'" "\<not> channel_iseof w'"
proof -
  have go: "\<not> (channel_iseof w \<and> blen (sendbuf w) = 0 \<and> flagchanneleofreceived w)" using assms(2) by simp
  obtain rv rr where ready: "packet_recvisready w = Inr rv" "(if channel_readisready w then packet_putisready w else Inr False) = Inr rr"
    using assms(1) unfolding main_iter_def if_not_P [OF go] Let_def by (auto simp: bindr_eq_Inr simp del: if_split)
  define fired where "fired f = (case ev of None \<Rightarrow> False | Some e \<Rightarrow> f e)" for f
  define a where "a \<longleftrightarrow> channel_writeisready w \<and> fired p_tochild"
  define c where "c \<longleftrightarrow> rr \<and> fired p_fromchild1"
  define d where "d \<longleftrightarrow> packet_sendisready w \<and> fired p_out"
  define e where "e \<longleftrightarrow> rv \<and> fired p_in"
  note run = assms(1) [unfolded main_iter_def if_not_P [OF go] Let_def ready bindr_Inr, folded fired_def a_def c_def d_def e_def]
  obtain c1 c2 w1 where 1: "child_io a c b1 b2 w = Inr (c1, c2, w1)"
    using run by (auto simp: bindr_eq_Inr)
  have 2: "\<not> channel_iseof w1" "check_child sig c2 w1 = Inr (c2, w1)"
    using run 1 by (auto simp: bindr_eq_Inr check_child_Inr)
  obtain w2 where 3: "(if d then must (packet_send w1) else Inr w1) = Inr w2"
    using run by (auto simp only: 1 2(2) bindr_Inr prod.case bindr_eq_Inr)
  obtain r w3 where 4: "(if e then packet_recv w2 else Inr (True, w2)) = Inr (r, w3)"
    using run by (auto simp only: 1 2(2) 3 bindr_Inr prod.case bindr_eq_Inr)
  have 5: "(if \<not> r then (if channel_iseof w3 then Inr (Finish, c1, c2, w3) else Inl Fatal)
      else process_packets (Suc (nat (blen (recvbuf w3)))) c1 c2 w3) = Inr (m, b1', b2', w')"
    using run by (simp only: 1 2(2) 3 4 bindr_Inr prod.case)
  have k2: "flags_same w1 w2" "channel_iseof w2 = channel_iseof w1"
    using 3 kept_flags [OF kept_send] by (auto simp: must_Inr split: if_splits)
  have k3: "flags_same w2 w3" "channel_iseof w3 = channel_iseof w2"
    using 4 kept_flags [OF kept_recv] by (auto split: if_splits)
  have p: "process_packets (Suc (nat (blen (recvbuf w3)))) c1 c2 w3 = Inr (m, b1', b2', w')"
    using 2(1) 5 k2 k3 by (auto split: if_splits)
  note q = process_packets_ends [OF p lessI]
  show "m \<in> {Again, Rekey}" "\<not> channel_iseof w'" using q 2(1) k2 k3 by auto
  show "flags_same w w'" using child_io_flags [OF 1] k2 k3 q flags_same_trans by blast
qed

section \<open>Up to the authentication\<close>

text \<open>The buffer that the key exchange leaves for the authentication.\<close>

lemma putsharedsecret_wf:
  assumes "buf_putsharedsecret b x n = Inr b'" and "wf_buf b"
  shows "wf_buf b'"
proof -
  obtain b1 y m where 1: "(\<exists>u. buf_putnum32 b u = Inr b1) \<or> (\<exists>u c. buf_putnum32 b u = Inr c \<and> buf_putnum8 c 0 = Inr b1)"
    "buf_put b1 y m = Inr b'"
    using assms(1) unfolding buf_putsharedsecret_def
    by (auto simp: bindr_eq_Inr simp del: if_split split: if_split_asm) blast
  have "wf_buf b1" using 1(1) put_wf(1,2) assms(2) by blast
  then show ?thesis using buf_put_wf [OF _ 1(2)] by blast
qed

lemma putkemkey_wf: "buf_putkemkey w b x = Inr b' \<Longrightarrow> wf_buf b \<Longrightarrow> wf_buf b'"
  by (cases "sel_kex w")
    (auto simp: buf_putkemkey_def curve25519_putkemkey_def sntrup761x25519_putkemkey_def
      dest: put_wf(3) putsharedsecret_wf split: option.split_asm kemkey_fn.split_asm)

lemma kexdh_key_wf:
  assumes "kexdh_key letter ss H key b w = Inr (key', b')" and "wf_buf b"
  shows "wf_buf b'"
proof -
  obtain c0 c1 c2 c3 c4 d0 d1 d2 m n where q: "buf_purge b = Inr c0" "buf_putkemkey w c0 ss = Inr c1" "buf_put c1 H n = Inr c2"
    "buf_putnum8 c2 letter = Inr c3" "buf_put c3 (sessionid w) n = Inr c4" "buf_purge c4 = Inr d0" "buf_putkemkey w d0 ss = Inr d1"
    "buf_put d1 H n = Inr d2" "buf_put d2 m n = Inr b'"
    using assms(1) unfolding kexdh_key_def bindr_eq_Inr by (auto simp: bindr_eq_Inr)
  show ?thesis
    using q put_wf(6) [OF assms(2) q(1)] by (meson put_wf(1,6) buf_put_wf putkemkey_wf)
qed

lemma kexdh_keys_wf: "kexdh_keys is ss H key b w = Inr (b', w') \<Longrightarrow> wf_buf b \<Longrightarrow> wf_buf b'"
proof (induction "is" arbitrary: key b w)
  case (Cons i "is")
  then obtain key1 b1 where "kexdh_key (65 + of_nat i) ss H key b w = Inr (key1, b1)"
    "kexdh_keys is ss H key1 b1 (kexdh_store i key1 w) = Inr (b', w')" by (auto simp: bindr_eq_Inr)
  then show ?case using Cons kexdh_key_wf by blast
qed simp

lemma kexdh_receive_wf:
  assumes "kexdh_receive b w = Inr (r, c, b', w')" and "wf_buf b"
  shows "wf_buf b'"
proof -
  obtain r1 b1 w1 where 1: "(if kex_packet_follows w \<noteq> 0 \<and> kex_guess w = 0
      then bindr (buf_purge b) (\<lambda>b1. packet_getall b1 SSH_MSG_KEXDH_INIT w) else Inr (True, b, w)) = Inr (r1, b1, w1)"
    using assms(1) by (auto simp: kexdh_receive_def bindr_eq_Inr split: if_splits)
  have wf1: "wf_buf b1" using 1 assms(2) put_wf(6) [OF assms(2)] packet_getall_wf(1) by (auto simp: bindr_eq_Inr split: if_splits)
  have "b' = b1 \<or> (\<exists>b2 r2 b3 w3. buf_purge b1 = Inr b2 \<and> packet_getall b2 SSH_MSG_KEXDH_INIT w1 = Inr (r2, b3, w3) \<and>
      (b' = b3 \<or> buf_purge b3 = Inr b'))"
    using assms(1) 1 unfolding kexdh_receive_def by (auto simp: bindr_eq_Inr simp del: if_split split: if_split_asm)
  then show ?thesis using wf1 put_wf(6) packet_getall_wf(1) by blast
qed

lemma packet_kexdh_wf:
  assumes "packet_kexdh fuel p junk b1 b2 w = Inr (r, b1', b2', w')" and "wf_buf b1"
  shows "wf_buf b1'"
proof -
  obtain r1 qc c1 w1 where 1: "kexdh_receive b1 w = Inr (r1, qc, c1, w1)"
    using assms(1) unfolding packet_kexdh_def bindr_eq_Inr by fastforce
  note wf1 = kexdh_receive_wf [OF 1 assms(2)]
  have "b1' = c1 \<or> (\<exists>c2. buf_purge c1 = Inr c2 \<and> (b1' = c2 \<or> (\<exists>is ss H key u. kexdh_keys is ss H key c2 u = Inr (b1', w'))))"
    using assms(1) 1 unfolding packet_kexdh_def by (auto simp: bindr_eq_Inr Let_def split: if_splits)
  then show ?thesis using wf1 put_wf(6) kexdh_keys_wf by blast
qed

text \<open>From the start of the program: the tables keep their names, the stored line is the one from before.\<close>

definition starting :: "'a host_scheme \<Rightarrow> 'a host_scheme \<Rightarrow> bool" where
  "starting w w' \<longleftrightarrow> flagauthorized w' = flagauthorized w \<and> flagclosesent w' = flagclosesent w \<and> host.more w' = host.more w \<and>
     map ky_name (keys (crypt w')) = map ky_name (keys (crypt w)) \<and>
     (\<forall>k v. nvs_strings w' k = Some v \<longrightarrow> nvs_strings w k = Some v)"

lemma starting_refl [simp]: "starting w w"
  by (simp add: starting_def)

lemma starting_trans: "starting w w' \<Longrightarrow> starting w' w'' \<Longrightarrow> starting w w''"
  by (simp add: starting_def)

lemma starting_update [simp]:
  "starting w (w'\<lparr>hellosend := b\<rparr>) = starting w w'" "starting w (w'\<lparr>helloreceive := b\<rparr>) = starting w w'"
  "starting w (w'\<lparr>kexsend := b\<rparr>) = starting w w'" "starting w (w'\<lparr>kexrecv := b\<rparr>) = starting w w'"
  "starting w (w'\<lparr>kex_guess := g\<rparr>) = starting w w'" "starting w (w'\<lparr>kex_packet_follows := f\<rparr>) = starting w w'"
  "starting w (w'\<lparr>rxs := rx\<rparr>) = starting w w'" "starting w (w'\<lparr>rndpos := n\<rparr>) = starting w w'"
  by (simp_all add: starting_def)

lemma starting_update_left [simp]:
  "starting (w\<lparr>kexsend := b\<rparr>) w' = starting w w'" "starting (w\<lparr>kexrecv := b\<rparr>) w' = starting w w'"
  "starting (w\<lparr>rndpos := n\<rparr>) w' = starting w w'"
  by (simp_all add: starting_def)

lemma same_session_starting: "same_session w w' \<Longrightarrow> starting w w'"
  by (simp add: same_session_def starting_def)

lemmas kept_starting = same_session_starting [OF same_sessionI]

lemma starting_crypt: "map ky_name (keys s) = map ky_name (keys (crypt w')) \<Longrightarrow> starting w (w'\<lparr>crypt := s\<rparr>) = starting w w'"
  by (simp add: starting_def)

lemma starting_names: "starting w w' \<Longrightarrow> names_ok (crypt w) \<Longrightarrow> names_ok (crypt w')"
proof -
  assume "starting w w'" "names_ok (crypt w)"
  then have n: "ky_name ` set (keys (crypt w')) = ky_name ` set (keys (crypt w))"
    by (metis starting_def list.set_map)
  show ?thesis
    unfolding names_ok_def
  proof (intro ballI allI impI)
    fix k n assume "k \<in> set (keys (crypt w'))" "ky_name k = Some n"
    then have "Some n \<in> ky_name ` set (keys (crypt w))" unfolding n [symmetric] by force
    then show "\<exists>name. n = name @ [0] \<and> 0 \<notin> set name" using \<open>names_ok (crypt w)\<close> by (auto simp: names_ok_def)
  qed
qed

lemma enable_table_names: "enable_table nm f tab = Inr tab' \<Longrightarrow> (\<And>e. g (f e) = g e) \<Longrightarrow> map g tab' = map g tab"
  by (induction tab arbitrary: tab') (auto simp: bindr_eq_Inr split: if_splits)

lemma enable_crypto_names: "enable_crypto sel s = Inr s' \<Longrightarrow> map ky_name (keys s') = map ky_name (keys s)"
  by (auto simp: enable_crypto_def bindr_eq_Inr dest!: enable_table_names [where g = ky_name])

lemma load_keys_starting:
  "load_keys n p enoent i w = Inr w' \<Longrightarrow> starting w w'"
proof (induction n arbitrary: i w)
  case (Suc n)
  define k where "k = keys (crypt w) ! i"
  note step = Suc.prems [unfolded load_keys.simps Let_def, folded k_def]
  show ?case
  proof (cases "ky_name k = None \<or> ky_flagserver k = 0")
    case True
    then show ?thesis using step Suc.IH by (auto split: if_splits)
  next
    case False
    then obtain r pk w1 where l: "load p (ky_publickeyfilename k) (ky_publickey k) (ky_publickeybytes k) w = Inr (r, pk, w1)"
      using step by (auto simp: bindr_eq_Inr)
    have s1: "starting w w1" by (rule same_session_starting [OF same_session_load [OF l]])
    have up: "starting w w'" if "load_keys n p enoent (Suc i) (w1\<lparr>crypt := (crypt w1)\<lparr>keys := (keys (crypt w1))[i := h]\<rparr>\<rparr>) = Inr w'"
      and "ky_name h = ky_name (keys (crypt w1) ! i)" for h
    proof -
      have "map ky_name ((keys (crypt w1))[i := h]) = map ky_name (keys (crypt w1))"
        using that(2) by (simp add: map_update) (metis list_update_id map_update nth_map list_update_beyond not_le length_map)
      then have "starting w (w1\<lparr>crypt := (crypt w1)\<lparr>keys := (keys (crypt w1))[i := h]\<rparr>\<rparr>)" using s1 by (simp add: starting_def)
      then show ?thesis using Suc.IH [OF that(1)] starting_trans by blast
    qed
    show ?thesis using step False l up by (auto split: if_splits)
  qed
qed simp

lemma net_writeall_starting: "net_writeall b w = Inr (r, w') \<Longrightarrow> starting w w'"
  by (rule kept_starting [OF kept_writeall])

lemma hello_send_starting: "packet_hello_send w = Inr (r, w') \<Longrightarrow> starting w w'"
  unfolding packet_hello_send_def Let_def
  by (auto simp: bindr_eq_Inr simp del: if_split dest!: net_writeall_starting split: if_split_asm)

text \<open>Rules for a long computation whose results all satisfy a property.\<close>

definition ends :: "('r \<times> 's \<Rightarrow> bool) \<Rightarrow> ('r \<times> 's) res \<Rightarrow> bool" where
  "ends I m \<longleftrightarrow> (\<forall>x. m = Inr x \<longrightarrow> I x)"

lemma ends_intros:
  "ends I (Inl e)" "I x \<Longrightarrow> ends I (Inr x)" "(\<And>x. ends I (f x)) \<Longrightarrow> ends I (bindr m f)"
  "ends I m1 \<Longrightarrow> ends I m2 \<Longrightarrow> ends I (if c then m1 else m2)"
  "(\<And>a b. ends I (g a b)) \<Longrightarrow> ends I (case z of (a, b) \<Rightarrow> g a b)"
  by (auto simp: ends_def bindr_eq_Inr split: prod.split)

lemma hello_receive_starting: "packet_hello_receive w = Inr (r, w') \<Longrightarrow> starting w w'"
proof -
  have "ends (\<lambda>(r, w'). starting w w') (packet_hello_receive w)"
    unfolding packet_hello_receive_def Let_def by (intro ends_intros) simp_all
  then show "packet_hello_receive w = Inr (r, w') \<Longrightarrow> starting w w'" by (simp add: ends_def)
qed

lemma kex_send_starting: "packet_kex_send w = Inr (r, w') \<Longrightarrow> starting w w' \<and> flagrekeying w' = flagrekeying w \<and> sessionid w' = sessionid w"
proof -
  assume "packet_kex_send w = Inr (r, w')"
  then obtain b0 b1 b2 w1 b3 w2 where 1: "putrandom b0 16 w = Inr (b1, w1)" "packet_put b2 (w1\<lparr>kexsend := b3\<rparr>) = Inr w2"
    "packet_sendall w2 = Inr (r, w')"
    unfolding packet_kex_send_def by (auto simp: bindr_eq_Inr)
  have "w1 = w\<lparr>rndpos := rndpos w + 16\<rparr>" using 1(1) by (auto simp: putrandom_def randombytes_def Let_def bindr_eq_Inr)
  moreover have "kept (w1\<lparr>kexsend := b3\<rparr>) w'" using kept_put [OF 1(2)] kept_sendall [OF 1(3)] kept_trans by blast
  ultimately show ?thesis using kept_starting [of "w1\<lparr>kexsend := b3\<rparr>" w'] keptD [of "w1\<lparr>kexsend := b3\<rparr>" w'] by simp
qed

lemma select_keys:
  "sshcrypto_kex_select s m n g = Inr (r, s', g') \<Longrightarrow> keys s' = keys s"
  "sshcrypto_key_select s m n = Inr (r, s') \<Longrightarrow> keys s' = keys s"
  "sshcrypto_cipher_select s m n = Inr (r, s') \<Longrightarrow> keys s' = keys s"
  by (auto simp: sshcrypto_kex_select_def sshcrypto_key_select_def sshcrypto_cipher_select_def bindr_eq_Inr split: if_splits option.splits)

lemma kex_parse_starting: "kex_parse b w = Inr (r, w') \<Longrightarrow> starting w w'"
  unfolding kex_parse_def kex_rest_def Let_def
  by (auto simp: bindr_eq_Inr starting_crypt dest!: select_keys simp del: if_split split: if_split_asm)

lemma kex_receive_starting:
  assumes "packet_kex_receive w = Inr (r, w')"
  shows "starting w w'"
proof -
  obtain r1 b1 w1 where g: "packet_getall (kexrecv w) SSH_MSG_KEXINIT w = Inr (r1, b1, w1)" using assms
    by (auto simp: packet_kex_receive_def bindr_eq_Inr)
  have "starting w1 w' \<or> w' = w1\<lparr>kexrecv := b1\<rparr>"
    using assms g kex_parse_starting [of b1 "w1\<lparr>kexrecv := b1\<rparr>" r w'] by (auto simp: packet_kex_receive_def Let_def split: if_splits)
  moreover have "starting w w1" by (rule kept_starting [OF kept_getall [OF g]])
  ultimately show ?thesis using starting_trans by auto
qed

lemma session_start_state:
  assumes "session_start p enoent sel w0 = Inr (b1, b2, w)"
  shows "wf_buf b1" "\<not> flagauthorized w" "\<not> flagclosesent w" "ch_maxpacket w = 0" "tasks w = tasks w0"
    "names_ok (crypt w0) \<Longrightarrow> names_ok (crypt w)" "\<And>k v. nvs_strings w k = Some v \<Longrightarrow> nvs_strings w0 k = Some v"
proof -
  obtain u s u1 u2 u3 u4 where 1: "global_init w0 = Inr (b1, b2, u)" "enable_crypto sel (crypt u) = Inr s"
    "load_keys (length (keys s)) p enoent 0 (u\<lparr>crypt := s\<rparr>) = Inr u1" "packet_hello_send u1 = Inr (True, u2)"
    "packet_hello_receive u2 = Inr (True, u3)" "packet_kex_send u3 = Inr (True, u4)" "packet_kex_receive u4 = Inr (True, w)"
    using assms unfolding session_start_def open_cwd_def by (auto simp: bindr_eq_Inr must_Inr)
  obtain v where v: "packet_init w0 = Inr v" "u = channel_init v" "b1 = \<lparr>bmem = replicate GLOBAL_BSIZE 0, blen = 0, balloc = int GLOBAL_BSIZE\<rparr>"
    using 1(1) by (auto simp: global_init_def Let_def bindr_eq_Inr)
  have i: "\<not> flagauthorized v" "\<not> flagclosesent v" "host.more v = host.more w0" "crypt v = crypt w0" "nvs_strings v = nvs_strings w0"
    using v(1) by (auto simp: packet_init_def Let_def bindr_eq_Inr)
  have "tasks v = tasks w0" using i(3) by (cases v; cases w0) simp
  then have c: "\<not> flagauthorized u" "\<not> flagclosesent u" "crypt u = crypt w0" "nvs_strings u = nvs_strings w0" "ch_maxpacket u = 0"
    "tasks u = tasks w0"
    using i by (simp_all add: v(2) channel_init_def channel_zero_def)
  have "starting u (u\<lparr>crypt := s\<rparr>)" using enable_crypto_names [OF 1(2)] by (simp add: starting_def)
  then have st: "starting u w"
    using load_keys_starting [OF 1(3)] hello_send_starting [OF 1(4)] hello_receive_starting [OF 1(5)] kex_send_starting [OF 1(6)]
      kex_receive_starting [OF 1(7)] by (meson starting_trans)
  have more: "host.more w = host.more u" using st by (simp add: starting_def)
  then have "ch_maxpacket w = ch_maxpacket u" "tasks w = tasks u" by (cases w; cases u; simp)+
  then show "ch_maxpacket w = 0" "tasks w = tasks w0" using c by simp_all
  show "wf_buf b1" by (simp add: v(3) wf_buf_def GLOBAL_BSIZE_def)
  show "\<not> flagauthorized w" "\<not> flagclosesent w" using st c by (simp_all add: starting_def)
  show "names_ok (crypt w0) \<Longrightarrow> names_ok (crypt w)" using starting_names [OF st] c by simp
  show "\<And>k v. nvs_strings w k = Some v \<Longrightarrow> nvs_strings w0 k = Some v" using st c by (simp add: starting_def)
qed

text \<open>The key exchange and, the first time, the authentication.\<close>

lemma session_rekey_cases:
  assumes "session_rekey p l b1 b2 w = Inr (b1', b2', w')"
  obtains k1 k2 u v where "starting w u" "flagrekeying u = flagrekeying w" "sessionid u = sessionid w"
    "packet_kexdh (l_fuel l) p (\<lambda>n. map (l_junk l n) [0..<n]) b1 b2 u = Inr (True, k1, k2, v)"
    "if flagauthorized v then w' = v\<lparr>flagkeys := True\<rparr>
     else \<exists>x. packet_auth p (map (l_pk0 l) [0..<32]) (map (l_sig0 l) [0..<64]) k1 k2 (v\<lparr>flagkeys := True\<rparr>) = Inr (True, b1', b2', x) \<and>
            w' = x\<lparr>flagauthorized := True\<rparr>"
proof -
  obtain u where u: "(if flagrekeying w
      then bindr (buf_purge (kexrecv w)) (\<lambda>k. bindr (buf_put k (bmem b1) (blen b1)) (\<lambda>k. must (packet_kex_send (w\<lparr>kexrecv := k\<rparr>))))
      else Inr w) = Inr u"
    using assms unfolding session_rekey_def bindr_eq_Inr by blast
  note run = assms [unfolded session_rekey_def u bindr_Inr]
  obtain k1 k2 v where k: "packet_kexdh (l_fuel l) p (\<lambda>n. map (l_junk l n) [0..<n]) b1 b2 u = Inr (True, k1, k2, v)"
    using run by (auto simp: bindr_eq_Inr must_Inr)
  have "starting w u \<and> flagrekeying u = flagrekeying w \<and> sessionid u = sessionid w"
    using u by (auto simp: bindr_eq_Inr must_Inr dest!: kex_send_starting split: if_splits)
  then show thesis
    using run that k by (auto simp: must_Inr bindr_eq_Inr Let_def must_def split: if_splits)
qed

section \<open>Invariants\<close>

lemma host_more_sess:
  assumes "host.more w' = host.more w"
  shows "channel_iseof w' = channel_iseof w" "ch_maxpacket w' = ch_maxpacket w" "tasks w' = tasks w"
  using assms by (cases w; cases w'; simp add: channel_iseof_def)+

definition unfinished :: "config \<Rightarrow> bool" where
  "unfinished s \<longleftrightarrow> (case s of (ph, b1, b2, w) \<Rightarrow> ph \<in> {Keying, Looping} \<and> \<not> channel_iseof w \<and> \<not> flagclosesent w)"

lemma session_rekey_unfinished:
  assumes "session_rekey p l b1 b2 w = Inr (b1', b2', w')"
  shows "host.more w' = host.more w" "flagclosesent w' = flagclosesent w"
proof -
  obtain k1 k2 u v where 1: "starting w u" "flagrekeying u = flagrekeying w" "sessionid u = sessionid w"
    "packet_kexdh (l_fuel l) p (\<lambda>n. map (l_junk l n) [0..<n]) b1 b2 u = Inr (True, k1, k2, v)"
    "if flagauthorized v then w' = v\<lparr>flagkeys := True\<rparr>
     else \<exists>x. packet_auth p (map (l_pk0 l) [0..<32]) (map (l_sig0 l) [0..<64]) k1 k2 (v\<lparr>flagkeys := True\<rparr>) = Inr (True, b1', b2', x) \<and>
            w' = x\<lparr>flagauthorized := True\<rparr>"
    by (rule session_rekey_cases [OF assms])
  have "host.more v = host.more w" "flagclosesent v = flagclosesent w"
    using 1(1) kexdh_session [OF 1(4)] by (simp_all add: starting_def)
  moreover have "host.more w' = host.more v \<and> flagclosesent w' = flagclosesent v"
  proof (cases "flagauthorized v")
    case True
    then show ?thesis using 1(5) by simp
  next
    case False
    then obtain x where "packet_auth p (map (l_pk0 l) [0..<32]) (map (l_sig0 l) [0..<64]) k1 k2 (v\<lparr>flagkeys := True\<rparr>) = Inr (True, b1', b2', x)"
      "w' = x\<lparr>flagauthorized := True\<rparr>" using 1(5) by auto
    then show ?thesis using packet_auth_kept [of p _ _ k1 k2 "v\<lparr>flagkeys := True\<rparr>" True b1' b2' x] by (simp add: auth_kept_def)
  qed
  ultimately show "host.more w' = host.more w" "flagclosesent w' = flagclosesent w" by simp_all
qed

lemma step_unfinished:
  assumes "session_step p sig s s'" and "unfinished s"
  shows "unfinished s'"
  using assms(1)
proof (cases rule: session_step.cases)
  case (keying l b1 b2 w s1)
  obtain c1 c2 w1 where s1: "s1 = (c1, c2, w1)" by (cases s1) auto
  show ?thesis
    using assms(2) session_rekey_unfinished [OF keying(3) [unfolded s1]] host_more_sess(1) [of w1 w] by (simp add: unfinished_def keying s1)
next
  case (again ev b1 b2 w s1)
  obtain c1 c2 w1 where s1: "s1 = (c1, c2, w1)" by (cases s1) auto
  show ?thesis
    using assms(2) main_iter_steps [OF again(3) [unfolded s1]] by (simp add: unfinished_def flags_same_def again s1)
next
  case (rekey ev b1 b2 w s1)
  obtain c1 c2 w1 where s1: "s1 = (c1, c2, w1)" by (cases s1) auto
  show ?thesis
    using assms(2) main_iter_steps [OF rekey(3) [unfolded s1]] by (simp add: unfinished_def flags_same_def rekey s1)
next
  case (finish ev b1 b2 w s1)
  obtain c1 c2 w1 where s1: "s1 = (c1, c2, w1)" by (cases s1) auto
  show ?thesis using assms(2) main_iter_steps(1) [OF finish(3) [unfolded s1]] by (simp add: unfinished_def finish)
next
  case (stuck ev b1 b2 w s1)
  obtain c1 c2 w1 where s1: "s1 = (c1, c2, w1)" by (cases s1) auto
  show ?thesis using assms(2) main_iter_steps(1) [OF stuck(3) [unfolded s1]] by (simp add: unfinished_def stuck)
qed

lemma reachable_unfinished: "reachable p sig s0 s \<Longrightarrow> unfinished s0 \<Longrightarrow> unfinished s"
  by (induction rule: reachable.induct) (auto intro: step_unfinished)

text \<open>Who is served: the evidence for the identity, under the session's identifier.\<close>

definition key_evidence :: "prims \<Rightarrow> 'a host_scheme \<Rightarrow> bytes \<Rightarrow> bool" where
  "key_evidence p w0 sid \<longleftrightarrow> (\<exists>(w1 :: 'a host_scheme) req k name pk rest. sessionid w1 = sid \<and> signed p w1 k pk req \<and> req \<noteq> [] \<and>
     hd req = SSH_MSG_USERAUTH_REQUEST \<and> ky_name k = Some (name @ [0]) \<and> length pk = 32 \<and>
     nvs_strings w0 (lit ''authorized_key'') = Some (name @ 32 # base64 (ed25519_blob pk) @ rest) \<and>
     (rest = [] \<or> hd rest \<in> {32, 10, 13}))"

definition served :: "prims \<Rightarrow> sess \<Rightarrow> config \<Rightarrow> bool" where
  "served p w0 s \<longleftrightarrow> (case s of (ph, b1, b2, w) \<Rightarrow>
     if flagauthorized w then flagrekeying w \<and> key_evidence p w0 (sessionid w)
     else ph = Keying \<and> wf_buf b1 \<and> names_ok (crypt w) \<and> ch_maxpacket w = 0 \<and> tasks w = tasks w0 \<and>
       (\<forall>k v. nvs_strings w k = Some v \<longrightarrow> nvs_strings w0 k = Some v))"

lemma auth_key_evidence:
  fixes w w0 :: "'a host_scheme"
  assumes "auth_evidence p w" and "\<And>k v. nvs_strings w k = Some v \<Longrightarrow> nvs_strings w0 k = Some v"
  shows "key_evidence p w0 (sessionid w)"
proof -
  obtain req k name pk line where e: "req \<noteq> []" "hd req = SSH_MSG_USERAUTH_REQUEST" "ky_name k = Some (name @ [0])" "length pk = 32"
    "signed p w k pk req" "nvs_strings w (lit ''authorized_key'') = Some line" "key_line name (base64 (ed25519_blob pk)) line"
    using assms(1) unfolding auth_evidence_def auth_ok_def by blast
  obtain rest where r: "line = name @ 32 # base64 (ed25519_blob pk) @ rest" "rest = [] \<or> hd rest \<in> {32, 10, 13}"
    using e(7) unfolding key_line_def by blast
  have "nvs_strings w0 (lit ''authorized_key'') = Some (name @ 32 # base64 (ed25519_blob pk) @ rest)"
    using assms(2) [OF e(6)] r(1) by simp
  with e(1-5) r(2) show ?thesis unfolding key_evidence_def by blast
qed

lemma step_served:
  assumes "session_step p sig s s'" and "served p w0 s" and "unfinished s"
    and "\<And>line. nvs_strings w0 (lit ''authorized_key'') = Some line \<Longrightarrow> 0 \<notin> set line"
  shows "served p w0 s'"
proof -
  have loop: "served p w0 (ph', c1, c2, w1)" if "main_iter sig ev b1 b2 w = Inr (m, c1, c2, w1)" "s = (Looping, b1, b2, w)"
    for ev b1 b2 w m c1 c2 w1 ph'
    using main_iter_steps(2) [OF that(1)] assms(2,3) by (simp add: served_def unfinished_def that(2) flags_same_def split: if_splits)
  have key: "served p w0 (Looping, c1, c2, w1)" if run: "session_rekey p l b1 b2 w = Inr (c1, c2, w1)" "s = (Keying, b1, b2, w)"
    for l b1 b2 w c1 c2 w1
  proof -
    obtain k1 k2 u v where 1: "starting w u" "flagrekeying u = flagrekeying w" "sessionid u = sessionid w"
      "packet_kexdh (l_fuel l) p (\<lambda>n. map (l_junk l n) [0..<n]) b1 b2 u = Inr (True, k1, k2, v)"
      "if flagauthorized v then w1 = v\<lparr>flagkeys := True\<rparr>
       else \<exists>x. packet_auth p (map (l_pk0 l) [0..<32]) (map (l_sig0 l) [0..<64]) k1 k2 (v\<lparr>flagkeys := True\<rparr>) = Inr (True, c1, c2, x) \<and>
              w1 = x\<lparr>flagauthorized := True\<rparr>"
      by (rule session_rekey_cases [OF run(1)])
    note kex = kexdh_session [OF 1(4)]
    have auth: "flagauthorized v = flagauthorized w" using kex(1) 1(1) by (simp add: starting_def)
    show ?thesis
    proof (cases "flagauthorized w")
      case True
      then have "flagrekeying w" "key_evidence p w0 (sessionid w)" using assms(2) by (simp_all add: served_def run(2))
      then show ?thesis using True auth 1(2,3,5) kex(6) by (simp add: served_def)
    next
      case False
      define a where "a = v\<lparr>flagkeys := True\<rparr>"
      obtain x where x: "packet_auth p (map (l_pk0 l) [0..<32]) (map (l_sig0 l) [0..<64]) k1 k2 a = Inr (True, c1, c2, x)"
        "w1 = x\<lparr>flagauthorized := True\<rparr>" using 1(5) False auth by (auto simp: a_def)
      have old: "wf_buf b1" "names_ok (crypt w)" "\<And>k v. nvs_strings w k = Some v \<Longrightarrow> nvs_strings w0 k = Some v"
        using assms(2) False by (simp_all add: served_def run(2))
      have wf: "wf_buf k1" by (rule packet_kexdh_wf [OF 1(4) old(1)])
      have names: "names_ok (crypt a)" using starting_names [OF 1(1) old(2)] kex(3) by (simp add: a_def)
      have strs: "nvs_strings w0 k = Some y" if "nvs_strings a k = Some y" for k y
        using that kex(5) [of k y] 1(1) old(3) by (simp add: a_def starting_def)
      have "auth_evidence p a"
        using packet_auth_evidence [OF x(1) wf _ names] strs assms(4) by simp
      then have "key_evidence p w0 (sessionid a)" using strs by (rule auth_key_evidence)
      moreover have "sessionid x = sessionid a" "flagrekeying x = flagrekeying a"
        using packet_auth_kept [OF x(1)] by (simp_all add: auth_kept_def)
      moreover have "flagrekeying a" using kex(8) by (simp add: a_def)
      ultimately show ?thesis by (simp add: served_def x(2))
    qed
  qed
  show ?thesis
    using assms(1)
  proof (cases rule: session_step.cases)
    case (keying l b1 b2 w s1)
    then show ?thesis using key by (cases s1) auto
  next
    case (again ev b1 b2 w s1)
    then show ?thesis using loop by (cases s1) blast
  next
    case (rekey ev b1 b2 w s1)
    then show ?thesis using loop by (cases s1) blast
  next
    case (finish ev b1 b2 w s1)
    then show ?thesis using loop by (cases s1) blast
  next
    case (stuck ev b1 b2 w s1)
    then show ?thesis using loop by (cases s1) blast
  qed
qed

lemma reachable_served:
  assumes "reachable p sig s0 s" and "unfinished s0" and "served p w0 s0"
    and "\<And>line. nvs_strings w0 (lit ''authorized_key'') = Some line \<Longrightarrow> 0 \<notin> set line"
  shows "served p w0 s"
  using assms(1)
proof (induction rule: reachable.induct)
  case (step s s')
  then show ?case using step_served [OF _ _ reachable_unfinished [OF _ assms(2)]] assms(4) by blast
qed (rule assms(3))

lemma session_run_reachable:
  assumes "session_run p sig enoent sel es w0 = Inr s"
  obtains b1 b2 w where "session_start p enoent sel w0 = Inr (b1, b2, w)" "reachable p sig (Keying, b1, b2, w) s"
proof -
  obtain b1 b2 w where "session_start p enoent sel w0 = Inr (b1, b2, w)" "session_steps p sig es (Keying, b1, b2, w) = Inr s"
    using assms by (auto simp: session_run_def bindr_eq_Inr)
  then show thesis using session_steps_reachable that by blast
qed

lemma session_start_unfinished: "session_start p enoent sel w0 = Inr (b1, b2, w) \<Longrightarrow> unfinished (Keying, b1, b2, w)"
  using session_start_state(3,4) [of p enoent sel w0 b1 b2 w] by (simp add: unfinished_def channel_iseof_def)

section \<open>Properties\<close>


text \<open>Without a stored key no session serves anybody, whatever the client sends and the randomness is.\<close>

definition no_key_sess :: "rxev list \<Rightarrow> sess" where
  "no_key_sess rx = sess_start ((net_start rx [])\<lparr>crypt := sshc_start\<rparr>)"


text \<open>
  C10. The loop over the received messages ends: it takes at most one round per byte of the receive
  buffer, because every message it handles was taken out of the buffer and no handler puts one back.
  When it ends the session still has its identifier and its authorization.
\<close>

theorem process_packets_terminates:
  "case process_packets (Suc (nat (blen (recvbuf w)))) b1 b2 w of
     Inl e \<Rightarrow> True
   | Inr (m, b1', b2', w') \<Rightarrow>
       m \<noteq> Out_of_fuel \<and> sessionid w' = sessionid w \<and> flagauthorized w' = flagauthorized w"
proof (cases "process_packets (Suc (nat (blen (recvbuf w)))) b1 b2 w")
  case (Inr t)
  obtain m b1' b2' w' where t: "t = (m, b1', b2', w')" by (cases t) auto
  show ?thesis using process_packets_ends [OF Inr [unfolded t] lessI] unfolding Inr t by (auto simp: flags_same_def)
qed simp


end
