(* ===== verification/Spec2Isabelle.thy ===== *)
theory Spec2Isabelle
  imports Parser Hkdf Aead Ed25519 Packet_Stream Kex_Correct Auth Session_Correct
begin

text \<open>
  \<^bold>\<open>The program.\<close> The repository is the firmware of an ESP32 board: an SSH server, the TinySSH of
  src/components/tinyssh/tinyssh with the port files src/components/tinyssh/port_*.c, that gives an
  authorized client a small command interpreter, and glo_mtls, a TLS 1.3 record layer and key schedule
  (src/components/glo_mtls). The theories model the C code of both, as the ESP-IDF build compiles it:
  the port files replace their POSIX originals, and the sizes are those of tinyssh-config.h
  (PACKET_LIMIT 4096, PACKET_FULLLIMIT 4300, workspaces of 8192 bytes); unsigned long has 32 bits and
  plain char is unsigned.

  \<^bold>\<open>How the code is translated.\<close> A C function is a definition of the same name. Its error exits
  (bug_proto, bug_inval, bug_nomem, die_fatal, which leave the task) are values Inl, and so is Oob, an
  access outside of an array, which C leaves undefined; the combinator bindr of Prelude passes them on.
  An array is a list of bytes of the array's length, an access goes through rd, rd1, wr and wr1 with
  the C index. Machine words are words of their width; long long, in which the code computes its
  lengths, is int, since no length comes near its bounds. State is passed explicitly: struct packet is
  the record net of Packet, the flash storage is added in host (Kex), the channel in sess (Channel).
  What the board does is data of the state: scripts of what reads and writes on the connection return
  (rxs, txs), of the flash (nvs_script), of the socket calls (sysrets) and the random bytes (rnds).
  Local arrays that are not initialised are arguments (junk). Loops are recursive functions; where the
  number of rounds depends on the other side they have fuel (packet_kexdh) or a measure
  (packet_getall), and a run that needs more input than there is ends with Blocked.

  \<^bold>\<open>The theories.\<close>
  \<^item> Prelude: results, array access, generic lemmas on words and lists. Bytes (byte.c, str.c,
    uint32_*.c, verify.c, cleanup.c).
  \<^item> Buf (buf.c): the growing buffer; Parser (packetparser.c, stringparser.c). Every sequence of put
    operations appends exactly what it should or ends the program; what was put is parsed back.
  \<^item> Chacha (glo_chacha20.c, crypto_stream_chacha20.c), Poly1305 (crypto_onetimeauth_poly1305.c),
    Block_Hash, Sha256, Sha512 (crypto_hash_sha*.c): the limb and block code is equal to the
    mathematical definition of RFC 8439 and of FIPS 180-4; the two ChaCha20 agree.
  \<^item> Hkdf (glo_hkdf.c, glo_ks.c), Aead (glo_aead.c, glo_record.c): key schedule of RFC 8446, sealing
    and opening of records.
  \<^item> Fe25519 (fe.c, fe25519.c): the limb arithmetic modulo 2 ^ 255 - 19 computes the residues, without
    wrap-around of a 64-bit sum; X25519 (crypto_scalarmult_curve25519.c, glo_kex.c,
    sshcrypto_kex_curve25519.c): the ladder is the one of RFC 7748.
  \<^item> Sc25519 (sc25519.c), Ge25519 (ge25519.c), Ed25519 (crypto_sign_ed25519.c): canonical scalars, the
    addition law of the curve, multiples, decoding, and with them signing and verifying of RFC 8032.
  \<^item> Sshcrypto (sshcrypto*.c): the tables of algorithms, what is offered and selected, the encodings.
  \<^item> Packet (packet_*.c, port_packet.c, getln.c, writeall.c, the packet functions of
    port_sshcrypto_cipher_chachapoly.c), Packet_Correct, Packet_Frame, Packet_Stream: the format of
    packets on the wire in clear and encrypted, the receive loop on a stream cut in any way.
  \<^item> Kex, Kex_Correct (packet_kex.c, packet_kexdh.c, port_sign.c, port_load.c): exchange hash, session
    keys, session identifier. The key encapsulation and the signature scheme are the parameter prims.
  \<^item> Auth (packet_auth.c, port_auth.c): who is authorized.
  \<^item> Channel, Channel_Correct (port_channel.c, channel_subsystem.c, ssh.c, packet_channel_*.c): the
    channel as a pipe with flow control; Interp, Interp_Correct: interpreter_task of port_channel.c.
  \<^item> Session, Session_Correct (port_main_tinysshd.c, port_global.c): the life of a session as a state
    machine over the labels rekeying and main loop, and what holds in every state it reaches.

  \<^bold>\<open>Interfaces.\<close> name_table (Sshcrypto) is what the search and the listing need of a table of names,
  interpreted for the three tables; block_hash (Block_Hash) is the iteration of a compression function
  and its padding, interpreted for SHA-256 and SHA-512; stream_cipher (Chacha), aead (Aead) and framing
  (Packet_Stream) are the contracts of the ciphers, of sealing and of packets on a stream; byte_pipe (Channel_Correct) is the contract of
  the channel's buffer, interpreted for channel_put and channel_write.

  \<^bold>\<open>Fuel.\<close> packet_kexdh takes the number of rounds of its two loops that depend on the other side;
  its theorems hold for every fuel. process_packets is given one round more than there are bytes in
  the receive buffer, which process_packets_terminates shows to be enough.

  \<^bold>\<open>Not modelled.\<close> The key encapsulation sntrup761 (the parameter prims of Kex stands for it); logging, the error tables, address and number formatting; the platform glue of
  main.c, port_listener.c and port_random.c; the POSIX files the port replaces; tests.
\<close>

end
